(* ===== verification/Prelude.thy ===== *)
theory Prelude
  imports Main "HOL-Library.Sublist"
begin

text \<open>
  Shared vocabulary of the development: the errors of the C++ code as values, results that
  are either an error or a value, 64-bit sizes with their wrap-around, and the collections of
  facts that the component theories use with \<open>simp add:\<close>.
\<close>

named_theorems str_simps \<open>searching, cutting and comparing strings\<close>
named_theorems dict_simps \<open>operations of the key/value dictionary\<close>
named_theorems pipe_simps \<open>promise/future pipes and the dispatcher's maps\<close>

section \<open>Errors and results\<close>

text \<open>
  Every way in which an operation of the program leaves its normal path. The first five
  constructors are exceptions that the code throws or that the standard library throws for it;
  \<open>AssertFailure\<close> is a failed \<open>assert\<close> (the build does not define \<open>NDEBUG\<close>);
  \<open>ViewPastEnd\<close> and \<open>NullDereference\<close> stand for undefined behaviour: a string view that
  ends beyond its buffer, and a dereferenced null pointer.
\<close>

datatype cpp_error =
    RuntimeError string
  | InvalidArgument string
  | OutOfRange string
  | PromiseAlreadySatisfied
  | BrokenPromise
  | AssertFailure
  | ViewPastEnd
  | NullDereference

type_synonym 'a result = "cpp_error + 'a"

fun rbind :: "'a result \<Rightarrow> ('a \<Rightarrow> 'b result) \<Rightarrow> 'b result" where
  "rbind (Inl e) f = Inl e"
| "rbind (Inr x) f = f x"

lemma rbind_Inr [simp]: "rbind r Inr = r"
  by (cases r) simp_all

lemma rbind_assoc: "rbind (rbind r f) g = rbind r (\<lambda>x. rbind (f x) g)"
  by (cases r) simp_all

lemma rbind_eq_Inr: "rbind r f = Inr y \<longleftrightarrow> (\<exists>x. r = Inr x \<and> f x = Inr y)"
  by (cases r) simp_all

lemma rbind_eq_Inl: "rbind r f = Inl e \<longleftrightarrow> r = Inl e \<or> (\<exists>x. r = Inr x \<and> f x = Inl e)"
  by (cases r) auto

text \<open>Folding a step that may fail over a list stops at the first error.\<close>

fun rfold :: "('s \<Rightarrow> 'i \<Rightarrow> 's result) \<Rightarrow> 's \<Rightarrow> 'i list \<Rightarrow> 's result" where
  "rfold f s [] = Inr s"
| "rfold f s (x # xs) = rbind (f s x) (\<lambda>s'. rfold f s' xs)"

lemma rfold_append: "rfold f s (xs @ ys) = rbind (rfold f s xs) (\<lambda>s'. rfold f s' ys)"
  by (induction xs arbitrary: s) (simp_all add: rbind_assoc)

lemma rfold_inv:
  assumes "rfold f s xs = Inr t" and "P s"
    and "\<And>s x s'. P s \<Longrightarrow> f s x = Inr s' \<Longrightarrow> P s'"
  shows "P t"
  using assms by (induction xs arbitrary: s) (auto simp: rbind_eq_Inr)

section \<open>Sizes\<close>

text \<open>
  \<open>size_t\<close> has 64 bits. \<open>npos\<close> is \<open>std::string::npos\<close>, its largest value. Additions
  that can meet \<open>npos\<close> are written with \<open>size_add\<close>, which wraps. \<open>fits\<close> is the limit
  \<open>std::string::max_size\<close> puts on every string, so no position in a string is \<open>npos\<close>.
\<close>

definition npos :: nat where
  "npos = 2 ^ 64 - 1"

definition size_add :: "nat \<Rightarrow> nat \<Rightarrow> nat" where
  "size_add a b = (a + b) mod 2 ^ 64"

definition max_size :: nat where
  "max_size = 2 ^ 63 - 1"

definition fits :: "'a list \<Rightarrow> bool" where
  "fits s \<longleftrightarrow> length s \<le> max_size"

lemma size_add_npos [simp]: "size_add npos 2 = 1"
  by (simp add: size_add_def npos_def)

lemma size_add_small: "a + b < npos \<Longrightarrow> size_add a b = a + b"
  by (simp add: size_add_def npos_def)

lemma fits_less_npos: "fits s \<Longrightarrow> i \<le> length s + 4 \<Longrightarrow> i < npos"
  by (simp add: fits_def max_size_def npos_def)

lemma fits_appendD1: "fits (s @ t) \<Longrightarrow> fits s"
  by (simp add: fits_def)

lemma fits_appendD2: "fits (s @ t) \<Longrightarrow> fits t"
  by (simp add: fits_def)

lemma fits_le: "fits s \<Longrightarrow> length t \<le> length s \<Longrightarrow> fits t"
  by (simp add: fits_def)

lemma fits_drop: "fits s \<Longrightarrow> fits (drop n s)"
  by (simp add: fits_def)

end
