(* ===== verification/CppString.thy ===== *)
theory CppString
  imports Prelude
begin

text \<open>
  The operations of \<open>std::string\<close> that the program uses: \<open>find\<close>, \<open>substr\<close> and
  \<open>erase\<close>, on strings as lists of characters, with the lemmas about first occurrences that
  every parser below rests on.
\<close>

section \<open>First occurrence\<close>

fun find_sub :: "'a list \<Rightarrow> 'a list \<Rightarrow> nat option" where
  "find_sub p [] = (if p = [] then Some 0 else None)"
| "find_sub p (x # xs) =
     (if prefix p (x # xs) then Some 0 else map_option Suc (find_sub p xs))"

text \<open>\<open>s.find(p, pos)\<close>\<close>

definition str_find :: "string \<Rightarrow> string \<Rightarrow> nat \<Rightarrow> nat" where
  "str_find s p pos =
     (if length s < pos then npos
      else case find_sub p (drop pos s) of None \<Rightarrow> npos | Some i \<Rightarrow> pos + i)"

text \<open>\<open>s.substr(pos, n)\<close> for \<open>pos \<le> s.size()\<close>, and \<open>s.erase(0, n)\<close>\<close>

definition substr :: "string \<Rightarrow> nat \<Rightarrow> nat \<Rightarrow> string" where
  "substr s pos n = take n (drop pos s)"

definition erase_front :: "string \<Rightarrow> nat \<Rightarrow> string" where
  "erase_front s n = drop n s"

lemma find_sub_None: "find_sub p xs = None \<longleftrightarrow> \<not> sublist p xs"
  by (induction xs) (auto simp: sublist_Cons_right)

lemma find_sub_SomeD:
  "find_sub p xs = Some i \<Longrightarrow> xs = take i xs @ p @ drop (i + length p) xs \<and> i + length p \<le> length xs"
proof (induction xs arbitrary: i)
  case Nil
  then show ?case by (simp split: if_splits)
next
  case (Cons x xs)
  show ?case
  proof (cases "prefix p (x # xs)")
    case True
    with Cons.prems have "i = 0" by simp
    from True obtain zs where "x # xs = p @ zs" by (auto simp: prefix_def)
    with \<open>i = 0\<close> show ?thesis by simp
  next
    case False
    with Cons.prems obtain j where "i = Suc j" and "find_sub p xs = Some j" by auto
    with Cons.IH show ?thesis by simp
  qed
qed

lemmas find_sub_split = find_sub_SomeD [THEN conjunct1]
lemmas find_sub_bound = find_sub_SomeD [THEN conjunct2]

lemma find_sub_first: "find_sub p xs = Some i \<Longrightarrow> j < i \<Longrightarrow> \<not> prefix p (drop j xs)"
proof (induction xs arbitrary: i j)
  case Nil
  then show ?case by (simp split: if_splits)
next
  case (Cons x xs)
  from Cons.prems obtain i' where "i = Suc i'" and IH: "find_sub p xs = Some i'"
    and np: "\<not> prefix p (x # xs)" by (auto split: if_splits)
  with Cons.prems show ?case by (cases j) (auto dest: Cons.IH [OF IH])
qed

lemma find_sub_prefix: "find_sub p xs = Some i \<Longrightarrow> prefix p (drop i xs)"
proof -
  assume "find_sub p xs = Some i"
  from find_sub_SomeD [OF this] have "drop i xs = p @ drop (i + length p) xs"
    by (metis append_eq_conv_conj length_take min.absorb2 add_leD1)
  then show "prefix p (drop i xs)" by simp
qed

lemma find_sub_eq_SomeI:
  assumes "prefix p (drop i xs)" and "i \<le> length xs" and "\<And>j. j < i \<Longrightarrow> \<not> prefix p (drop j xs)"
  shows "find_sub p xs = Some i"
  using assms
proof (induction xs arbitrary: i)
  case Nil
  then show ?case by simp
next
  case (Cons x xs)
  show ?case
  proof (cases i)
    case 0
    with Cons.prems(1) show ?thesis by simp
  next
    case (Suc k)
    have "find_sub p xs = Some k"
    proof (rule Cons.IH)
      fix j assume "j < k"
      with Cons.prems(3) [of "Suc j"] Suc show "\<not> prefix p (drop j xs)" by simp
    qed (use Cons.prems Suc in simp_all)
    moreover from Cons.prems(3) [of 0] Suc have "\<not> prefix p (x # xs)" by simp
    ultimately show ?thesis using Suc by simp
  qed
qed

lemma find_sub_append: "find_sub p xs = Some i \<Longrightarrow> find_sub p (xs @ ys) = Some i"
proof (induction xs arbitrary: i)
  case Nil
  then show ?case by (cases ys) (simp_all split: if_splits)
next
  case (Cons x xs)
  show ?case
  proof (cases "prefix p (x # xs)")
    case True
    with Cons.prems show ?thesis using prefix_prefix [OF True, of ys] by simp
  next
    case False
    with Cons.prems obtain j where j: "i = Suc j" "find_sub p xs = Some j" by auto
    have "\<not> prefix p (x # xs @ ys)"
    proof
      assume *: "prefix p (x # xs @ ys)"
      from find_sub_bound [OF j(2)] have "length p \<le> length (x # xs)" by simp
      with * have "prefix p (x # xs)"
        by (metis append_Cons prefixI prefix_length_prefix)
      with False show False ..
    qed
    with j Cons.IH [OF j(2)] show ?thesis by simp
  qed
qed

lemma find_sub_le: "prefix p (drop j xs) \<Longrightarrow> j \<le> length xs \<Longrightarrow> \<exists>i \<le> j. find_sub p xs = Some i"
proof -
  assume pre: "prefix p (drop j xs)" and "j \<le> length xs"
  then have "sublist p xs"
    by (meson sublist_order.order_trans prefix_imp_sublist sublist_drop)
  then obtain i where i: "find_sub p xs = Some i" by (metis find_sub_None not_None_eq)
  with pre have "i \<le> j" using find_sub_first [OF i, of j] by (meson not_le_imp_less)
  with i show ?thesis by blast
qed

text \<open>
  Where a text holds no occurrence of \<open>p\<close>, an occurrence in an extension of it ends beyond
  the text, so the search may start less than \<open>length p\<close> characters before its end.
\<close>

lemma find_sub_skip:
  assumes "\<And>j. j < k \<Longrightarrow> \<not> prefix p (drop j xs)" and "k \<le> length xs"
  shows "find_sub p xs = map_option ((+) k) (find_sub p (drop k xs))"
  using assms
proof (induction k arbitrary: xs)
  case 0
  then show ?case by (simp add: option.map_ident)
next
  case (Suc k)
  from Suc.prems(2) obtain x ys where xs: "xs = x # ys" by (cases xs) auto
  have IH: "find_sub p ys = map_option ((+) k) (find_sub p (drop k ys))"
  proof (rule Suc.IH)
    fix j assume "j < k"
    with Suc.prems(1) [of "Suc j"] xs show "\<not> prefix p (drop j ys)" by simp
  qed (use Suc.prems xs in simp)
  from Suc.prems(1) [of 0] xs have "\<not> prefix p (x # ys)" by simp
  then have "find_sub p xs = map_option Suc (find_sub p ys)"
    by (simp add: xs)
  also have "\<dots> = map_option ((+) (Suc k)) (find_sub p (drop (Suc k) xs))"
    unfolding IH xs by (cases "find_sub p (drop k ys)") simp_all
  finally show ?case .
qed

lemma find_sub_backoff:
  assumes none: "find_sub p xs = None" and k: "k + length p \<le> length xs + 1" "k \<le> length xs"
  shows "find_sub p (xs @ ys) = map_option ((+) k) (find_sub p (drop k (xs @ ys)))"
proof (rule find_sub_skip)
  fix j assume "j < k"
  show "\<not> prefix p (drop j (xs @ ys))"
  proof
    assume pre: "prefix p (drop j (xs @ ys))"
    from \<open>j < k\<close> k have "length p \<le> length (drop j xs)" "drop j (xs @ ys) = drop j xs @ ys"
      by simp_all
    with pre have "prefix p (drop j xs)"
      by (metis prefixI prefix_length_prefix)
    then have "sublist p xs"
      by (meson sublist_order.order_trans prefix_imp_sublist sublist_drop)
    with none show False by (simp add: find_sub_None)
  qed
qed (use k in simp)

lemma sublist_appendI_left: "sublist p s \<Longrightarrow> sublist p (s @ t)"
  by (simp add: sublist_append)

lemma sublist_appendI_right: "sublist p t \<Longrightarrow> sublist p (s @ t)"
  by (simp add: sublist_append)

lemma sublist_dropD: "sublist p (drop n s) \<Longrightarrow> sublist p s"
  by (metis append_take_drop_id sublist_appendI_right)

section \<open>Delimiters\<close>

text \<open>
  The interface between the protocol's separators and the text that is cut at them: a separator
  that does not overlap itself is found exactly where a text free of it ends.
\<close>

locale delimiter =
  fixes d :: string
  assumes nonempty: "d \<noteq> []"
    and borderless: "d = u @ v \<Longrightarrow> d = v @ w \<Longrightarrow> v \<noteq> [] \<Longrightarrow> u = []"
begin

lemma no_overlap:
  assumes pre: "prefix d (u @ d @ t)" and "u \<noteq> []"
  shows "length d \<le> length u"
proof (rule ccontr)
  assume short: "\<not> length d \<le> length u"
  define v where "v = drop (length u) d"
  from pre short have u: "prefix u d"
    by (metis linorder_le_cases prefixI prefix_length_prefix)
  then have d: "d = u @ v" by (auto simp: v_def prefix_def)
  with pre have "prefix v (d @ t)" by (metis same_prefix_prefix)
  with d obtain w where "d = v @ w"
    by (metis append_eq_append_conv_if length_append linorder_not_less le_add2 prefixE prefixI prefix_length_prefix)
  moreover from short d have "v \<noteq> []" by auto
  ultimately show False using d borderless \<open>u \<noteq> []\<close> by blast
qed

lemma no_early_prefix:
  assumes clean: "\<not> sublist d s" and pre: "prefix d (s @ d @ t)"
  shows "s = []"
proof (rule ccontr)
  assume "s \<noteq> []"
  with no_overlap pre have "length d \<le> length s" by blast
  with pre have "prefix d s" by (metis prefixI prefix_length_prefix)
  with clean show False by (auto dest: prefix_imp_sublist)
qed

lemma find_first: "\<not> sublist d s \<Longrightarrow> find_sub d (s @ d @ t) = Some (length s)"
proof (induction s)
  case Nil
  from nonempty obtain x xs where "d @ t = x # xs" by (cases "d @ t") auto
  moreover have "prefix d (d @ t)" by simp
  ultimately show ?case by simp
next
  case (Cons x s)
  from Cons.prems have "\<not> sublist d s" by (auto simp: sublist_Cons_right)
  with Cons.IH no_early_prefix [of "x # s" t] Cons.prems show ?case by auto
qed

lemma find_first_end: "\<not> sublist d s \<Longrightarrow> find_sub d (s @ d) = Some (length s)"
  using find_first [of s "[]"] by simp

text \<open>In a text that ends in the separator, cutting at the first one leaves such a text again.\<close>

lemma rest_ends_in_delimiter:
  assumes "suffix d s" and "find_sub d s = Some j"
  shows "drop (j + length d) s = [] \<or> suffix d (drop (j + length d) s)"
proof -
  from assms(1) obtain w where s: "s = w @ d" by (auto simp: suffix_def)
  have "j \<le> length w" using find_sub_bound [OF assms(2)] s by simp
  consider "j = length w" | "j + length d \<le> length w" | "j < length w" "length w < j + length d"
    using \<open>j \<le> length w\<close> by linarith
  then show ?thesis
  proof cases
    case 1
    with s show ?thesis by simp
  next
    case 2
    with s show ?thesis by (simp add: suffix_def)
  next
    case 3
    from find_sub_prefix [OF assms(2)] s \<open>j \<le> length w\<close> have "prefix d (drop j w @ d @ [])"
      by simp
    with no_overlap [of "drop j w" "[]"] 3 show ?thesis by auto
  qed
qed

end

section \<open>\<open>find\<close> of \<open>std::string\<close>\<close>

lemma str_find_npos:
  "fits s \<Longrightarrow> pos \<le> length s \<Longrightarrow> str_find s p pos = npos \<longleftrightarrow> find_sub p (drop pos s) = None"
  by (auto simp: str_find_def split: option.splits
      dest!: find_sub_bound dest: fits_less_npos [of s] )

lemma str_find_Some:
  "pos \<le> length s \<Longrightarrow> find_sub p (drop pos s) = Some i \<Longrightarrow> str_find s p pos = pos + i"
  by (simp add: str_find_def)

lemma str_find_None:
  "find_sub p (drop pos s) = None \<Longrightarrow> str_find s p pos = npos"
  by (simp add: str_find_def)

lemma str_find_ge: "str_find s p pos \<noteq> npos \<Longrightarrow> pos \<le> str_find s p pos"
  by (auto simp: str_find_def split: if_splits option.splits)

lemma str_find_bound: "str_find s p pos \<noteq> npos \<Longrightarrow> str_find s p pos + length p \<le> length s"
  by (auto simp: str_find_def split: if_splits option.splits dest!: find_sub_bound)

lemma str_find_0:
  "str_find s p 0 = (case find_sub p s of None \<Rightarrow> npos | Some i \<Rightarrow> i)"
  by (simp add: str_find_def split: option.split)

end
