(* ===== verification/AmiDefs.thy ===== *)
theory AmiDefs
  imports CppString
begin

text \<open>
  \<open>include/c++ami/CppAmiDefs.h\<close>: the separators of the Asterisk Manager Interface, and the
  facts about them as delimiters. A record is \<open>key SEP value EOR\<close>; a message is a list of
  records followed by one more \<open>EOR\<close>, so that it ends in \<open>EOM\<close>.
\<close>

definition EOM :: string where
  "EOM = [CHR 0x0D, CHR 0x0A, CHR 0x0D, CHR 0x0A]"

definition EOR :: string where
  "EOR = [CHR 0x0D, CHR 0x0A]"

definition SEP :: string where
  "SEP = '': ''"

lemma length_EOM [simp]: "length EOM = 4"
  by (simp add: EOM_def)

lemma length_EOR [simp]: "length EOR = 2"
  by (simp add: EOR_def)

lemma length_SEP [simp]: "length SEP = 2"
  by (simp add: SEP_def)

lemma EOM_EOR: "EOM = EOR @ EOR"
  by (simp add: EOM_def EOR_def)

lemma EOM_nonempty [simp]: "EOM \<noteq> []"
  by (simp add: EOM_def)

lemma EOR_nonempty [simp]: "EOR \<noteq> []"
  by (simp add: EOR_def)

lemma SEP_nonempty [simp]: "SEP \<noteq> []"
  by (simp add: SEP_def)

lemma delimiter_pair: "a \<noteq> b \<Longrightarrow> delimiter [a, b]"
proof (rule delimiter.intro)
  fix u v w
  assume "a \<noteq> b" and "[a, b] = u @ v" and "[a, b] = v @ w" and "v \<noteq> []"
  then show "u = []" by (cases u; cases v) (auto simp: append_eq_Cons_conv Cons_eq_append_conv)
qed simp

interpretation sep: delimiter SEP
  unfolding SEP_def by (rule delimiter_pair) simp

interpretation eor: delimiter EOR
  unfolding EOR_def by (rule delimiter_pair) simp

section \<open>Texts free of a two-character separator\<close>

text \<open>A separator of two characters does not straddle a character that is neither of them.\<close>

lemma sublist_pair_across:
  assumes "c \<noteq> a" and "c \<noteq> b"
  shows "sublist [a, b] (xs @ c # ys) \<longleftrightarrow> sublist [a, b] xs \<or> sublist [a, b] ys"
proof (induction xs)
  case Nil
  from assms show ?case by (simp add: sublist_Cons_right)
next
  case (Cons x xs)
  have "prefix [a, b] (x # xs @ c # ys) \<longleftrightarrow> prefix [a, b] (x # xs)"
    using assms by (cases xs) auto
  with Cons.IH sublist_Cons_right [of "[a, b]" x "xs @ c # ys"] sublist_Cons_right [of "[a, b]" x xs]
  show ?case by auto
qed

lemma EOR_across_SEP: "sublist EOR (k @ SEP @ v) \<longleftrightarrow> sublist EOR k \<or> sublist EOR v"
  using sublist_pair_across [of "CHR '':''" "CHR 0x0D" "CHR 0x0A" k "CHR '' '' # v"]
    sublist_pair_across [of "CHR '' ''" "CHR 0x0D" "CHR 0x0A" "[]" v]
  by (simp add: EOR_def SEP_def)

text \<open>A line that is free of \<open>EOR\<close> and not empty does not start with it, once ended.\<close>

lemma EOR_not_prefix_line:
  "\<not> sublist EOR l \<Longrightarrow> l \<noteq> [] \<Longrightarrow> \<not> prefix EOR (l @ EOR @ t)"
  using eor.no_early_prefix by blast

text \<open>
  Where the first end of message is, seen from the first line: right at the end of the line when
  an empty line follows, and beyond the line otherwise.
\<close>

lemma find_EOM_line:
  assumes clean: "\<not> sublist EOR l" and "l \<noteq> []"
  shows "find_sub EOM (l @ EOR @ t) =
    (if prefix EOR t then Some (length l)
     else map_option ((+) (length l + 2)) (find_sub EOM t))"
proof -
  let ?s = "l @ EOR @ t"
  have before: "\<not> prefix EOM (drop j ?s)" if "j < length l" for j
  proof
    assume "prefix EOM (drop j ?s)"
    then have "prefix EOR (drop j ?s)"
      by (metis EOM_EOR append_prefixD)
    with find_sub_first [OF eor.find_first [OF clean, of t] that] show False by blast
  qed
  show ?thesis
  proof (cases "prefix EOR t")
    case True
    then have "prefix EOM (drop (length l) ?s)" by (simp add: EOM_EOR)
    with True before show ?thesis by (auto intro!: find_sub_eq_SomeI)
  next
    case False
    have "\<not> prefix EOM (drop j ?s)" if "j < length l + 2" for j
    proof -
      from that consider "j < length l" | "j = length l" | "j = Suc (length l)" by linarith
      then show ?thesis
      proof cases
        case 2
        with False show ?thesis by (simp add: EOM_EOR)
      next
        case 3
        then show ?thesis by (simp add: EOM_def EOR_def)
      qed (rule before)
    qed
    then have "find_sub EOM ?s = map_option ((+) (length l + 2)) (find_sub EOM (drop (length l + 2) ?s))"
      by (intro find_sub_skip) auto
    with False show ?thesis by simp
  qed
qed

end
