(* ===== verification/KeyValDict.thy ===== *)
theory KeyValDict
  imports AmiDefs
begin

text \<open>
  \<open>util::KeyValDict\<close> (\<open>src/util/KeyValDict.cpp\<close>, \<open>include/c++ami/util/KeyValDict.hpp\<close>): the
  dictionary behind every action and every event. Its state is the vector of keys in order and
  the hash map of values; a key may have no value yet. The operations work on every extension of
  the record, as the methods are inherited by \<open>Action\<close> and \<open>Event\<close>.
\<close>

section \<open>State and operations\<close>

record kvd =
  ordered_keys :: "string list"
  key_values :: "string \<rightharpoonup> string"

text \<open>\<open>std::unordered_map::emplace\<close> leaves the entry of a key that is already there.\<close>

definition emplace :: "('k \<rightharpoonup> 'v) \<Rightarrow> 'k \<Rightarrow> 'v \<Rightarrow> ('k \<rightharpoonup> 'v)" where
  "emplace m k v = (case m k of None \<Rightarrow> m(k \<mapsto> v) | Some _ \<Rightarrow> m)"

definition kvd_of_keys :: "string list \<Rightarrow> kvd" where
  "kvd_of_keys ks = \<lparr>ordered_keys = ks, key_values = Map.empty\<rparr>"

definition count :: "'a kvd_scheme \<Rightarrow> nat" where
  "count d = length (ordered_keys d)"

definition has_key :: "'a kvd_scheme \<Rightarrow> string \<Rightarrow> bool" where
  "has_key d k = List.member (ordered_keys d) k"

definition unknown_key :: "string \<Rightarrow> cpp_error" where
  "unknown_key k = RuntimeError (''unknown key '' @ k)"

text \<open>
  The two subscript operators. The mutable one returns a reference into the map, creating an
  empty value first where there is none; \<open>index_ref\<close> returns the value read through that
  reference and the dictionary afterwards, and \<open>index_assign\<close> writes through it.
\<close>

definition index_ref :: "'a kvd_scheme \<Rightarrow> string \<Rightarrow> (string \<times> 'a kvd_scheme) result" where
  "index_ref d k =
     (if \<not> has_key d k then Inl (unknown_key k)
      else let m = emplace (key_values d) k [] in Inr (the (m k), d\<lparr>key_values := m\<rparr>))"

definition index_assign :: "'a kvd_scheme \<Rightarrow> string \<Rightarrow> string \<Rightarrow> 'a kvd_scheme result" where
  "index_assign d k v =
     rbind (index_ref d k) (\<lambda>(_, d'). Inr (d'\<lparr>key_values := (key_values d')(k \<mapsto> v)\<rparr>))"

definition index_const :: "'a kvd_scheme \<Rightarrow> string \<Rightarrow> string result" where
  "index_const d k =
     (if \<not> has_key d k then Inl (unknown_key k)
      else case key_values d k of Some v \<Rightarrow> Inr v | None \<Rightarrow> Inr [])"

definition get_value :: "'a kvd_scheme \<Rightarrow> string \<Rightarrow> string option" where
  "get_value d k = key_values d k"

definition set_value :: "'a kvd_scheme \<Rightarrow> string \<Rightarrow> string \<Rightarrow> 'a kvd_scheme result" where
  "set_value d k v =
     (if \<not> has_key d k then Inl (unknown_key k)
      else Inr (d\<lparr>key_values := (key_values d)(k \<mapsto> v)\<rparr>))"

text \<open>
  The loop of \<open>set_message\<close> over the start of the next key. Where the end of a record is
  missing, \<open>val_end\<close> is \<open>npos\<close> and the view of the value has \<open>npos - val_beg\<close> characters,
  more than any buffer holds.
\<close>

function parse_loop :: "string \<Rightarrow> nat \<Rightarrow> 'a kvd_scheme \<Rightarrow> 'a kvd_scheme result" where
  "parse_loop event_buf key_beg d =
     (if key_beg < length event_buf then
        let key_end = str_find event_buf SEP key_beg in
        if key_end = npos then Inr d
        else
          let key = substr event_buf key_beg (key_end - key_beg);
              val_beg = key_end + 2;
              val_end = str_find event_buf EOR val_beg in
          if val_end = npos then Inl ViewPastEnd
          else
            let val = substr event_buf val_beg (val_end - val_beg) in
            parse_loop event_buf (val_end + 2)
              (d\<lparr>ordered_keys := ordered_keys d @ [key],
                 key_values := emplace (key_values d) key val\<rparr>)
      else Inr d)"
  by pat_completeness auto
termination
  by (relation "measure (\<lambda>(s, i, d). length s - i)") (auto dest!: str_find_ge)

declare parse_loop.simps [simp del]

definition set_message :: "'a kvd_scheme \<Rightarrow> string \<Rightarrow> 'a kvd_scheme result" where
  "set_message d event_buf =
     (if event_buf = [] then Inl AssertFailure
      else parse_loop event_buf 0 (d\<lparr>ordered_keys := [], key_values := Map.empty\<rparr>))"

definition kvd_of_string :: "string \<Rightarrow> kvd result" where
  "kvd_of_string event_buf = set_message (kvd_of_keys []) event_buf"

definition record_string :: "'a kvd_scheme \<Rightarrow> string \<Rightarrow> string" where
  "record_string d k =
     k @ SEP @ (case key_values d k of Some v \<Rightarrow> v | None \<Rightarrow> []) @ EOR"

definition to_string :: "'a kvd_scheme \<Rightarrow> string" where
  "to_string d = concat (map (record_string d) (ordered_keys d)) @ EOR"


section \<open>Reading a message is cutting it into records\<close>

text \<open>
  What \<open>set_message\<close> promises, without positions: the text up to the first \<open>SEP\<close> is the key,
  the text from there to the next \<open>EOR\<close> its value, and so on with the rest; \<open>None\<close> when a value
  is not ended.
\<close>

function records_of :: "string \<Rightarrow> (string \<times> string) list option" where
  "records_of s =
     (case find_sub SEP s of
        None \<Rightarrow> Some []
      | Some i \<Rightarrow>
          (let r = drop (i + 2) s in
           case find_sub EOR r of
             None \<Rightarrow> None
           | Some j \<Rightarrow> map_option ((#) (take i s, take j r)) (records_of (drop (j + 2) r))))"
  by pat_completeness auto
termination
  by (relation "measure length") (auto dest!: find_sub_bound)

declare records_of.simps [simp del]

definition dict_of :: "'a kvd_scheme \<Rightarrow> (string \<times> string) list \<Rightarrow> 'a kvd_scheme" where
  "dict_of d rs = d\<lparr>ordered_keys := map fst rs, key_values := map_of rs\<rparr>"

lemma records_of_no_SEP: "\<not> sublist SEP s \<Longrightarrow> records_of s = Some []"
  by (simp add: records_of.simps [of s] flip: find_sub_None)

lemma records_of_Nil [simp]: "records_of [] = Some []"
  by (rule records_of_no_SEP) (simp add: SEP_def)

lemma records_of_EOR [simp]: "records_of EOR = Some []"
  by (rule records_of_no_SEP) (simp add: SEP_def EOR_def sublist_Cons_right)

lemma emplace_map_add: "map_of rs ++ emplace m k v = map_of ((k, v) # rs) ++ m"
  by (auto simp: emplace_def map_add_def fun_eq_iff split: option.splits)

lemma emplace_apply [dict_simps]:
  "emplace m k v k' = (if k' = k \<and> m k = None then Some v else m k')"
  by (auto simp: emplace_def split: option.splits)

lemma parse_loop_records:
  assumes "fits s" and "pos \<le> length s"
  shows "parse_loop s pos d =
    (case records_of (drop pos s) of
       None \<Rightarrow> Inl ViewPastEnd
     | Some rs \<Rightarrow> Inr (d\<lparr>ordered_keys := ordered_keys d @ map fst rs,
                         key_values := map_of rs ++ key_values d\<rparr>))"
  using assms
proof (induction s pos d rule: parse_loop.induct)
  case (1 s pos d)
  show ?case
  proof (cases "pos < length s \<and> find_sub SEP (drop pos s) \<noteq> None")
    case False
    with "1.prems" show ?thesis
      by (cases "pos < length s")
         (simp_all add: parse_loop.simps [of s] records_of.simps [of "drop pos s"] str_find_None)
  next
    case True
    then obtain i where pos: "pos < length s" and i: "find_sub SEP (drop pos s) = Some i" by auto
    let ?r = "drop (i + 2) (drop pos s)"
    from i pos have ke: "str_find s SEP pos = pos + i" by (simp add: str_find_Some)
    from find_sub_bound [OF i] pos have le: "pos + i + 2 \<le> length s" by simp
    from le "1.prems" have ke': "pos + i \<noteq> npos" using fits_less_npos [of s "pos + i"] by simp
    show ?thesis
    proof (cases "find_sub EOR ?r")
      case None
      with pos i ke ke' show ?thesis
        by (simp add: parse_loop.simps [of s] records_of.simps [of "drop pos s"] str_find_None
            add.commute add.left_commute)
    next
      case (Some j)
      have ve: "str_find s EOR (pos + i + 2) = pos + i + 2 + j"
        using Some le by (simp add: str_find_Some add.commute add.left_commute)
      from find_sub_bound [OF Some] le have le': "pos + i + 2 + j + 2 \<le> length s" by simp
      with "1.prems" have ve': "pos + i + 2 + j \<noteq> npos"
        using fits_less_npos [of s "pos + i + 2 + j"] by simp
      show ?thesis
        using pos i ke ke' Some ve ve' le' "1.prems"(1)
          "1.IH" [OF pos refl _ refl refl refl _ refl]
        by (simp add: parse_loop.simps [of s pos] records_of.simps [of "drop pos s"]
            substr_def emplace_map_add add.commute add.left_commute split: option.split)
    qed
  qed
qed

text \<open>The form of the loop that the messages use: from the start, on cleared fields.\<close>

lemma set_message_eq:
  "fits s \<Longrightarrow> s \<noteq> [] \<Longrightarrow>
   set_message d s = (case records_of s of None \<Rightarrow> Inl ViewPastEnd | Some rs \<Rightarrow> Inr (dict_of d rs))"
  by (simp add: set_message_def parse_loop_records dict_of_def split: option.split)

text \<open>Where the text ends in \<open>EOR\<close>, every value that is begun is ended.\<close>

lemma SEP_before_EOR:
  assumes "suffix EOR s" and "find_sub SEP s = Some i"
  shows "suffix EOR (drop (i + 2) s)"
proof -
  from assms(1) obtain w where s: "s = w @ EOR" by (auto simp: suffix_def)
  have "i + 2 \<le> length w"
  proof (rule ccontr)
    assume "\<not> i + 2 \<le> length w"
    with find_sub_bound [OF assms(2)] s have "i + 1 = length w \<or> i = length w" by auto
    with find_sub_prefix [OF assms(2)] show False
      by (auto simp: s SEP_def EOR_def Suc_le_eq prefix_Cons drop_Suc_Cons
          simp flip: Cons_nth_drop_Suc split: if_splits)
  qed
  with s show ?thesis by (simp add: suffix_def)
qed

lemma records_of_ended: "suffix EOR s \<or> s = [] \<Longrightarrow> records_of s \<noteq> None"
proof (induction s rule: records_of.induct)
  case (1 s)
  show ?case
  proof (cases "find_sub SEP s")
    case None
    then show ?thesis by (simp add: records_of.simps [of s])
  next
    case (Some i)
    then have "s \<noteq> []" by (auto simp: SEP_def)
    with "1.prems" Some have suf: "suffix EOR (drop (i + 2) s)" using SEP_before_EOR by blast
    then have "find_sub EOR (drop (i + 2) s) \<noteq> None"
      by (simp add: find_sub_None suffix_imp_sublist)
    then obtain j where j: "find_sub EOR (drop (i + 2) s) = Some j" by blast
    from eor.rest_ends_in_delimiter [OF suf j]
    have "records_of (drop (j + 2) (drop (i + 2) s)) \<noteq> None"
      using "1.IH" [OF Some refl j] by auto
    with Some j show ?thesis by (simp add: records_of.simps [of s])
  qed
qed

section \<open>Writing a message and reading it back\<close>

definition print_records :: "(string \<times> string) list \<Rightarrow> string" where
  "print_records rs = concat (map (\<lambda>(k, v). k @ SEP @ v @ EOR) rs) @ EOR"

definition clean_record :: "string \<times> string \<Rightarrow> bool" where
  "clean_record = (\<lambda>(k, v). \<not> sublist SEP k \<and> \<not> sublist EOR v)"

definition rendered :: "'a kvd_scheme \<Rightarrow> (string \<times> string) list" where
  "rendered d =
     map (\<lambda>k. (k, case key_values d k of Some v \<Rightarrow> v | None \<Rightarrow> [])) (ordered_keys d)"

lemma to_string_rendered: "to_string d = print_records (rendered d)"
  by (simp add: to_string_def print_records_def rendered_def record_string_def [abs_def] comp_def)

lemma print_records_nonempty [simp]: "print_records rs \<noteq> []"
  by (simp add: print_records_def)

lemma records_of_line:
  assumes "\<not> sublist SEP k" and "\<not> sublist EOR v"
  shows "records_of (k @ SEP @ v @ EOR @ t) = map_option ((#) (k, v)) (records_of t)"
  using sep.find_first [OF assms(1), of "v @ EOR @ t"] eor.find_first [OF assms(2), of t]
  by (simp add: records_of.simps [of "k @ SEP @ v @ EOR @ t"])

lemma records_of_print: "\<forall>r \<in> set rs. clean_record r \<Longrightarrow> records_of (print_records rs) = Some rs"
proof (induction rs)
  case Nil
  show ?case by (simp add: print_records_def)
next
  case (Cons r rs)
  obtain k v where r: "r = (k, v)" by fastforce
  with Cons.prems records_of_line [of k v "print_records rs"] Cons.IH show ?case
    by (simp add: print_records_def clean_record_def)
qed



lemma map_fst_rendered [simp]: "map fst (rendered d) = ordered_keys d"
  by (simp add: rendered_def comp_def)

text \<open>
  A line that holds no \<open>EOR\<close>: then the written text holds an end of message at its end and
  nowhere before.
\<close>

definition one_line :: "string \<times> string \<Rightarrow> bool" where
  "one_line = (\<lambda>(k, v). \<not> sublist EOR k \<and> \<not> sublist EOR v)"

lemma print_records_Cons: "print_records ((k, v) # rs) = (k @ SEP @ v) @ EOR @ print_records rs"
  by (simp add: print_records_def)

lemma find_EOM_print:
  "rs \<noteq> [] \<Longrightarrow> \<forall>r \<in> set rs. one_line r \<Longrightarrow>
   find_sub EOM (print_records rs) = Some (length (print_records rs) - 4)"
proof (induction rs)
  case Nil
  then show ?case by simp
next
  case (Cons r rs)
  obtain k v where r: "r = (k, v)" by fastforce
  let ?l = "k @ SEP @ v"
  from Cons.prems r have l: "\<not> sublist EOR ?l" "?l \<noteq> []"
    by (auto simp: one_line_def EOR_across_SEP)
  show ?case
  proof (cases rs)
    case Nil
    then show ?thesis unfolding r print_records_Cons find_EOM_line [OF l]
      by (simp add: print_records_def)
  next
    case (Cons r2 rs2)
    obtain k2 v2 where r2: "r2 = (k2, v2)" by fastforce
    from Cons.prems Cons r2 have "\<not> sublist EOR (k2 @ SEP @ v2)" "k2 @ SEP @ v2 \<noteq> []"
      by (auto simp: one_line_def EOR_across_SEP)
    then have "\<not> prefix EOR (print_records rs)"
      unfolding Cons r2 print_records_Cons by (rule EOR_not_prefix_line)
    moreover have "find_sub EOM (print_records rs) = Some (length (print_records rs) - 4)"
      using Cons.IH Cons.prems Cons by simp
    moreover have "4 \<le> length (print_records rs)"
      by (simp add: Cons r2 print_records_Cons)
    ultimately show ?thesis unfolding r print_records_Cons find_EOM_line [OF l] by simp
  qed
qed

lemma suffix_EOR_print: "suffix EOR (print_records rs)"
  by (auto simp: print_records_def suffix_def)

section \<open>The dictionary as a store with a fixed set of keys\<close>

text \<open>
  The interface the actions rely on when they fill in their values: a write succeeds exactly on
  the keys the store was made with, is read back, and never changes the keys.
\<close>

locale keyed_store =
  fixes keys :: "'d \<Rightarrow> string list"
    and get :: "'d \<Rightarrow> string \<Rightarrow> string option"
    and put :: "'d \<Rightarrow> string \<Rightarrow> string \<Rightarrow> 'd result"
  assumes put_known: "k \<in> set (keys d) \<Longrightarrow> \<exists>d'. put d k v = Inr d'"
    and put_unknown: "k \<notin> set (keys d) \<Longrightarrow> put d k v = Inl (unknown_key k)"
    and get_put: "put d k v = Inr d' \<Longrightarrow> get d' = (get d)(k \<mapsto> v)"
    and keys_put: "put d k v = Inr d' \<Longrightarrow> keys d' = keys d"
begin

lemma put_all_known:
  "fst ` set kvs \<subseteq> set (keys d) \<Longrightarrow>
   \<exists>d'. rfold (\<lambda>d (k, v). put d k v) d kvs = Inr d' \<and> keys d' = keys d \<and>
        get d' = get d ++ map_of (rev kvs)"
proof (induction kvs arbitrary: d)
  case Nil
  show ?case by simp
next
  case (Cons kv kvs)
  obtain k v where kv: "kv = (k, v)" by fastforce
  with Cons.prems obtain d1 where d1: "put d k v = Inr d1" using put_known by fastforce
  with Cons.prems have "fst ` set kvs \<subseteq> set (keys d1)" by (simp add: keys_put)
  from Cons.IH [OF this] obtain d' where
      "rfold (\<lambda>d (k, v). put d k v) d1 kvs = Inr d'" "keys d' = keys d1"
      "get d' = get d1 ++ map_of (rev kvs)" by blast
  moreover have "get d1 ++ map_of (rev kvs) = get d ++ map_of (rev (kv # kvs))"
    by (auto simp: kv get_put [OF d1] map_add_def fun_eq_iff split: option.splits)
  ultimately show ?case using d1 keys_put [OF d1] by (auto simp: kv)
qed

lemma put_all_unknown:
  "\<not> fst ` set kvs \<subseteq> set (keys d) \<Longrightarrow>
   \<exists>k \<in> fst ` set kvs - set (keys d). rfold (\<lambda>d (k, v). put d k v) d kvs = Inl (unknown_key k)"
proof (induction kvs arbitrary: d)
  case Nil
  then show ?case by simp
next
  case (Cons kv kvs)
  obtain k v where kv: "kv = (k, v)" by fastforce
  show ?case
  proof (cases "k \<in> set (keys d)")
    case False
    then show ?thesis by (auto simp: kv put_unknown)
  next
    case True
    then obtain d1 where d1: "put d k v = Inr d1" using put_known by blast
    with Cons.prems True have "\<not> fst ` set kvs \<subseteq> set (keys d1)" by (simp add: kv keys_put)
    from Cons.IH [OF this] d1 show ?thesis by (auto simp: kv keys_put)
  qed
qed

end

lemma set_value_Inr:
  "set_value d k v = Inr d' \<longleftrightarrow> has_key d k \<and> d' = d\<lparr>key_values := (key_values d)(k \<mapsto> v)\<rparr>"
  by (auto simp: set_value_def)

lemma has_key_iff [dict_simps]: "has_key d k \<longleftrightarrow> k \<in> set (ordered_keys d)"
  by (simp add: has_key_def)

interpretation store: keyed_store ordered_keys get_value set_value
  by unfold_locales (auto simp: set_value_def has_key_iff get_value_def split: if_splits)

lemma index_assign_eq: "index_assign = set_value"
  by (auto simp: fun_eq_iff index_assign_def index_ref_def set_value_def emplace_def split: option.split)

interpretation reference: keyed_store ordered_keys get_value index_assign
  unfolding index_assign_eq by (rule store.keyed_store_axioms)

text \<open>Every key with the value of its first record: what is left of a text with repeated keys.\<close>

definition first_values :: "(string \<times> string) list \<Rightarrow> (string \<times> string) list" where
  "first_values rs = map (\<lambda>(k, _). (k, the (map_of rs k))) rs"

lemma map_of_mem: "(k, v) \<in> set rs \<Longrightarrow> \<exists>w. map_of rs k = Some w \<and> (k, w) \<in> set rs"
  by (metis map_of_SomeD map_of_eq_None_iff not_None_eq fst_conv image_eqI)

lemma first_values_id: "first_values rs = rs \<longleftrightarrow> (\<forall>(k, v) \<in> set rs. map_of rs k = Some v)"
proof -
  have "first_values rs = rs \<longleftrightarrow> (\<forall>r \<in> set rs. (\<lambda>(k, _). (k, the (map_of rs k))) r = r)"
    using map_eq_conv [of "\<lambda>(k, _). (k, the (map_of rs k))" rs id] by (simp add: first_values_def)
  also have "\<dots> \<longleftrightarrow> (\<forall>(k, v) \<in> set rs. map_of rs k = Some v)"
    by (fastforce dest: map_of_mem)
  finally show ?thesis .
qed

lemma first_values_clean:
  "\<forall>r \<in> set rs. clean_record r \<Longrightarrow> \<forall>r \<in> set (first_values rs). clean_record r"
proof
  fix r assume clean: "\<forall>r \<in> set rs. clean_record r" and "r \<in> set (first_values rs)"
  then obtain k v where "(k, v) \<in> set rs" and r: "r = (k, the (map_of rs k))"
    by (auto simp: first_values_def)
  from map_of_mem [OF this(1)] obtain w where "map_of rs k = Some w" "(k, w) \<in> set rs" by blast
  with clean r show "clean_record r" by auto
qed

lemma rendered_first_values:
  "rendered \<lparr>ordered_keys = map fst rs, key_values = map_of rs\<rparr> = first_values rs"
  by (force simp: rendered_def first_values_def dest: map_of_mem)

lemma print_records_inj:
  "\<forall>r \<in> set rs. clean_record r \<Longrightarrow> \<forall>r \<in> set rs'. clean_record r \<Longrightarrow>
   print_records rs = print_records rs' \<longleftrightarrow> rs = rs'"
  using records_of_print by (metis option.inject)

section \<open>Properties of the dictionary\<close>

text \<open>C13. \<open>set_message\<close> reads a non-empty text exactly as the cutting into records says: the keys
  in the order of the text with their repetitions, for every key the value of its first record,
  undefined behaviour exactly when a value is begun and not ended, and a failed assertion on the
  empty text.\<close>

theorem set_message_refines:
  assumes "fits s"
  shows "set_message d s =
    (if s = [] then Inl AssertFailure
     else case records_of s of
            None \<Rightarrow> Inl ViewPastEnd
          | Some rs \<Rightarrow> Inr (d\<lparr>ordered_keys := map fst rs, key_values := map_of rs\<rparr>))"
proof (cases "s = []")
  case True
  then show ?thesis by (simp add: set_message_def)
next
  case False
  with assms show ?thesis by (simp add: set_message_eq dict_of_def split: option.split)
qed

theorem set_message_refines_witness:
  "set_message (kvd_of_keys []) (''k: 1'' @ EOR @ ''k: 2'' @ EOR @ EOR) =
   Inr \<lparr>ordered_keys = [''k'', ''k''], key_values = map_of [(''k'', ''1''), (''k'', ''2'')]\<rparr>"
proof -
  let ?s = "''k: 1'' @ EOR @ ''k: 2'' @ EOR @ EOR"
  have "fits ?s" by (simp add: fits_def max_size_def EOR_def)
  moreover have "records_of ?s = Some [(''k'', ''1''), (''k'', ''2'')]" by code_simp
  ultimately show ?thesis using set_message_refines [of ?s "kvd_of_keys []"]
    by (simp add: kvd_of_keys_def)
qed

text \<open>Every text that ends in \<open>EOR\<close> (as every text that ends in \<open>EOM\<close> does) is read without
  error, whatever stands before.\<close>

theorem set_message_total:
  assumes "fits s" and "suffix EOR s"
  shows "\<exists>rs. records_of s = Some rs \<and> set_message d s = Inr (dict_of d rs)"
proof -
  from assms(2) have "s \<noteq> []" by (auto simp: suffix_def)
  with assms show ?thesis using records_of_ended [of s] by (auto simp: set_message_eq)
qed

theorem set_message_total_witness:
  "suffix EOR (''no separator'' @ EOM) \<and>
   (\<exists>rs. set_message (kvd_of_keys []) (''no separator'' @ EOM) = Inr (dict_of (kvd_of_keys []) rs))"
proof -
  let ?s = "''no separator'' @ EOM"
  have "fits ?s" by (simp add: fits_def max_size_def)
  moreover have "suffix EOR ?s" by (auto simp: EOM_EOR suffix_def)
  ultimately show ?thesis using set_message_total by blast
qed



text \<open>C22. A message written from records with clean keys and values is read and written again to the
  same text exactly when no key comes a second time with a different value; in general the value
  of the key's first record is repeated and the later ones are lost.\<close>

theorem read_write_lossless_iff:
  assumes "fits (print_records rs)" and "\<forall>r \<in> set rs. clean_record r"
  shows "\<exists>d. kvd_of_string (print_records rs) = Inr d \<and>
    to_string d = print_records (first_values rs) \<and>
    (to_string d = print_records rs \<longleftrightarrow> (\<forall>(k, v) \<in> set rs. map_of rs k = Some v))"
proof -
  let ?d = "\<lparr>ordered_keys = map fst rs, key_values = map_of rs\<rparr>"
  have "kvd_of_string (print_records rs) = Inr ?d"
    using assms by (simp add: kvd_of_string_def set_message_eq dict_of_def kvd_of_keys_def
        records_of_print)
  moreover have "to_string ?d = print_records (first_values rs)"
    by (simp add: to_string_rendered rendered_first_values)
  ultimately show ?thesis
    using print_records_inj [OF first_values_clean assms(2)] assms(2) first_values_id by auto
qed

theorem read_write_lossless_iff_witness:
  "\<exists>d. kvd_of_string (print_records [(''Output'', ''one''), (''Output'', ''two'')]) = Inr d \<and>
    to_string d = print_records [(''Output'', ''one''), (''Output'', ''one'')] \<and>
    to_string d \<noteq> print_records [(''Output'', ''one''), (''Output'', ''two'')]"
proof -
  let ?rs = "[(''Output'', ''one''), (''Output'', ''two'')]"
  have "fits (print_records ?rs)"
    by (simp add: fits_def max_size_def print_records_def EOR_def SEP_def)
  moreover have "\<forall>r \<in> set ?rs. clean_record r"
    by (simp add: clean_record_def SEP_def EOR_def sublist_Cons_right)
  ultimately show ?thesis using read_write_lossless_iff [of ?rs]
    by (auto simp: first_values_def)
qed

text \<open>The mutable subscript operator reads the same value as the const one and throws on the
  same keys; the empty value it creates is seen by \<open>get_value\<close> only: keys, values under
  the const subscript and the written text are as before.\<close>

theorem index_ref_transparent:
  "(case index_ref d k of
      Inl e \<Rightarrow> \<not> has_key d k \<and> e = unknown_key k \<and> index_const d k = Inl e
    | Inr (v, d') \<Rightarrow> has_key d k \<and> index_const d k = Inr v \<and> index_const d' = index_const d \<and>
        ordered_keys d' = ordered_keys d \<and> to_string d' = to_string d \<and>
        get_value d' = (get_value d)(k \<mapsto> v))"
proof (cases "has_key d k")
  case False
  then show ?thesis by (simp add: index_ref_def index_const_def)
next
  case True
  let ?d' = "d\<lparr>key_values := emplace (key_values d) k []\<rparr>"
  have "index_const ?d' = index_const d"
    by (auto simp: fun_eq_iff index_const_def emplace_apply has_key_def split: option.split)
  moreover have "record_string ?d' = record_string d"
    by (auto simp: fun_eq_iff record_string_def emplace_apply split: option.split)
  ultimately show ?thesis using True
    by (auto simp: index_ref_def index_const_def to_string_def get_value_def emplace_def
        split: option.split)
qed

text \<open>A series of writes succeeds exactly when it names known keys only, and then leaves the
  last value written for each key; otherwise it stops with \<open>unknown key\<close> for one of the others.
  The keys never change.\<close>

theorem writes_known_keys:
  "(case rfold (\<lambda>d (k, v). set_value d k v) d kvs of
      Inr d' \<Rightarrow> fst ` set kvs \<subseteq> set (ordered_keys d) \<and> ordered_keys d' = ordered_keys d \<and>
        get_value d' = get_value d ++ map_of (rev kvs)
    | Inl e \<Rightarrow> e \<in> unknown_key ` (fst ` set kvs - set (ordered_keys d)))"
proof (cases "fst ` set kvs \<subseteq> set (ordered_keys d)")
  case True
  with store.put_all_known [OF this] show ?thesis by auto
next
  case False
  with store.put_all_unknown [OF this] obtain k where
      "k \<in> fst ` set kvs - set (ordered_keys d)"
      "rfold (\<lambda>d (k, v). set_value d k v) d kvs = Inl (unknown_key k)" by blast
  then show ?thesis by simp
qed

text \<open>Writing through the mutable subscript operator is the same operation as
  \<open>set_value\<close>: same error on an unknown key, same dictionary otherwise.\<close>

lemma index_assign_is_set_value:
  "index_assign d k v = set_value d k v \<and>
   (has_key d k \<longrightarrow> (\<exists>d'. index_assign d k v = Inr d' \<and> index_const d' k = Inr v))"
  by (auto simp: index_assign_eq set_value_def index_const_def has_key_def)

section \<open>The representation invariant\<close>

text \<open>The map has entries for listed keys only, so \<open>has_key\<close> and \<open>get_value\<close> never disagree.\<close>

definition kvd_wf :: "'a kvd_scheme \<Rightarrow> bool" where
  "kvd_wf d \<longleftrightarrow> dom (key_values d) \<subseteq> set (ordered_keys d)"

lemma kvd_wf_iff: "kvd_wf d \<longleftrightarrow> (\<forall>k v. key_values d k = Some v \<longrightarrow> k \<in> set (ordered_keys d))"
  by (auto simp: kvd_wf_def)

lemma kvd_wf_set_value: "kvd_wf d \<Longrightarrow> set_value d k v = Inr d' \<Longrightarrow> kvd_wf d'"
  by (auto simp: kvd_wf_iff set_value_def has_key_def split: if_splits)

lemma kvd_wf_index_ref: "kvd_wf d \<Longrightarrow> index_ref d k = Inr (v, d') \<Longrightarrow> kvd_wf d'"
  by (auto simp: kvd_wf_iff index_ref_def has_key_def emplace_def Let_def
      split: if_splits option.splits)

lemma kvd_wf_dict_of: "kvd_wf (dict_of d rs)"
  by (auto simp: kvd_wf_def dict_of_def dom_map_of_conv_image_fst)

lemma kvd_wf_get: "kvd_wf d \<Longrightarrow> get_value d k = Some v \<Longrightarrow> has_key d k"
  by (auto simp: kvd_wf_def get_value_def has_key_def)

text \<open>C37. The representation invariant of the dictionary: both constructors establish it and every
  operation that changes a dictionary keeps it, so in every dictionary the program can make a key
  with a value is a listed key.\<close>

theorem dictionary_wf:
  assumes "kvd_wf d" and "fits s"
  shows "kvd_wf (kvd_of_keys ks) \<and>
    (case kvd_of_string s of Inr d' \<Rightarrow> kvd_wf d' | Inl e \<Rightarrow> e = AssertFailure \<or> e = ViewPastEnd) \<and>
    (case set_message d s of Inr d' \<Rightarrow> kvd_wf d' | Inl e \<Rightarrow> e = AssertFailure \<or> e = ViewPastEnd) \<and>
    (case set_value d k v of Inr d' \<Rightarrow> kvd_wf d' | Inl e \<Rightarrow> e = unknown_key k) \<and>
    (case index_assign d k v of Inr d' \<Rightarrow> kvd_wf d' | Inl e \<Rightarrow> e = unknown_key k) \<and>
    (case index_ref d k of Inr (u, d') \<Rightarrow> kvd_wf d' | Inl e \<Rightarrow> e = unknown_key k) \<and>
    (case get_value d k of Some u \<Rightarrow> has_key d k \<and> index_const d k = Inr u | None \<Rightarrow> True)"
proof -
  have message: "case set_message d' s of Inr d'' \<Rightarrow> kvd_wf d'' | Inl e \<Rightarrow> e = AssertFailure \<or> e = ViewPastEnd"
    for d' :: "'b kvd_scheme"
    using assms(2)
    by (cases "s = []")
       (simp_all add: set_message_def [of _ "[]"] set_message_eq kvd_wf_dict_of split: option.split)
  have assigned: "case set_value d k v of Inr d' \<Rightarrow> kvd_wf d' | Inl e \<Rightarrow> e = unknown_key k"
    using kvd_wf_set_value [OF assms(1), of k v] by (cases "has_key d k") (simp_all add: set_value_def)
  have ref: "case index_ref d k of Inr (u, d') \<Rightarrow> kvd_wf d' | Inl e \<Rightarrow> e = unknown_key k"
    using kvd_wf_index_ref [OF assms(1), of k] by (cases "has_key d k") (simp_all add: index_ref_def Let_def)
  have get: "case get_value d k of Some u \<Rightarrow> has_key d k \<and> index_const d k = Inr u | None \<Rightarrow> True"
    using kvd_wf_get [OF assms(1)] by (auto simp: index_const_def get_value_def split: option.split)
  have "kvd_wf (kvd_of_keys ks)" by (simp add: kvd_wf_def kvd_of_keys_def)
  with message [of "kvd_of_keys []"] message [of d] assigned ref get show ?thesis
    unfolding kvd_of_string_def index_assign_eq by (intro conjI)
qed

theorem dictionary_wf_witness:
  "kvd_wf (kvd_of_keys [''Exten'']) \<and>
   (case set_value (kvd_of_keys [''Exten'']) ''Exten'' ''701'' of Inr d' \<Rightarrow> kvd_wf d' | Inl _ \<Rightarrow> False)"
proof -
  have "kvd_wf (kvd_of_keys [''Exten''])" by (simp add: kvd_wf_def kvd_of_keys_def)
  moreover have "fits ''x''" by (simp add: fits_def max_size_def)
  ultimately show ?thesis
    using dictionary_wf [of "kvd_of_keys [''Exten'']" "''x''" _ "''Exten''" "''701''"]
    by (auto simp: set_value_def has_key_def kvd_of_keys_def split: sum.splits if_splits)
qed

end
