(* ===== verification/Actions.thy ===== *)
theory Actions
  imports KeyValDict
begin

text \<open>
  \<open>action::Action\<close> and its fifteen subclasses (\<open>src/action/*.cpp\<close>). An action is a dictionary with
  a name and an action ID, so the record extends the dictionary's as the class does. The UUID that
  \<open>libuuid\<close> writes is a parameter: \<open>uuid\<close> is the text of \<open>uuid_unparse_lower\<close>.
\<close>

section \<open>The base class\<close>

record action = kvd +
  action_name :: string
  action_id :: string

text \<open>
  The buffer has 37 characters for the 36 of the text and the terminating zero, which the
  \<open>resize\<close> cuts off. \<open>write_c_string\<close> is what \<open>uuid_unparse_lower\<close> does to the buffer.
\<close>

definition write_c_string :: "string \<Rightarrow> string \<Rightarrow> string" where
  "write_c_string buf t = t @ [CHR 0x00] @ drop (length t + 1) buf"

definition create_uuid :: "string \<Rightarrow> string" where
  "create_uuid uuid =
     (let uuid_buf = write_c_string (replicate 37 (CHR 0x00)) uuid
      in take (length uuid_buf - 1) uuid_buf)"

definition new_action :: "string \<Rightarrow> string list \<Rightarrow> string \<Rightarrow> action result" where
  "new_action name ks uuid =
     (if name = [] then Inl AssertFailure
      else Inr \<lparr>ordered_keys = ks, key_values = Map.empty,
                action_name = name, action_id = create_uuid uuid\<rparr>)"

definition get_action :: "action \<Rightarrow> string" where
  "get_action a = action_name a"

definition get_action_id :: "action \<Rightarrow> string" where
  "get_action_id a = action_id a"

definition action_to_string :: "action \<Rightarrow> string" where
  "action_to_string a =
     ''Action'' @ SEP @ action_name a @ EOR @ ''ActionID'' @ SEP @ action_id a @ EOR @ to_string a"

section \<open>The subclasses\<close>

definition Challenge :: "string \<Rightarrow> action result" where
  "Challenge uuid =
     rbind (new_action ''Challenge'' [''AuthType''] uuid) (\<lambda>a. set_value a ''AuthType'' ''MD5'')"

definition DeviceStateList :: "string \<Rightarrow> action result" where
  "DeviceStateList uuid = new_action ''DeviceStateList'' [] uuid"

definition Events :: "string \<Rightarrow> action result" where
  "Events uuid =
     rbind (new_action ''Events'' [''EventMask''] uuid) (\<lambda>a. set_value a ''EventMask'' ''on'')"

definition ExtensionState :: "string \<Rightarrow> action result" where
  "ExtensionState uuid = new_action ''ExtensionState'' [''Exten'', ''Context''] uuid"

definition Getvar :: "string \<Rightarrow> action result" where
  "Getvar uuid = new_action ''Getvar'' [''Channel'', ''Variable''] uuid"

definition ListCommands :: "string \<Rightarrow> action result" where
  "ListCommands uuid = new_action ''ListCommands'' [] uuid"

definition Login0 :: "string \<Rightarrow> action result" where
  "Login0 uuid =
     new_action ''Login'' [''Username'', ''AuthType'', ''Secret'', ''Key'', ''Events''] uuid"

definition Login :: "string \<Rightarrow> string \<Rightarrow> string \<Rightarrow> action result" where
  "Login username secret uuid =
     rbind (Login0 uuid) (\<lambda>a.
     rbind (set_value a ''Username'' username) (\<lambda>a.
     set_value a ''Secret'' secret))"

definition Logoff :: "string \<Rightarrow> action result" where
  "Logoff uuid = new_action ''Logoff'' [] uuid"

definition MailboxCount :: "string \<Rightarrow> string \<Rightarrow> action result" where
  "MailboxCount mailbox uuid =
     rbind (new_action ''MailboxCount'' [''Mailbox''] uuid) (\<lambda>a. set_value a ''Mailbox'' mailbox)"

definition MailboxStatus :: "string \<Rightarrow> string \<Rightarrow> action result" where
  "MailboxStatus mailbox uuid =
     rbind (new_action ''MailboxStatus'' [''Mailbox''] uuid) (\<lambda>a. set_value a ''Mailbox'' mailbox)"

definition ParkedCalls :: "string \<Rightarrow> action result" where
  "ParkedCalls uuid = new_action ''ParkedCalls'' [''ParkingLot''] uuid"

definition Parkinglots :: "string \<Rightarrow> action result" where
  "Parkinglots uuid = new_action ''Parkinglots'' [] uuid"

definition Ping :: "string \<Rightarrow> action result" where
  "Ping uuid = new_action ''Ping'' [] uuid"

definition VoicemailBoxSummary :: "string \<Rightarrow> string \<Rightarrow> string \<Rightarrow> action result" where
  "VoicemailBoxSummary ctxt mailbox uuid =
     rbind (new_action ''VoicemailBoxSummary'' [''Context'', ''Mailbox''] uuid) (\<lambda>a.
     rbind (set_value a ''Context'' ctxt) (\<lambda>a.
     set_value a ''Mailbox'' mailbox))"

definition VoicemailRefresh :: "string \<Rightarrow> action result" where
  "VoicemailRefresh uuid = new_action ''VoicemailRefresh'' [''Context'', ''Mailbox''] uuid"

text \<open>The constructor calls a client can make, to speak of all of them at once.\<close>

datatype action_call =
    CChallenge | CDeviceStateList | CEvents | CExtensionState | CGetvar | CListCommands
  | CLogin0 | CLogin string string | CLogoff | CMailboxCount string | CMailboxStatus string
  | CParkedCalls | CParkinglots | CPing | CVoicemailBoxSummary string string | CVoicemailRefresh

fun construct :: "action_call \<Rightarrow> string \<Rightarrow> action result" where
  "construct CChallenge = Challenge"
| "construct CDeviceStateList = DeviceStateList"
| "construct CEvents = Events"
| "construct CExtensionState = ExtensionState"
| "construct CGetvar = Getvar"
| "construct CListCommands = ListCommands"
| "construct CLogin0 = Login0"
| "construct (CLogin u s) = Login u s"
| "construct CLogoff = Logoff"
| "construct (CMailboxCount m) = MailboxCount m"
| "construct (CMailboxStatus m) = MailboxStatus m"
| "construct CParkedCalls = ParkedCalls"
| "construct CParkinglots = Parkinglots"
| "construct CPing = Ping"
| "construct (CVoicemailBoxSummary c m) = VoicemailBoxSummary c m"
| "construct CVoicemailRefresh = VoicemailRefresh"

fun call_args :: "action_call \<Rightarrow> string list" where
  "call_args (CLogin u s) = [u, s]"
| "call_args (CMailboxCount m) = [m]"
| "call_args (CMailboxStatus m) = [m]"
| "call_args (CVoicemailBoxSummary c m) = [c, m]"
| "call_args _ = []"

lemmas action_defs = Challenge_def DeviceStateList_def Events_def ExtensionState_def Getvar_def
  ListCommands_def Login0_def Login_def Logoff_def MailboxCount_def MailboxStatus_def
  ParkedCalls_def Parkinglots_def Ping_def VoicemailBoxSummary_def VoicemailRefresh_def

section \<open>Lemmas\<close>

lemma create_uuid_text: "length uuid = 36 \<Longrightarrow> create_uuid uuid = uuid"
  by (simp add: create_uuid_def write_c_string_def)

definition request_records :: "action \<Rightarrow> (string \<times> string) list" where
  "request_records a = (''Action'', action_name a) # (''ActionID'', action_id a) # rendered a"

lemma action_to_string_records: "action_to_string a = print_records (request_records a)"
  by (simp add: action_to_string_def request_records_def to_string_rendered print_records_def)

text \<open>What every constructor call makes: a name and keys of its own, clean of separators.\<close>

definition standard_keys :: "string list" where
  "standard_keys = [''AuthType'', ''EventMask'', ''Exten'', ''Context'', ''Channel'', ''Variable'',
     ''Username'', ''Secret'', ''Key'', ''Events'', ''Mailbox'', ''ParkingLot'']"

lemma standard_keys_clean:
  "k \<in> set standard_keys \<Longrightarrow>
   \<not> sublist SEP k \<and> \<not> sublist EOR k \<and> k \<noteq> ''Action'' \<and> k \<noteq> ''ActionID''"
  by (auto simp: standard_keys_def SEP_def EOR_def sublist_Cons_right)

lemma construct_shape:
  "\<exists>a. construct c uuid = Inr a \<and> action_id a = create_uuid uuid \<and>
    action_name a \<noteq> [] \<and> \<not> sublist EOR (action_name a) \<and>
    distinct (ordered_keys a) \<and> set (ordered_keys a) \<subseteq> set standard_keys \<and>
    dom (key_values a) \<subseteq> set (ordered_keys a) \<and>
    ran (key_values a) \<subseteq> set (call_args c) \<union> {''MD5'', ''on''}"
  by (cases c) (auto simp: action_defs new_action_def set_value_def has_key_def standard_keys_def
      EOR_def sublist_Cons_right)


lemma rendered_one_line:
  "\<forall>k \<in> set (ordered_keys d). \<not> sublist EOR k \<Longrightarrow> \<forall>v \<in> ran (key_values d). \<not> sublist EOR v \<Longrightarrow>
   \<forall>r \<in> set (rendered d). one_line r"
  by (auto simp: rendered_def one_line_def ranI split: option.split)

lemma request_one_line:
  assumes "\<not> sublist EOR (action_name a)" and "\<not> sublist EOR (action_id a)"
    and "\<forall>r \<in> set (rendered a). one_line r"
  shows "\<forall>r \<in> set (request_records a). one_line r"
  using assms by (simp add: request_records_def one_line_def EOR_def sublist_Cons_right)

text \<open>The constructor calls whose arguments are single lines make one-line records.\<close>

lemma construct_one_line:
  assumes "construct c uuid = Inr a" and "\<forall>v \<in> set (call_args c). \<not> sublist EOR v"
    and "\<not> sublist EOR (create_uuid uuid)"
  shows "\<forall>r \<in> set (request_records a). one_line r"
proof (rule request_one_line)
  from construct_shape [of c uuid] assms(1) have
    shape: "action_id a = create_uuid uuid" "\<not> sublist EOR (action_name a)"
      "set (ordered_keys a) \<subseteq> set standard_keys"
      "ran (key_values a) \<subseteq> set (call_args c) \<union> {''MD5'', ''on''}" by auto
  from shape(2) show "\<not> sublist EOR (action_name a)" .
  from shape(1) assms(3) show "\<not> sublist EOR (action_id a)" by simp
  have "\<not> sublist EOR ''MD5''" "\<not> sublist EOR ''on''" by (simp_all add: EOR_def sublist_Cons_right)
  with shape(3,4) assms(2) show "\<forall>r \<in> set (rendered a). one_line r"
    by (intro rendered_one_line) (auto dest: standard_keys_clean)
qed


section \<open>A concrete request\<close>

definition sample_uuid :: string where
  "sample_uuid = ''6ba7b810-9dad-11d1-80b4-00c04fd430c8''"

definition sample_action :: action where
  "sample_action = \<lparr>ordered_keys = [''Mailbox''], key_values = [''Mailbox'' \<mapsto> ''5558675309''],
     action_name = ''MailboxCount'', action_id = sample_uuid\<rparr>"

lemma sample_uuid_ok: "length sample_uuid = 36" "\<not> sublist EOR sample_uuid"
  by (simp_all add: sample_uuid_def EOR_def sublist_Cons_right)

lemma sample_constructed: "construct (CMailboxCount ''5558675309'') sample_uuid = Inr sample_action"
  by (simp add: MailboxCount_def new_action_def create_uuid_text sample_uuid_ok set_value_def
      has_key_def sample_action_def)

lemma sample_arg_ok: "\<forall>v \<in> set (call_args (CMailboxCount ''5558675309'')). \<not> sublist EOR v"
  by (simp add: EOR_def sublist_Cons_right)


section \<open>Properties of the actions\<close>

text \<open>No constructor of an action throws or fails an assertion: each makes an action with a
  non-empty name, the generated ID, keys that are pairwise different, and values for those keys
  only.\<close>

theorem constructors_total:
  assumes "length uuid = 36"
  shows "\<exists>a. construct c uuid = Inr a \<and> get_action_id a = uuid \<and> get_action a \<noteq> [] \<and>
    distinct (ordered_keys a) \<and> dom (get_value a) \<subseteq> set (ordered_keys a)"
  using construct_shape [of c uuid] create_uuid_text [OF assms]
  by (auto simp: get_action_id_def get_action_def get_value_def [abs_def])

theorem constructors_total_witness:
  "\<exists>a. construct (CLogin ''admin'' ''test'') ''6ba7b810-9dad-11d1-80b4-00c04fd430c8'' = Inr a \<and>
    get_action_id a = ''6ba7b810-9dad-11d1-80b4-00c04fd430c8''"
  using constructors_total [of "''6ba7b810-9dad-11d1-80b4-00c04fd430c8''" "CLogin ''admin'' ''test''"]
  by auto



text \<open>C24. The text of a request with single-line arguments is one message: it holds the end of
  message at its end and nowhere before.\<close>

theorem request_is_one_message:
  assumes "construct c uuid = Inr a" and "length uuid = 36" and "\<not> sublist EOR uuid"
    and "\<forall>v \<in> set (call_args c). \<not> sublist EOR v"
  shows "find_sub EOM (action_to_string a) = Some (length (action_to_string a) - 4)"
proof -
  have "\<forall>r \<in> set (request_records a). one_line r"
    using construct_one_line [OF assms(1,4)] assms(3) create_uuid_text [OF assms(2)] by simp
  then show ?thesis
    by (simp add: action_to_string_records find_EOM_print request_records_def)
qed

theorem request_is_one_message_witness:
  "construct (CMailboxCount ''5558675309'') sample_uuid = Inr sample_action \<and>
   find_sub EOM (action_to_string sample_action) = Some (length (action_to_string sample_action) - 4)"
  using request_is_one_message [OF sample_constructed sample_uuid_ok sample_arg_ok]
    sample_constructed by blast

text \<open>C36. Values are written as they are: a value that holds an end of message ends the request
  early, and what follows it is read by the server as the start of another request.\<close>

theorem value_ends_request_early:
  assumes "k \<in> set (ordered_keys a)" and "key_values a k = Some v" and "sublist EOM v"
  shows "\<exists>i. find_sub EOM (action_to_string a) = Some i \<and> i + 4 < length (action_to_string a)"
proof -
  from assms(1) obtain ks1 ks2 where ks: "ordered_keys a = ks1 @ k # ks2" by (meson split_list)
  from assms(3) obtain v1 v2 where v: "v = v1 @ EOM @ v2" by (auto simp: sublist_def)
  obtain s1 where s: "action_to_string a = s1 @ EOM @ v2 @ EOR @ concat (map (record_string a) ks2) @ EOR"
    using assms(2) ks v by (simp add: action_to_string_def to_string_def record_string_def)
  with find_sub_le [of EOM "length s1" "action_to_string a"] show ?thesis by auto
qed

theorem value_ends_request_early_witness:
  "\<exists>a i. MailboxCount (''1'' @ EOM @ ''Action: Logoff'') sample_uuid = Inr a \<and>
    find_sub EOM (action_to_string a) = Some i \<and> i + 4 < length (action_to_string a)"
proof -
  let ?v = "''1'' @ EOM @ ''Action: Logoff''"
  let ?a = "sample_action\<lparr>key_values := [''Mailbox'' \<mapsto> ?v]\<rparr>"
  have "MailboxCount ?v sample_uuid = Inr ?a"
    by (simp add: MailboxCount_def new_action_def create_uuid_text sample_uuid_ok set_value_def
        has_key_def sample_action_def)
  moreover have "''Mailbox'' \<in> set (ordered_keys ?a)" by (simp add: sample_action_def)
  moreover have "key_values ?a ''Mailbox'' = Some ?v" by simp
  moreover have "sublist EOM ?v" by (metis sublist_appendI)
  ultimately show ?thesis using value_ends_request_early [of "''Mailbox''" ?a ?v] by blast
qed

end
