(* ===== verification/Reactions.thy ===== *)
theory Reactions
  imports KeyValDict
begin

text \<open>
  \<open>event::Event\<close>, \<open>reaction::Reaction\<close>, \<open>reaction::Event\<close> and \<open>reaction::EventList\<close>
  (\<open>src/event/Event.cpp\<close>, \<open>src/reaction/*.cpp\<close>): what the dispatcher delivers. An
  \<open>event::Event\<close> adds nothing to the dictionary it is made from; a reaction is a single event or a
  list of events with a first and a last one.
\<close>

type_synonym ami_event = kvd

definition event_of :: "kvd \<Rightarrow> ami_event" where
  "event_of dict = dict"

section \<open>Single events\<close>

definition success_status :: "string \<Rightarrow> bool" where
  "success_status status \<longleftrightarrow> status = ''Success'' \<or> status = ''Goodbye''"

definition reaction_event_of :: "kvd \<Rightarrow> ami_event" where
  "reaction_event_of dict = dict"

definition event_is_success :: "ami_event \<Rightarrow> bool" where
  "event_is_success e =
     (case get_value e ''Response'' of Some response \<Rightarrow> success_status response | None \<Rightarrow> True)"

definition event_to_string :: "ami_event \<Rightarrow> string" where
  "event_to_string e = to_string e"

section \<open>Event lists\<close>

record event_list =
  head_event :: ami_event
  tail_event :: "ami_event option"
  body_events :: "ami_event list"

definition event_list_of :: "kvd \<Rightarrow> event_list" where
  "event_list_of dict = \<lparr>head_event = event_of dict, tail_event = None, body_events = []\<rparr>"

text \<open>
  The copy constructor and the copy assignment dereference the right-hand side's tail, which is
  the null pointer as long as the list is not complete.
\<close>

definition event_list_copy :: "event_list \<Rightarrow> event_list result" where
  "event_list_copy right =
     (case tail_event right of
        None \<Rightarrow> Inl NullDereference
      | Some t \<Rightarrow> Inr \<lparr>head_event = head_event right, tail_event = Some t,
                       body_events = body_events right\<rparr>)"

definition event_list_assign :: "event_list \<Rightarrow> event_list \<Rightarrow> event_list result" where
  "event_list_assign this right =
     (let this1 = this\<lparr>head_event := head_event right\<rparr> in
      case tail_event right of
        None \<Rightarrow> Inl NullDereference
      | Some t \<Rightarrow> Inr (this1\<lparr>tail_event := Some t, body_events := body_events right\<rparr>))"

definition list_is_success :: "event_list \<Rightarrow> bool" where
  "list_is_success l =
     (case get_value (head_event l) ''Response'' of
        Some response \<Rightarrow> success_status response
      | None \<Rightarrow> False)"

definition is_list_complete :: "string \<Rightarrow> bool" where
  "is_list_complete event_list_val \<longleftrightarrow>
     event_list_val = ''Complete'' \<or> event_list_val = ''cancelled''"

definition completes :: "ami_event \<Rightarrow> bool" where
  "completes e = (case get_value e ''EventList'' of Some val \<Rightarrow> is_list_complete val | None \<Rightarrow> False)"

definition add_event :: "event_list \<Rightarrow> ami_event \<Rightarrow> bool \<times> event_list" where
  "add_event l e =
     (if completes e then (True, l\<lparr>tail_event := Some e\<rparr>)
      else (False, l\<lparr>body_events := body_events l @ [e]\<rparr>))"

definition add_dict :: "event_list \<Rightarrow> kvd \<Rightarrow> bool \<times> event_list" where
  "add_dict l dict = add_event l (event_of dict)"

definition list_to_string :: "event_list \<Rightarrow> string" where
  "list_to_string l =
     to_string (head_event l) @ concat (map to_string (body_events l)) @
     (case tail_event l of Some t \<Rightarrow> to_string t | None \<Rightarrow> [])"

definition event_count :: "event_list \<Rightarrow> nat" where
  "event_count l = length (body_events l)"

definition get_event :: "event_list \<Rightarrow> nat \<Rightarrow> ami_event result" where
  "get_event l event_idx =
     (if event_idx < length (body_events l) then Inr (body_events l ! event_idx)
      else Inl AssertFailure)"

section \<open>Reactions\<close>

text \<open>The two implementations of the \<open>Reaction\<close> interface and its virtual methods.\<close>

datatype reaction = EventReaction ami_event | ListReaction event_list

fun reaction_is_success :: "reaction \<Rightarrow> bool" where
  "reaction_is_success (EventReaction e) = event_is_success e"
| "reaction_is_success (ListReaction l) = list_is_success l"

fun reaction_to_string :: "reaction \<Rightarrow> string" where
  "reaction_to_string (EventReaction e) = event_to_string e"
| "reaction_to_string (ListReaction l) = list_to_string l"

section \<open>Lemmas\<close>

text \<open>Everything a list holds, in the order it came.\<close>

definition all_events :: "event_list \<Rightarrow> ami_event list" where
  "all_events l = head_event l # body_events l @ (case tail_event l of Some t \<Rightarrow> [t] | None \<Rightarrow> [])"

definition collect :: "event_list \<Rightarrow> ami_event list \<Rightarrow> event_list" where
  "collect l es = fold (\<lambda>e l. snd (add_event l e)) es l"

lemma collect_body:
  "\<forall>e \<in> set es. \<not> completes e \<Longrightarrow> collect l es = l\<lparr>body_events := body_events l @ es\<rparr>"
  unfolding collect_def by (induction es arbitrary: l) (simp_all add: add_event_def)

lemma collect_append: "collect l (es @ fs) = collect (collect l es) fs"
  by (simp add: collect_def)

lemma list_to_string_all: "list_to_string l = concat (map to_string (all_events l))"
  by (simp add: list_to_string_def all_events_def split: option.split)

section \<open>Properties of the reactions\<close>

text \<open>A list collects a response: fed the events that follow its head, it reports completion on
  the first one whose \<open>EventList\<close> says complete or cancelled and on no other, holds the events
  between in their order, and its text is the texts of all events in the order they came.\<close>

theorem list_collects_response:
  assumes "\<forall>e \<in> set es. \<not> completes e" and "completes t"
  shows "\<exists>l. add_event (collect (event_list_of h) es) t = (True, l) \<and>
    all_events l = h # es @ [t] \<and> event_count l = length es \<and>
    (\<forall>i < length es. get_event l i = Inr (es ! i)) \<and>
    list_to_string l = concat (map to_string (h # es @ [t])) \<and>
    (\<forall>i < length es. fst (add_event (collect (event_list_of h) (take i es)) (es ! i)) = False)"
proof -
  let ?l = "\<lparr>head_event = h, tail_event = Some t, body_events = es\<rparr>"
  have "collect (event_list_of h) es = \<lparr>head_event = h, tail_event = None, body_events = es\<rparr>"
    using assms(1) by (simp add: collect_body event_list_of_def event_of_def)
  then have "add_event (collect (event_list_of h) es) t = (True, ?l)"
    using assms(2) by (simp add: add_event_def)
  moreover have "all_events ?l = h # es @ [t]" by (simp add: all_events_def)
  ultimately show ?thesis
    using assms(1) by (auto simp: list_to_string_all event_count_def get_event_def add_event_def)
qed

definition sample_event :: "(string \<times> string) list \<Rightarrow> ami_event" where
  "sample_event rs = \<lparr>ordered_keys = map fst rs, key_values = map_of rs\<rparr>"

theorem list_collects_response_witness:
  "completes (sample_event [(''EventList'', ''Complete'')]) \<and>
   (\<exists>l. add_event (collect (event_list_of (sample_event [(''EventList'', ''start'')]))
            [sample_event [(''Event'', ''Parkinglot'')]])
          (sample_event [(''EventList'', ''Complete'')]) = (True, l) \<and> event_count l = 1)"
proof -
  let ?h = "sample_event [(''EventList'', ''start'')]"
  let ?es = "[sample_event [(''Event'', ''Parkinglot'')]]"
  let ?t = "sample_event [(''EventList'', ''Complete'')]"
  have "\<forall>e \<in> set ?es. \<not> completes e" "completes ?t"
    by (simp_all add: completes_def sample_event_def get_value_def is_list_complete_def)
  with list_collects_response [of ?es ?t ?h] show ?thesis by auto
qed

text \<open>Copying an event list, by construction or by assignment, gives an equal list when the list
  is complete and dereferences a null pointer when it is not.\<close>

lemma list_copy_needs_tail:
  "(tail_event l \<noteq> None \<longrightarrow> event_list_copy l = Inr l \<and> event_list_assign this l = Inr l) \<and>
   (tail_event l = None \<longrightarrow>
      event_list_copy l = Inl NullDereference \<and> event_list_assign this l = Inl NullDereference)"
  by (cases "tail_event l") (simp_all add: event_list_copy_def event_list_assign_def Let_def)

text \<open>The two kinds of reaction agree on success wherever the first event has a \<open>Response\<close>; where
  it has none, the single event counts as a success and the list does not.\<close>

lemma success_of_reactions:
  "(reaction_is_success (EventReaction e) \<longleftrightarrow>
      get_value e ''Response'' = None \<or> reaction_is_success (ListReaction (event_list_of e))) \<and>
   reaction_is_success (ListReaction (collect (event_list_of e) es)) =
     reaction_is_success (ListReaction (event_list_of e))"
proof -
  have "head_event (collect l es) = head_event l" for l
    unfolding collect_def by (induction es arbitrary: l) (simp_all add: add_event_def)
  then show ?thesis
    by (simp add: event_is_success_def list_is_success_def event_list_of_def event_of_def
        split: option.split)
qed

end
