(* ===== verification/Worker.thy ===== *)
theory Worker
  imports Prelude
begin

text \<open>
  The worker thread that \<open>StreamParser\<close> and \<open>EventDispatcher\<close> both have, written the same way in
  both files: a queue under a mutex, a condition variable, an atomic run flag, a loop that swaps
  the queue with a local vector and processes it outside the lock, and a final pass under the lock
  after the flag is cleared. The object the thread works on is the type \<open>'s\<close>, the queued items are
  \<open>'i\<close>, and \<open>f\<close> processes one item. Each step below is one that another thread can observe
  between; the producer's \<open>add_buf\<close> / \<open>add_event\<close> holds the mutex from its first to its last
  statement and is a single step.
\<close>

section \<open>State\<close>

text \<open>
  \<open>AtLoop\<close>: before the test of the \<open>while\<close>; \<open>WantLock\<close>: about to lock (also after a wake-up);
  \<open>TestPred\<close>: in \<open>wait\<close>, lock held, before the predicate is evaluated; \<open>GoingToSleep\<close>: the
  predicate was false, lock still held, not yet registered as waiting; \<open>Sleeping\<close>: waiting, lock
  released; \<open>Swapping\<close>: \<open>wait\<close> has returned; \<open>Processing\<close>: in the \<open>for\<close> loop, lock released;
  \<open>WantFinal\<close>, \<open>FinalDrain\<close>: the pass after the loop; \<open>Done\<close>: the thread function returned.
\<close>

datatype worker_pc =
  AtLoop | WantLock | TestPred | GoingToSleep | Sleeping | Swapping | Processing
  | WantFinal | FinalDrain | Done

text \<open>The destructor's thread, in \<open>stop_work_thread\<close>: flag, notification, \<open>join\<close>.\<close>

datatype stop_phase = Running | FlagCleared | Notified | Joined

fun phase_rank :: "stop_phase \<Rightarrow> nat" where
  "phase_rank Running = 0"
| "phase_rank FlagCleared = 1"
| "phase_rank Notified = 2"
| "phase_rank Joined = 3"

instantiation stop_phase :: linorder
begin

definition less_eq_stop_phase :: "stop_phase \<Rightarrow> stop_phase \<Rightarrow> bool" where
  "less_eq_stop_phase p q \<longleftrightarrow> phase_rank p \<le> phase_rank q"

definition less_stop_phase :: "stop_phase \<Rightarrow> stop_phase \<Rightarrow> bool" where
  "less_stop_phase p q \<longleftrightarrow> phase_rank p < phase_rank q"

instance
proof
  fix p q :: stop_phase
  show "p \<le> q \<Longrightarrow> q \<le> p \<Longrightarrow> p = q"
    by (cases p; cases q) (simp_all add: less_eq_stop_phase_def)
qed (auto simp: less_eq_stop_phase_def less_stop_phase_def)

end

record ('s, 'i) worker =
  run_flag :: bool
  queue :: "'i list"
  lock_held :: bool
  wpc :: worker_pc
  batch :: "'i list"
  stopper :: stop_phase
  obj :: 's

section \<open>Steps\<close>

text \<open>\<open>start_work_thread\<close>, at the end of the constructor: the queue is empty.\<close>

definition start_worker :: "'s \<Rightarrow> ('s, 'i) worker" where
  "start_worker s =
     \<lparr>run_flag = True, queue = [], lock_held = False, wpc = AtLoop, batch = [],
      stopper = Running, obj = s\<rparr>"

text \<open>\<open>notify_one\<close> wakes the worker if it is registered as waiting, and is lost otherwise.\<close>

definition notify_one :: "('s, 'i) worker \<Rightarrow> ('s, 'i) worker" where
  "notify_one w = (if wpc w = Sleeping then w\<lparr>wpc := WantLock\<rparr> else w)"

text \<open>\<open>add_buf\<close>, \<open>add_event\<close>: blocked while the worker holds the mutex.\<close>

definition add_item :: "('s, 'i) worker \<Rightarrow> 'i \<Rightarrow> ('s, 'i) worker option" where
  "add_item w x =
     (if lock_held w then None else Some (notify_one (w\<lparr>queue := queue w @ [x]\<rparr>)))"

text \<open>\<open>stop_work_thread\<close>: neither the flag nor the notification takes the mutex.\<close>

definition stop_act :: "('s, 'i) worker \<Rightarrow> ('s, 'i) worker option" where
  "stop_act w =
     (case stopper w of
        Running \<Rightarrow> Some (w\<lparr>run_flag := False, stopper := FlagCleared\<rparr>)
      | FlagCleared \<Rightarrow> Some (notify_one (w\<lparr>stopper := Notified\<rparr>))
      | Notified \<Rightarrow> if wpc w = Done then Some (w\<lparr>stopper := Joined\<rparr>) else None
      | Joined \<Rightarrow> None)"

text \<open>\<open>work_thread\<close>; \<open>None\<close> where the thread is blocked or has ended.\<close>

definition work_act :: "('s \<Rightarrow> 'i \<Rightarrow> 's) \<Rightarrow> ('s, 'i) worker \<Rightarrow> ('s, 'i) worker option" where
  "work_act f w =
     (case wpc w of
        AtLoop \<Rightarrow> Some (w\<lparr>wpc := if run_flag w then WantLock else WantFinal\<rparr>)
      | WantLock \<Rightarrow> if lock_held w then None else Some (w\<lparr>lock_held := True, wpc := TestPred\<rparr>)
      | TestPred \<Rightarrow>
          Some (w\<lparr>wpc := if \<not> run_flag w \<or> queue w \<noteq> [] then Swapping else GoingToSleep\<rparr>)
      | GoingToSleep \<Rightarrow> Some (w\<lparr>lock_held := False, wpc := Sleeping\<rparr>)
      | Sleeping \<Rightarrow> None
      | Swapping \<Rightarrow>
          Some (w\<lparr>queue := batch w, batch := queue w, lock_held := False, wpc := Processing\<rparr>)
      | Processing \<Rightarrow>
          (case batch w of
             [] \<Rightarrow> Some (w\<lparr>wpc := AtLoop\<rparr>)
           | x # xs \<Rightarrow> Some (w\<lparr>obj := f (obj w) x, batch := xs\<rparr>))
      | WantFinal \<Rightarrow>
          if lock_held w then None
          else Some (w\<lparr>lock_held := True, wpc := FinalDrain, batch := queue w\<rparr>)
      | FinalDrain \<Rightarrow>
          (case batch w of
             [] \<Rightarrow> Some (w\<lparr>queue := [], lock_held := False, wpc := Done\<rparr>)
           | x # xs \<Rightarrow> Some (w\<lparr>obj := f (obj w) x, batch := xs\<rparr>))
      | Done \<Rightarrow> None)"

datatype ('i, 'e) wlabel = Add 'i | Work | Stop | Spurious | Ext 'e

text \<open>
  Any interleaving of the threads. A condition variable may also wake its waiter without a
  notification. \<open>Ext\<close> is an operation of another thread on the object itself, under mutexes of its
  own: \<open>g\<close> is what it does.
\<close>

inductive wstep ::
    "('s \<Rightarrow> 'i \<Rightarrow> 's) \<Rightarrow> ('s \<Rightarrow> 'e \<Rightarrow> 's) \<Rightarrow> ('s, 'i) worker \<Rightarrow> ('i, 'e) wlabel \<Rightarrow> ('s, 'i) worker \<Rightarrow> bool"
  for f :: "'s \<Rightarrow> 'i \<Rightarrow> 's" and g :: "'s \<Rightarrow> 'e \<Rightarrow> 's" where
  add: "add_item w x = Some w' \<Longrightarrow> wstep f g w (Add x) w'"
| work: "work_act f w = Some w' \<Longrightarrow> wstep f g w Work w'"
| stop: "stop_act w = Some w' \<Longrightarrow> wstep f g w Stop w'"
| spurious: "wpc w = Sleeping \<Longrightarrow> wstep f g w Spurious (w\<lparr>wpc := WantLock\<rparr>)"
| operation: "wstep f g w (Ext e) (w\<lparr>obj := g (obj w) e\<rparr>)"

inductive wreach ::
    "('s \<Rightarrow> 'i \<Rightarrow> 's) \<Rightarrow> ('s \<Rightarrow> 'e \<Rightarrow> 's) \<Rightarrow> 's \<Rightarrow> ('i, 'e) wlabel list \<Rightarrow> ('s, 'i) worker \<Rightarrow> bool"
  for f :: "'s \<Rightarrow> 'i \<Rightarrow> 's" and g :: "'s \<Rightarrow> 'e \<Rightarrow> 's" and s0 :: 's where
  start: "wreach f g s0 [] (start_worker s0)"
| step: "wreach f g s0 tr w \<Longrightarrow> wstep f g w l w' \<Longrightarrow> wreach f g s0 (tr @ [l]) w'"

inductive_simps wstep_Add [simp]: "wstep f g w (Add x) w'"
inductive_simps wstep_Work [simp]: "wstep f g w Work w'"
inductive_simps wstep_Stop [simp]: "wstep f g w Stop w'"
inductive_simps wstep_Spurious [simp]: "wstep f g w Spurious w'"
inductive_simps wstep_Ext [simp]: "wstep f g w (Ext e) w'"

fun added :: "('i, 'e) wlabel list \<Rightarrow> 'i list" where
  "added [] = []"
| "added (Add x # tr) = x # added tr"
| "added (_ # tr) = added tr"

lemma added_append [simp]: "added (tr @ tr') = added tr @ added tr'"
  by (induction tr rule: added.induct) simp_all

fun external :: "('i, 'e) wlabel list \<Rightarrow> 'e list" where
  "external [] = []"
| "external (Ext e # tr) = e # external tr"
| "external (_ # tr) = external tr"

lemma external_append [simp]: "external (tr @ tr') = external tr @ external tr'"
  by (induction tr rule: external.induct) simp_all

text \<open>
  A serial history: items processed (\<open>Inl\<close>) and external operations (\<open>Inr\<close>), one after the other.
\<close>

definition serial :: "('s \<Rightarrow> 'i \<Rightarrow> 's) \<Rightarrow> ('s \<Rightarrow> 'e \<Rightarrow> 's) \<Rightarrow> 's \<Rightarrow> ('i + 'e) list \<Rightarrow> 's" where
  "serial f g = foldl (\<lambda>s h. case h of Inl x \<Rightarrow> f s x | Inr e \<Rightarrow> g s e)"

lemma serial_simps [simp]:
  "serial f g s [] = s"
  "serial f g s (hs @ [Inl x]) = f (serial f g s hs) x"
  "serial f g s (hs @ [Inr e]) = g (serial f g s hs) e"
  by (simp_all add: serial_def)

fun items :: "('i + 'e) list \<Rightarrow> 'i list" where
  "items [] = []"
| "items (Inl x # hs) = x # items hs"
| "items (Inr e # hs) = items hs"

fun operations :: "('i + 'e) list \<Rightarrow> 'e list" where
  "operations [] = []"
| "operations (Inl x # hs) = operations hs"
| "operations (Inr e # hs) = e # operations hs"

lemma items_append [simp]: "items (hs @ hs') = items hs @ items hs'"
  by (induction hs rule: items.induct) simp_all

lemma operations_append [simp]: "operations (hs @ hs') = operations hs @ operations hs'"
  by (induction hs rule: operations.induct) simp_all

section \<open>Invariant\<close>

definition worker_inv :: "('s, 'i) worker \<Rightarrow> bool" where
  "worker_inv w \<longleftrightarrow>
     (lock_held w \<longleftrightarrow> wpc w \<in> {TestPred, GoingToSleep, Swapping, FinalDrain}) \<and>
     (wpc w \<notin> {Processing, FinalDrain} \<longrightarrow> batch w = []) \<and>
     (run_flag w \<longleftrightarrow> stopper w = Running) \<and>
     (wpc w \<in> {WantFinal, FinalDrain, Done} \<longrightarrow> \<not> run_flag w) \<and>
     (wpc w \<in> {GoingToSleep, Sleeping} \<longrightarrow> queue w = []) \<and>
     (stopper w = Joined \<longrightarrow> wpc w = Done)"

lemma worker_inv_start: "worker_inv (start_worker s)"
  by (simp add: worker_inv_def start_worker_def)

lemma worker_inv_add: "add_item w x = Some w' \<Longrightarrow> worker_inv w \<Longrightarrow> worker_inv w'"
  by (cases "wpc w"; clarsimp simp: worker_inv_def add_item_def notify_one_def split: if_splits)

lemma worker_inv_work: "work_act f w = Some w' \<Longrightarrow> worker_inv w \<Longrightarrow> worker_inv w'"
  by (cases "wpc w"; clarsimp simp: worker_inv_def work_act_def split: if_splits list.splits)

lemma worker_inv_stop: "stop_act w = Some w' \<Longrightarrow> worker_inv w \<Longrightarrow> worker_inv w'"
  by (cases "stopper w"; cases "wpc w";
      clarsimp simp: worker_inv_def stop_act_def notify_one_def split: if_splits)

lemma worker_inv_spurious: "worker_inv w \<Longrightarrow> wpc w = Sleeping \<Longrightarrow> worker_inv (w\<lparr>wpc := WantLock\<rparr>)"
  by (simp add: worker_inv_def)

lemma worker_inv_ext: "worker_inv w \<Longrightarrow> worker_inv (w\<lparr>obj := s\<rparr>)"
  by (auto simp: worker_inv_def)

lemma worker_inv_step: "wstep f g w l w' \<Longrightarrow> worker_inv w \<Longrightarrow> worker_inv w'"
  by (induction rule: wstep.induct)
     (rule worker_inv_add worker_inv_work worker_inv_stop worker_inv_spurious worker_inv_ext; assumption)+

lemma worker_inv_reach: "wreach f g s0 tr w \<Longrightarrow> worker_inv w"
  by (induction rule: wreach.induct) (auto intro: worker_inv_start worker_inv_step)

lemma stopper_mono: "wstep f g w l w' \<Longrightarrow> stopper w \<le> stopper w'"
proof (induction rule: wstep.induct)
  case (work w w')
  then show ?case
    by (cases "wpc w") (auto simp: work_act_def less_eq_stop_phase_def split: if_splits list.splits)
next
  case (stop w w')
  then show ?case
    by (cases "stopper w")
       (auto simp: stop_act_def notify_one_def less_eq_stop_phase_def split: if_splits)
qed (auto simp: add_item_def notify_one_def split: if_splits)

section \<open>Nothing is lost, repeated or reordered\<close>

text \<open>
  The items the thread still has to process. During the final pass the queue is only cleared at
  the end, so its items are the ones of the pass.
\<close>

definition pending :: "('s, 'i) worker \<Rightarrow> 'i list" where
  "pending w = (if wpc w = FinalDrain then batch w else batch w @ queue w)"

text \<open>How a step changes what is processed and what is pending.\<close>

lemma add_item_pending:
  "add_item w x = Some w' \<Longrightarrow> worker_inv w \<Longrightarrow> pending w' = pending w @ [x] \<and> obj w' = obj w"
  by (auto simp: add_item_def notify_one_def pending_def worker_inv_def split: if_splits)

lemma stop_act_pending: "stop_act w = Some w' \<Longrightarrow> pending w' = pending w \<and> obj w' = obj w"
  by (cases "stopper w") (auto simp: stop_act_def notify_one_def pending_def split: if_splits)

lemma work_act_pending:
  "work_act f w = Some w' \<Longrightarrow> worker_inv w \<Longrightarrow>
   (pending w' = pending w \<and> obj w' = obj w) \<or>
   (\<exists>x. pending w = x # pending w' \<and> obj w' = f (obj w) x)"
  by (cases "wpc w"; clarsimp simp: work_act_def pending_def worker_inv_def split: if_splits list.splits)

lemma fifo_step:
  assumes "wstep f g w l w'" and inv: "worker_inv w" and "added tr = items hist @ pending w"
    and "operations hist = external tr" and "obj w = serial f g s0 hist"
  shows "\<exists>more. added (tr @ [l]) = items (hist @ more) @ pending w' \<and>
    operations (hist @ more) = external (tr @ [l]) \<and> obj w' = serial f g s0 (hist @ more)"
proof (cases l)
  case (Add x)
  with assms show ?thesis using add_item_pending [OF _ inv]
    by (intro exI [of _ "[]"]) auto
next
  case Work
  with assms(1) have "work_act f w = Some w'" by simp
  from work_act_pending [OF this inv] show ?thesis
  proof
    assume "pending w' = pending w \<and> obj w' = obj w"
    with assms Work show ?thesis by (intro exI [of _ "[]"]) simp
  next
    assume "\<exists>x. pending w = x # pending w' \<and> obj w' = f (obj w) x"
    then obtain x where "pending w = x # pending w'" "obj w' = f (obj w) x" by blast
    with assms Work show ?thesis by (intro exI [of _ "[Inl x]"]) simp
  qed
next
  case Stop
  with assms show ?thesis using stop_act_pending [of w w'] by (intro exI [of _ "[]"]) simp
next
  case Spurious
  with assms show ?thesis by (intro exI [of _ "[]"]) (simp add: pending_def)
next
  case (Ext e)
  with assms show ?thesis by (intro exI [of _ "[Inr e]"]) (simp add: pending_def)
qed

lemma worker_fifo:
  "wreach f g s0 tr w \<Longrightarrow>
   \<exists>hist. added tr = items hist @ pending w \<and> operations hist = external tr \<and>
          obj w = serial f g s0 hist"
proof (induction rule: wreach.induct)
  case start
  show ?case by (rule exI [of _ "[]"]) (simp add: start_worker_def pending_def)
next
  case (step tr w l w')
  then obtain hist where "added tr = items hist @ pending w" "operations hist = external tr"
      "obj w = serial f g s0 hist" by blast
  from fifo_step [OF step(2) worker_inv_reach [OF step(1)] this] show ?case by blast
qed

text \<open>The history of a run begins with the history of its first part.\<close>

lemma worker_fifo_split:
  "wreach f g s0 (tr @ tr') w \<Longrightarrow>
   \<exists>hist p more. added tr = items hist @ p \<and> operations hist = external tr \<and>
     added (tr @ tr') = items (hist @ more) @ pending w \<and>
     operations (hist @ more) = external (tr @ tr') \<and> obj w = serial f g s0 (hist @ more)"
proof (induction tr' arbitrary: w rule: rev_induct)
  case Nil
  with worker_fifo [of f g s0 tr w] show ?case by (metis append_Nil2)
next
  case (snoc l tr')
  from snoc.prems obtain w0 where w0: "wreach f g s0 (tr @ tr') w0" "wstep f g w0 l w"
    by (cases rule: wreach.cases) auto
  from snoc.IH [OF w0(1)] obtain hist p more where
    h: "added tr = items hist @ p" "operations hist = external tr"
      "added (tr @ tr') = items (hist @ more) @ pending w0"
      "operations (hist @ more) = external (tr @ tr')" "obj w0 = serial f g s0 (hist @ more)" by blast
  from fifo_step [OF w0(2) worker_inv_reach [OF w0(1)] h(3-5)] obtain more' where
    "added ((tr @ tr') @ [l]) = items ((hist @ more) @ more') @ pending w"
    "operations ((hist @ more) @ more') = external ((tr @ tr') @ [l])"
    "obj w = serial f g s0 ((hist @ more) @ more')" by blast
  with h(1,2) show ?case by (metis append_assoc)
qed

lemma operations_snoc:
  "operations hist = es @ [e] \<Longrightarrow> \<exists>before xs. hist = before @ Inr e # map Inl xs \<and> operations before = es"
proof (induction hist rule: rev_induct)
  case (snoc h hist)
  show ?case
  proof (cases h)
    case (Inl x)
    with snoc obtain before xs where "hist = before @ Inr e # map Inl xs" "operations before = es" by auto
    with Inl show ?thesis by (intro exI [of _ before] exI [of _ "xs @ [x]"]) simp
  next
    case (Inr e')
    with snoc.prems show ?thesis by (intro exI [of _ hist] exI [of _ "[]"]) simp
  qed
qed simp

lemma operations_mem: "e \<in> set (operations hist) \<longleftrightarrow> Inr e \<in> set hist"
  by (induction hist rule: operations.induct) auto

lemma items_map [simp]: "items (map Inl xs) = xs" "operations (map Inl xs) = []"
  by (induction xs) simp_all

section \<open>Ending\<close>

text \<open>Once the flag is cleared, the number of steps the thread has left, item by item.\<close>

fun pc_left :: "worker_pc \<Rightarrow> nat" where
  "pc_left WantLock = 7"
| "pc_left TestPred = 6"
| "pc_left Swapping = 5"
| "pc_left Processing = 4"
| "pc_left AtLoop = 3"
| "pc_left WantFinal = 2"
| "pc_left FinalDrain = 1"
| "pc_left _ = 0"

definition work_left :: "('s, 'i) worker \<Rightarrow> nat" where
  "work_left w = pc_left (wpc w) + length (pending w)"

fun work_steps :: "('s \<Rightarrow> 'i \<Rightarrow> 's) \<Rightarrow> nat \<Rightarrow> ('s, 'i) worker \<Rightarrow> ('s, 'i) worker option" where
  "work_steps f 0 w = Some w"
| "work_steps f (Suc n) w = (case work_act f w of None \<Rightarrow> None | Some w' \<Rightarrow> work_steps f n w')"

definition ending :: "('s, 'i) worker \<Rightarrow> bool" where
  "ending w \<longleftrightarrow> worker_inv w \<and> \<not> run_flag w \<and> wpc w \<notin> {GoingToSleep, Sleeping} \<and>
     (wpc w = Done \<longrightarrow> queue w = [])"

lemma ending_step:
  assumes "ending w" and "wpc w \<noteq> Done"
  shows "\<exists>w'. work_act f w = Some w' \<and> ending w' \<and> work_left w = Suc (work_left w') \<and>
    foldl f (obj w') (pending w') = foldl f (obj w) (pending w)"
  using assms
  by (cases "wpc w"; cases "batch w";
      clarsimp simp: ending_def work_act_def worker_inv_def work_left_def pending_def)

lemma ending_run:
  "ending w \<Longrightarrow> work_left w = n \<Longrightarrow>
   \<exists>w'. work_steps f n w = Some w' \<and> wpc w' = Done \<and> queue w' = [] \<and>
        obj w' = foldl f (obj w) (pending w)"
proof (induction n arbitrary: w)
  case 0
  then have "wpc w = Done"
    by (cases "wpc w") (auto simp: work_left_def ending_def)
  with "0.prems" show ?case by (auto simp: ending_def work_left_def pending_def)
next
  case (Suc n)
  have "wpc w \<noteq> Done"
    using Suc.prems by (auto simp: work_left_def ending_def pending_def worker_inv_def)
  from ending_step [OF Suc.prems(1) this, of f] obtain w' where
    w': "work_act f w = Some w'" "ending w'" "work_left w = Suc (work_left w')"
      "foldl f (obj w') (pending w') = foldl f (obj w) (pending w)" by blast
  with Suc.prems Suc.IH [of w'] show ?case by auto
qed

lemma work_steps_inv: "work_steps f n w = Some w' \<Longrightarrow> worker_inv w \<Longrightarrow> worker_inv w'"
  by (induction n arbitrary: w) (auto split: option.splits dest: worker_inv_work)

section \<open>Progress\<close>

text \<open>While the flag is set: the steps until everything now pending has been processed, at most.\<close>

fun pc_ahead :: "worker_pc \<Rightarrow> nat" where
  "pc_ahead Processing = 5"
| "pc_ahead AtLoop = 4"
| "pc_ahead WantLock = 3"
| "pc_ahead TestPred = 2"
| "pc_ahead Swapping = 1"
| "pc_ahead _ = 0"

definition work_ahead :: "('s, 'i) worker \<Rightarrow> nat" where
  "work_ahead w =
     length (pending w) + (if wpc w = Processing \<and> queue w = [] then 0 else pc_ahead (wpc w))"

lemma running_step:
  assumes "worker_inv w" and "run_flag w" and "pending w \<noteq> []"
  shows "\<exists>w'. work_act f w = Some w' \<and> run_flag w' \<and> work_ahead w' < work_ahead w \<and>
    foldl f (obj w') (pending w') = foldl f (obj w) (pending w)"
  using assms
  by (cases "wpc w"; cases "batch w";
      clarsimp simp: work_act_def worker_inv_def work_ahead_def pending_def split: if_splits)

lemma running_run:
  "worker_inv w \<Longrightarrow> run_flag w \<Longrightarrow>
   \<exists>n w'. n \<le> work_ahead w \<and> work_steps f n w = Some w' \<and> pending w' = [] \<and>
     obj w' = foldl f (obj w) (pending w)"
proof (induction "work_ahead w" arbitrary: w rule: less_induct)
  case less
  show ?case
  proof (cases "pending w = []")
    case True
    then show ?thesis by (intro exI [of _ 0] exI [of _ w]) simp
  next
    case False
    from running_step [OF less.prems False, of f] obtain w1 where
      w1: "work_act f w = Some w1" "run_flag w1" "work_ahead w1 < work_ahead w"
        "foldl f (obj w1) (pending w1) = foldl f (obj w) (pending w)" by blast
    from less.hyps [OF w1(3) worker_inv_work [OF w1(1) less.prems(1)] w1(2)] obtain n w' where
      "n \<le> work_ahead w1" "work_steps f n w1 = Some w'" "pending w' = []"
      "obj w' = foldl f (obj w1) (pending w1)" by blast
    with w1 show ?thesis by (intro exI [of _ "Suc n"] exI [of _ w']) simp
  qed
qed

section \<open>The interface to the object the thread works on\<close>

text \<open>
  What a component has to show for the thread that processes its queue: that one more item keeps
  \<open>good\<close>, the relation between the items processed so far and the object they have made, as
  long as the items together stay within a limit. The relation then holds in every interleaving.
\<close>

locale queue_processor =
  fixes process :: "'s \<Rightarrow> 'i \<Rightarrow> 's" and ext :: "'s \<Rightarrow> 'e \<Rightarrow> 's" and initial :: 's
    and good :: "'i list \<Rightarrow> 's \<Rightarrow> bool" and limit :: "'i list \<Rightarrow> bool"
  assumes limit_prefix: "limit (xs @ ys) \<Longrightarrow> limit xs"
    and good_initial: "good [] initial"
    and good_process: "good xs s \<Longrightarrow> limit (xs @ [x]) \<Longrightarrow> good (xs @ [x]) (process s x)"
    and good_ext: "good xs s \<Longrightarrow> good xs (ext s e)"
begin

lemma good_serial: "limit (items hist) \<Longrightarrow> good (items hist) (serial process ext initial hist)"
proof (induction hist rule: rev_induct)
  case Nil
  show ?case by (simp add: good_initial)
next
  case (snoc h hist)
  show ?case
  proof (cases h)
    case (Inl x)
    with snoc show ?thesis using limit_prefix good_process by fastforce
  next
    case (Inr e)
    with snoc show ?thesis by (simp add: good_ext)
  qed
qed

lemma good_foldl: "limit xs \<Longrightarrow> good xs (foldl process initial xs)"
proof (induction xs rule: rev_induct)
  case Nil
  show ?case by (simp add: good_initial)
next
  case (snoc x xs)
  then show ?case using limit_prefix good_process by fastforce
qed

lemma reachable_good:
  assumes "wreach process ext initial tr w" and "limit (added tr)"
  shows "\<exists>past. added tr = past @ pending w \<and> good past (obj w) \<and>
    (wpc w = Done \<longrightarrow> pending w = queue w)"
proof -
  from worker_fifo [OF assms(1)] obtain hist where
    hist: "added tr = items hist @ pending w" "obj w = serial process ext initial hist" by blast
  with assms(2) limit_prefix have "good (items hist) (obj w)" using good_serial by metis
  with hist worker_inv_reach [OF assms(1)] show ?thesis by (auto simp: worker_inv_def pending_def)
qed

end

section \<open>Properties of the worker thread\<close>

text \<open>C16. However the threads interleave, the object is what a serial history makes of it: the items
  processed one by one in the order they were added, and between them the other threads'
  operations in their order. The items not yet processed are all still pending, in order. When
  the thread has ended, only items added after its final pass are left.\<close>

theorem worker_is_serial:
  assumes "wreach f g s0 tr w"
  shows "\<exists>hist. added tr = items hist @ pending w \<and> external tr = operations hist \<and>
    obj w = serial f g s0 hist \<and>
    (wpc w = Done \<longrightarrow> pending w = queue w) \<and> (stopper w = Joined \<longrightarrow> wpc w = Done)"
proof -
  obtain hist where "added tr = items hist @ pending w" "operations hist = external tr"
      "obj w = serial f g s0 hist" using worker_fifo [OF assms] by blast
  with worker_inv_reach [OF assms] show ?thesis
    by (intro exI [of _ hist]) (simp add: worker_inv_def pending_def)
qed

text \<open>A processing function for the witnesses: the total length of the items.\<close>

definition count_items :: "nat \<Rightarrow> string \<Rightarrow> nat" where
  "count_items n s = n + length s"

definition no_op :: "'s \<Rightarrow> unit \<Rightarrow> 's" where
  "no_op s e = s"

lemma start_reach [intro]: "wreach f g s0 [] (start_worker s0)"
  by (rule wreach.start)

lemma reach_snoc: "wreach f g s0 tr w \<Longrightarrow> wstep f g w l w' \<Longrightarrow> tr' = tr @ [l] \<Longrightarrow> wreach f g s0 tr' w'"
  by (simp add: wreach.step)

lemma add_reach: "wreach f g s0 [Add x] ((start_worker s0)\<lparr>queue := [x]\<rparr>)"
  by (rule reach_snoc [OF start_reach]) (simp_all add: add_item_def notify_one_def start_worker_def)

theorem worker_is_serial_witness:
  "\<exists>tr w hist. wreach count_items no_op 0 tr w \<and> added tr = [''abc''] \<and>
    added tr = items hist @ pending w \<and> obj w = serial count_items no_op 0 hist"
proof -
  have r: "wreach count_items no_op 0 [Add ''abc''] ((start_worker 0)\<lparr>queue := [''abc'']\<rparr>)"
    by (rule add_reach)
  from worker_is_serial [OF r] r show ?thesis by fastforce
qed

text \<open>The waits are safe for data: in every reachable state the thread is blocked only while it
  is waiting with an empty queue or after its end, and an item added while it waits wakes it.\<close>

theorem data_wakes_worker:
  assumes "wreach f g s0 tr w"
  shows "(work_act f w = None \<longleftrightarrow> wpc w = Sleeping \<or> wpc w = Done) \<and>
    (wpc w = Sleeping \<longrightarrow>
       queue w = [] \<and> (\<exists>w'. add_item w x = Some w' \<and> wpc w' = WantLock \<and> queue w' = [x]))"
proof -
  note inv = worker_inv_reach [OF assms]
  have "work_act f w = None \<longleftrightarrow> wpc w = Sleeping \<or> wpc w = Done"
    using inv by (cases "wpc w") (auto simp: work_act_def worker_inv_def split: list.split)
  with inv show ?thesis by (auto simp: worker_inv_def add_item_def notify_one_def)
qed

text \<open>A run that puts the thread to sleep.\<close>

definition sleep_trace :: "('i, 'e) wlabel list" where
  "sleep_trace = [Work, Work, Work, Work]"

lemma sleep_reach: "wreach f g s0 sleep_trace ((start_worker s0)\<lparr>wpc := Sleeping\<rparr>)"
proof -
  have "wreach f g s0 [Work] ((start_worker s0)\<lparr>wpc := WantLock\<rparr>)"
    by (rule reach_snoc [OF start_reach]) (simp_all add: work_act_def start_worker_def)
  then have "wreach f g s0 [Work, Work] ((start_worker s0)\<lparr>lock_held := True, wpc := TestPred\<rparr>)"
    by (rule reach_snoc) (simp_all add: work_act_def start_worker_def)
  then have "wreach f g s0 [Work, Work, Work] ((start_worker s0)\<lparr>lock_held := True, wpc := GoingToSleep\<rparr>)"
    by (rule reach_snoc) (simp_all add: work_act_def start_worker_def)
  then show ?thesis
    by (rule reach_snoc) (simp_all add: work_act_def start_worker_def sleep_trace_def)
qed

theorem data_wakes_worker_witness:
  "\<exists>w'. add_item ((start_worker (0::nat))\<lparr>wpc := Sleeping\<rparr>) ''abc'' = Some w' \<and> wpc w' = WantLock"
  using data_wakes_worker [OF sleep_reach [of count_items no_op 0], of "''abc''"] by auto

text \<open>Once the flag is cleared and the thread is neither asleep nor about to be, it ends by
  itself in a number of its own steps that is known in advance, with every pending item processed
  in order and the queue empty.\<close>

theorem worker_ends:
  assumes "wreach f g s0 tr w" and "\<not> run_flag w" and "wpc w \<notin> {GoingToSleep, Sleeping, Done}"
  shows "\<exists>w'. work_steps f (work_left w) w = Some w' \<and> wpc w' = Done \<and> queue w' = [] \<and>
    obj w' = foldl f (obj w) (pending w)"
proof -
  have "ending w" using worker_inv_reach [OF assms(1)] assms(2,3) by (simp add: ending_def)
  then show ?thesis by (rule ending_run) simp
qed

theorem worker_ends_witness:
  "\<exists>w w'. wreach count_items no_op (0::nat) [Add ''abc'', Stop] w \<and>
    work_steps count_items (work_left w) w = Some w' \<and> wpc w' = Done \<and> obj w' = 3"
proof -
  let ?w = "(start_worker (0::nat))\<lparr>queue := [''abc''], run_flag := False, stopper := FlagCleared\<rparr>"
  have r: "wreach count_items no_op (0::nat) [Add ''abc'', Stop] ?w"
    by (rule reach_snoc [OF add_reach]) (simp_all add: stop_act_def start_worker_def)
  have w: "obj ?w = 0" "pending ?w = [''abc'']" "\<not> run_flag ?w" "wpc ?w \<notin> {GoingToSleep, Sleeping, Done}"
    by (simp_all add: start_worker_def pending_def)
  from worker_ends [OF r w(3,4)] w(1,2) r show ?thesis by (auto simp: count_items_def)
qed

text \<open>C28. Nothing queued is left lying: in every reachable state in which the thread has not ended, it
  processes all that is pending, in order, within a number of its own steps known in advance,
  whether the flag is set or not.\<close>

theorem items_are_processed:
  assumes "wreach f g s0 tr w" and "wpc w \<noteq> Done"
  shows "\<exists>n w'. n \<le> length (pending w) + 7 \<and> work_steps f n w = Some w' \<and> pending w' = [] \<and>
    obj w' = foldl f (obj w) (pending w)"
proof (cases "run_flag w")
  case True
  from running_run [OF worker_inv_reach [OF assms(1)] True, of f] obtain n w' where
    "n \<le> work_ahead w" and w': "work_steps f n w = Some w'" "pending w' = []"
      "obj w' = foldl f (obj w) (pending w)" by blast
  moreover have "work_ahead w \<le> length (pending w) + 7"
    by (cases "wpc w") (simp_all add: work_ahead_def)
  ultimately have "n \<le> length (pending w) + 7" by linarith
  with w' show ?thesis by blast
next
  case False
  show ?thesis
  proof (cases "wpc w \<in> {GoingToSleep, Sleeping}")
    case True
    with worker_inv_reach [OF assms(1)] have "pending w = []"
      by (auto simp: worker_inv_def pending_def)
    then show ?thesis by (intro exI [of _ 0] exI [of _ w]) simp
  next
    case not_asleep: False
    with False assms(2) worker_inv_reach [OF assms(1)] have "ending w" by (simp add: ending_def)
    from ending_run [OF this refl, of f] obtain w' where
      w': "work_steps f (work_left w) w = Some w'" "wpc w' = Done" "queue w' = []"
        "obj w' = foldl f (obj w) (pending w)" by blast
    from work_steps_inv [OF w'(1) worker_inv_reach [OF assms(1)]] w'(2,3) have "pending w' = []"
      by (simp add: worker_inv_def pending_def)
    moreover have "work_left w \<le> length (pending w) + 7"
    proof -
      have "pc_left p \<le> 7" for p by (cases p) simp_all
      then show ?thesis by (simp add: work_left_def)
    qed
    ultimately show ?thesis using w' by blast
  qed
qed

theorem items_are_processed_witness:
  "\<exists>n w'. work_steps count_items n ((start_worker (0::nat))\<lparr>queue := [''abc'']\<rparr>) = Some w' \<and> obj w' = 3"
proof -
  let ?w = "(start_worker (0::nat))\<lparr>queue := [''abc'']\<rparr>"
  have r: "wreach count_items no_op (0::nat) [Add ''abc''] ?w" by (rule add_reach)
  have w: "wpc ?w \<noteq> Done" "foldl count_items (obj ?w) (pending ?w) = 3"
    by (simp_all add: start_worker_def pending_def count_items_def)
  from items_are_processed [OF r w(1)] obtain n w' where
    "work_steps count_items n ?w = Some w'" "obj w' = foldl count_items (obj ?w) (pending ?w)" by blast
  with w(2) show ?thesis by (metis (no_types))
qed

text \<open>Stopping can hang. The flag is cleared and the notification sent without the mutex, so
  both can fall between the thread's test of the predicate and its registration as a waiter: the
  notification is lost, the thread sleeps, \<open>join\<close> waits for it, and no step but an unforced
  wake-up or another item can free them (an operation on the object leaves both where they are). This is reachable for every object and every processing
  function.\<close>

theorem stop_can_hang:
  "\<exists>tr w. wreach f g s0 tr w \<and> added tr = [] \<and> \<not> run_flag w \<and> stopper w = Notified \<and>
     wpc w = Sleeping \<and> (\<forall>l w'. wstep f g w l w' \<longrightarrow>
       l = Spurious \<or> (\<exists>x. l = Add x) \<or> (\<exists>e. l = Ext e) \<and> wpc w' = Sleeping \<and> stopper w' = Notified)"
proof -
  let ?base = "(start_worker s0)\<lparr>lock_held := True, run_flag := False\<rparr>"
  let ?w = "(start_worker s0)\<lparr>run_flag := False, stopper := Notified, wpc := Sleeping\<rparr>"
  have "wreach f g s0 [Work] ((start_worker s0)\<lparr>wpc := WantLock\<rparr>)"
    by (rule reach_snoc [OF start_reach]) (simp_all add: work_act_def start_worker_def)
  then have "wreach f g s0 [Work, Work] ((start_worker s0)\<lparr>lock_held := True, wpc := TestPred\<rparr>)"
    by (rule reach_snoc) (simp_all add: work_act_def start_worker_def)
  then have "wreach f g s0 [Work, Work, Work] ((start_worker s0)\<lparr>lock_held := True, wpc := GoingToSleep\<rparr>)"
    by (rule reach_snoc) (simp_all add: work_act_def start_worker_def)
  then have "wreach f g s0 [Work, Work, Work, Stop] (?base\<lparr>wpc := GoingToSleep, stopper := FlagCleared\<rparr>)"
    by (rule reach_snoc) (simp_all add: stop_act_def start_worker_def)
  then have "wreach f g s0 [Work, Work, Work, Stop, Stop] (?base\<lparr>wpc := GoingToSleep, stopper := Notified\<rparr>)"
    by (rule reach_snoc) (simp_all add: stop_act_def notify_one_def start_worker_def)
  then have r: "wreach f g s0 [Work, Work, Work, Stop, Stop, Work] ?w"
    by (rule reach_snoc) (simp_all add: work_act_def start_worker_def)
  have "l = Spurious \<or> (\<exists>x. l = Add x) \<or> (\<exists>e. l = Ext e) \<and> wpc w' = Sleeping \<and> stopper w' = Notified"
    if "wstep f g ?w l w'" for l w'
    using that by (cases l) (auto simp: work_act_def stop_act_def)
  with r show ?thesis by (intro exI conjI) (auto simp: start_worker_def)
qed

theorem stop_can_hang_witness:
  "\<exists>tr w. wreach count_items no_op (0::nat) tr w \<and> wpc w = Sleeping \<and> stopper w = Notified \<and>
    \<not> run_flag w"
  using stop_can_hang [of count_items no_op 0] by blast

end
