(* ===== verification/HashMap.thy ===== *)
theory HashMap
  imports Prelude "HOL-Library.AList"
begin

text \<open>
  \<open>std::unordered_map\<close> as the code uses it: an association list with one entry per key. The order
  of the entries stands for the unspecified iteration order; lookups do not depend on it.
\<close>

type_synonym ('k, 'v) table = "('k \<times> 'v) list"

abbreviation find_entry :: "('k, 'v) table \<Rightarrow> 'k \<Rightarrow> 'v option" where
  "find_entry \<equiv> map_of"

text \<open>\<open>emplace\<close>: an entry that is there is left alone.\<close>

definition emplace_entry :: "'k \<Rightarrow> 'v \<Rightarrow> ('k, 'v) table \<Rightarrow> ('k, 'v) table" where
  "emplace_entry k v t = (case find_entry t k of None \<Rightarrow> (k, v) # t | Some _ \<Rightarrow> t)"

text \<open>Assignment to the value an iterator points to.\<close>

definition assign_entry :: "'k \<Rightarrow> 'v \<Rightarrow> ('k, 'v) table \<Rightarrow> ('k, 'v) table" where
  "assign_entry k v t = AList.update k v t"

definition erase_entry :: "'k \<Rightarrow> ('k, 'v) table \<Rightarrow> ('k, 'v) table" where
  "erase_entry k t = AList.delete k t"

lemma find_emplace [pipe_simps]:
  "find_entry (emplace_entry k v t) j =
     (if j = k \<and> find_entry t k = None then Some v else find_entry t j)"
  by (simp add: emplace_entry_def split: option.split)

lemma find_assign [pipe_simps]:
  "find_entry (assign_entry k v t) j = (if j = k then Some v else find_entry t j)"
  by (simp add: assign_entry_def update_conv')

lemma find_erase [pipe_simps]:
  "find_entry (erase_entry k t) j = (if j = k then None else find_entry t j)"
  by (simp add: erase_entry_def delete_conv')

lemma distinct_emplace [pipe_simps]:
  "distinct (map fst t) \<Longrightarrow> distinct (map fst (emplace_entry k v t))"
  by (simp add: emplace_entry_def map_of_eq_None_iff split: option.split)

lemma distinct_assign [pipe_simps]:
  "distinct (map fst t) \<Longrightarrow> distinct (map fst (assign_entry k v t))"
  by (simp add: assign_entry_def distinct_update)

lemma distinct_erase [pipe_simps]:
  "distinct (map fst t) \<Longrightarrow> distinct (map fst (erase_entry k t))"
  by (simp add: erase_entry_def distinct_delete)

lemma table_empty_iff: "t = [] \<longleftrightarrow> (\<forall>k. find_entry t k = None)"
  by (cases t) auto

text \<open>The keys of the entries, in the order in which a loop over the table meets them.\<close>

lemma find_entry_mem:
  "distinct (map fst t) \<Longrightarrow> (k, v) \<in> set t \<longleftrightarrow> find_entry t k = Some v"
  by simp

section \<open>The interface of a table\<close>

text \<open>
  What the clients rely on. A table is known by its lookups alone; the laws are those of
  \<open>emplace\<close>, assignment and \<open>erase\<close>, with an invariant that every operation keeps.
\<close>

locale lookup_table =
  fixes lookup :: "'t \<Rightarrow> 'k \<Rightarrow> 'v option" and empty :: 't
    and insert_new :: "'k \<Rightarrow> 'v \<Rightarrow> 't \<Rightarrow> 't" and assign :: "'k \<Rightarrow> 'v \<Rightarrow> 't \<Rightarrow> 't"
    and remove :: "'k \<Rightarrow> 't \<Rightarrow> 't" and wf :: "'t \<Rightarrow> bool"
  assumes lookup_empty: "lookup empty k = None"
    and lookup_insert_new: "lookup (insert_new k v t) j =
      (if j = k \<and> lookup t k = None then Some v else lookup t j)"
    and lookup_assign: "lookup (assign k v t) j = (if j = k then Some v else lookup t j)"
    and lookup_remove: "lookup (remove k t) j = (if j = k then None else lookup t j)"
    and wf_empty: "wf empty"
    and wf_insert_new: "wf t \<Longrightarrow> wf (insert_new k v t)"
    and wf_assign: "wf t \<Longrightarrow> wf (assign k v t)"
    and wf_remove: "wf t \<Longrightarrow> wf (remove k t)"
begin

lemma insert_new_keeps: "lookup t k = Some v \<Longrightarrow> lookup (insert_new k w t) = lookup t"
  by (rule ext) (simp add: lookup_insert_new)

lemma insert_new_fresh: "lookup t k = None \<Longrightarrow> lookup (insert_new k v t) = (lookup t)(k \<mapsto> v)"
  by (rule ext) (simp add: lookup_insert_new)

lemma lookup_assign_upd: "lookup (assign k v t) = (lookup t)(k \<mapsto> v)"
  by (rule ext) (simp add: lookup_assign)

lemma lookup_remove_upd: "lookup (remove k t) = (lookup t)(k := None)"
  by (rule ext) (simp add: lookup_remove)

lemma remove_after_insert:
  "lookup t k = None \<Longrightarrow> lookup (remove k (insert_new k v t)) = lookup t"
  by (rule ext) (simp add: lookup_remove lookup_insert_new)

end

interpretation table: lookup_table map_of "[]" emplace_entry assign_entry erase_entry "\<lambda>t. distinct (map fst t)"
  by unfold_locales (simp_all add: pipe_simps)

end
