(* ===== verification/PipeService.thy ===== *)
theory PipeService
  imports Prelude
begin

text \<open>
  What the callers of \<open>invoke\<close> rely on, as an interface between the dispatcher, which owns the
  promises, and the connection, which hands out the futures. A pipe is \<open>ready\<close> once its result is
  there; \<open>occurs\<close> is anything another thread does in between; \<open>close\<close> is the closing of the pipe
  registered under a key.
\<close>

locale pipe_service =
  fixes inv :: "'s \<Rightarrow> bool" and occurs :: "'s \<Rightarrow> 'e \<Rightarrow> 's result" and allowed :: "'e \<Rightarrow> bool"
    and ready :: "'s \<Rightarrow> nat \<Rightarrow> 'o option" and owner :: "'s \<Rightarrow> 'k \<Rightarrow> nat option"
    and close :: "'s \<Rightarrow> 'k \<Rightarrow> 'x \<Rightarrow> 's result" and result_of :: "'x \<Rightarrow> 'o"
  assumes occurs_total: "inv s \<Longrightarrow> allowed e \<Longrightarrow> \<exists>s'. occurs s e = Inr s' \<and> inv s'"
    and occurs_ready: "inv s \<Longrightarrow> allowed e \<Longrightarrow> occurs s e = Inr s' \<Longrightarrow> ready s p = Some y \<Longrightarrow>
      ready s' p = Some y"
    and occurs_owner: "inv s \<Longrightarrow> allowed e \<Longrightarrow> occurs s e = Inr s' \<Longrightarrow> owner s k = Some p \<Longrightarrow>
      owner s' k = Some p \<or> ready s' p \<noteq> None"
    and close_total: "inv s \<Longrightarrow> \<exists>s'. close s k x = Inr s' \<and> inv s'"
    and close_owner: "inv s \<Longrightarrow> close s k x = Inr s' \<Longrightarrow> owner s k = Some p \<Longrightarrow>
      ready s' p = Some (result_of x)"
    and close_ready: "inv s \<Longrightarrow> close s k x = Inr s' \<Longrightarrow> ready s p = Some y \<Longrightarrow> ready s' p = Some y"
begin

lemma run_total: "inv s \<Longrightarrow> \<forall>e \<in> set es. allowed e \<Longrightarrow> \<exists>s'. rfold occurs s es = Inr s' \<and> inv s'"
proof (induction es arbitrary: s)
  case (Cons e es)
  with occurs_total [of s e] obtain s' where "occurs s e = Inr s'" "inv s'" by auto
  with Cons.IH [of s'] Cons.prems(2) show ?case by simp
qed simp

lemma run_ready:
  "inv s \<Longrightarrow> \<forall>e \<in> set es. allowed e \<Longrightarrow> rfold occurs s es = Inr s' \<Longrightarrow> ready s p = Some x \<Longrightarrow>
   ready s' p = Some x"
proof (induction es arbitrary: s)
  case (Cons e es)
  from Cons.prems(1,2) occurs_total [of s e] obtain s1 where s1: "occurs s e = Inr s1" "inv s1" by auto
  with Cons occurs_ready [OF Cons.prems(1) _ s1(1) Cons.prems(4)] show ?case by simp
qed simp

lemma run_owner:
  "inv s \<Longrightarrow> \<forall>e \<in> set es. allowed e \<Longrightarrow> rfold occurs s es = Inr s' \<Longrightarrow> owner s k = Some p \<Longrightarrow>
   owner s' k = Some p \<or> ready s' p \<noteq> None"
proof (induction es arbitrary: s)
  case (Cons e es)
  from Cons.prems(1,2) occurs_total [of s e] obtain s1 where s1: "occurs s e = Inr s1" "inv s1" by auto
  from Cons.prems(2,3) s1 have es: "\<forall>e \<in> set es. allowed e" "rfold occurs s1 es = Inr s'" by simp_all
  from occurs_owner [OF Cons.prems(1) _ s1(1) Cons.prems(4)] Cons.prems(2)
  consider "owner s1 k = Some p" | x where "ready s1 p = Some x" by auto
  then show ?case
  proof cases
    case 1
    with Cons.IH [OF s1(2) es] show ?thesis by simp
  next
    case 2
    with run_ready [OF s1(2) es] show ?thesis by simp
  qed
qed simp

text \<open>
  A wait that ends by closing the pipe: whenever the closing comes, the pipe is ready afterwards,
  with the result of the closing unless another one was there before it.
\<close>

lemma close_after_run:
  assumes "inv s" and "\<forall>e \<in> set es. allowed e" and "owner s k = Some p"
  shows "\<exists>s1 s2. rfold occurs s es = Inr s1 \<and> close s1 k x = Inr s2 \<and> inv s2 \<and>
    ready s2 p = Some (case ready s1 p of Some y \<Rightarrow> y | None \<Rightarrow> result_of x)"
proof -
  from run_total [OF assms(1,2)] obtain s1 where s1: "rfold occurs s es = Inr s1" "inv s1" by blast
  from close_total [OF s1(2)] obtain s2 where s2: "close s1 k x = Inr s2" "inv s2" by blast
  have "ready s2 p = Some (case ready s1 p of Some y \<Rightarrow> y | None \<Rightarrow> result_of x)"
  proof (cases "ready s1 p")
    case None
    with run_owner [OF assms(1,2) s1(1) assms(3)] have "owner s1 k = Some p" by simp
    with close_owner [OF s1(2) s2(1)] None show ?thesis by simp
  next
    case (Some y)
    with close_ready [OF s1(2) s2(1)] show ?thesis by simp
  qed
  with s1 s2 show ?thesis by blast
qed

end

end
