(* ===== verification/EventDispatcher.thy ===== *)
theory EventDispatcher
  imports Reactions Worker HashMap PipeService
begin

text \<open>
  \<open>EventDispatcher\<close> (\<open>src/EventDispatcher.cpp\<close>): answers the callers of \<open>invoke\<close> over
  promise/future pipes and hands every other message to the dispatch callback.

  A promise and its future share a state; \<open>pipes\<close> holds these shared states in the order of their
  creation, a future is its index, and \<open>promise_map\<close> maps an action ID to the index of the promise
  stored under it. \<open>notified\<close> is the list of the arguments \<open>dispatch_\<close> has been called with.
  Each public operation, and each half of \<open>dispatch_event\<close>, holds \<open>promise_map_mutex_\<close> for all it
  does with the maps, so it is one step; the call of \<open>dispatch_\<close> after the mutex is released does
  not touch the maps and commutes with the other threads' operations.
\<close>

section \<open>State\<close>

text \<open>The shared state of a promise and its future; \<open>None\<close> is the null pointer.\<close>

datatype pipe_state = Pending | Value "reaction option" | Exception cpp_error

record dispatcher =
  promise_map :: "(string, nat) table"
  event_map :: "(string, event_list) table"
  pipes :: "pipe_state list"
  notified :: "ami_event list"

definition new_dispatcher :: dispatcher where
  "new_dispatcher = \<lparr>promise_map = [], event_map = [], pipes = [], notified = []\<rparr>"

text \<open>\<open>set_value\<close>, \<open>set_exception\<close>: an error when the state already holds one of them.\<close>

definition settle :: "dispatcher \<Rightarrow> nat \<Rightarrow> pipe_state \<Rightarrow> dispatcher result" where
  "settle d pipe s =
     (if pipes d ! pipe = Pending then Inr (d\<lparr>pipes := (pipes d)[pipe := s]\<rparr>)
      else Inl PromiseAlreadySatisfied)"

section \<open>Operations\<close>

text \<open>
  \<open>get_event_pipe\<close>: the index of the new future. When the ID is taken, \<open>emplace\<close> leaves the entry
  and the new promise dies unfulfilled, which stores \<open>broken_promise\<close> for its future.
\<close>

definition get_event_pipe :: "dispatcher \<Rightarrow> string \<Rightarrow> dispatcher \<times> nat" where
  "get_event_pipe d action_id =
     (let future = length (pipes d);
          state = (case find_entry (promise_map d) action_id of
                     None \<Rightarrow> Pending | Some _ \<Rightarrow> Exception BrokenPromise)
      in (d\<lparr>pipes := pipes d @ [state],
            promise_map := emplace_entry action_id future (promise_map d)\<rparr>, future))"

text \<open>\<open>dispatch_event (action_id, dict)\<close>.\<close>

definition dispatch_to_pipe :: "dispatcher \<Rightarrow> string \<Rightarrow> kvd \<Rightarrow> (bool \<times> dispatcher) result" where
  "dispatch_to_pipe d action_id dict =
     (case find_entry (promise_map d) action_id of
        None \<Rightarrow> Inr (False, d)
      | Some pipe \<Rightarrow>
          (case find_entry (event_map d) action_id of
             None \<Rightarrow>
               if \<not> has_key dict ''EventList'' then
                 rbind (settle d pipe (Value (Some (EventReaction (reaction_event_of dict)))))
                   (\<lambda>d'. Inr (True, d'\<lparr>promise_map := erase_entry action_id (promise_map d')\<rparr>))
               else
                 let event_list = event_list_of dict in
                 if list_is_success event_list then
                   Inr (True, d\<lparr>event_map := emplace_entry action_id event_list (event_map d)\<rparr>)
                 else
                   rbind (settle d pipe (Value (Some (ListReaction event_list))))
                     (\<lambda>d'. Inr (True, d'\<lparr>promise_map := erase_entry action_id (promise_map d')\<rparr>))
           | Some event_list \<Rightarrow>
               let (complete, event_list') = add_dict event_list dict in
               if complete then
                 rbind (settle d pipe (Value (Some (ListReaction event_list'))))
                   (\<lambda>d'. Inr (True, d'\<lparr>promise_map := erase_entry action_id (promise_map d'),
                                       event_map := erase_entry action_id (event_map d')\<rparr>))
               else
                 Inr (True, d\<lparr>event_map := assign_entry action_id event_list' (event_map d)\<rparr>)))"

text \<open>\<open>dispatch_event (event_buf)\<close>.\<close>

definition notify :: "dispatcher \<Rightarrow> kvd \<Rightarrow> dispatcher" where
  "notify d dict = d\<lparr>notified := notified d @ [event_of dict]\<rparr>"

definition dispatch_dict :: "dispatcher \<Rightarrow> kvd \<Rightarrow> dispatcher result" where
  "dispatch_dict d dict =
     (case get_value dict ''ActionID'' of
        None \<Rightarrow> Inr (notify d dict)
      | Some action_id \<Rightarrow>
          rbind (dispatch_to_pipe d action_id dict)
            (\<lambda>(taken, d'). Inr (if taken then d' else notify d' dict)))"

definition dispatch_event :: "dispatcher \<Rightarrow> string \<Rightarrow> dispatcher result" where
  "dispatch_event d event_buf = rbind (kvd_of_string event_buf) (dispatch_dict d)"

text \<open>\<open>set_exception_on_pipe\<close> and \<open>set_null_on_pipe\<close>, whose bodies differ in what they store.\<close>

definition close_pipe :: "dispatcher \<Rightarrow> string \<Rightarrow> pipe_state \<Rightarrow> dispatcher result" where
  "close_pipe d action_id s =
     rbind (case find_entry (promise_map d) action_id of
              None \<Rightarrow> Inr d
            | Some pipe \<Rightarrow>
                rbind (settle d pipe s)
                  (\<lambda>d'. Inr (d'\<lparr>promise_map := erase_entry action_id (promise_map d')\<rparr>)))
       (\<lambda>d'. Inr (d'\<lparr>event_map := erase_entry action_id (event_map d')\<rparr>))"

definition set_exception_on_pipe :: "dispatcher \<Rightarrow> string \<Rightarrow> cpp_error \<Rightarrow> dispatcher result" where
  "set_exception_on_pipe d action_id err = close_pipe d action_id (Exception err)"

definition set_null_on_pipe :: "dispatcher \<Rightarrow> string \<Rightarrow> dispatcher result" where
  "set_null_on_pipe d action_id = close_pipe d action_id (Value None)"

text \<open>
  \<open>cleanup_object\<close>, at the end of the destructor, with assertions compiled in or not.
\<close>

definition cleanup_object :: "bool \<Rightarrow> dispatcher \<Rightarrow> dispatcher result" where
  "cleanup_object asserts d =
     (if asserts \<and> promise_map d \<noteq> [] then Inl AssertFailure
      else rbind (rfold (\<lambda>d' entry. settle d' (snd entry) (Value None)) d (promise_map d))
        (\<lambda>d'. if asserts \<and> event_map d' \<noteq> [] then Inl AssertFailure else Inr d'))"

text \<open>
  \<open>std::future::get\<close>: blocked (\<open>None\<close>) while nothing is stored; then the value, or the exception is
  thrown. A future's index is always one of \<open>pipes\<close>.
\<close>

definition future_get :: "dispatcher \<Rightarrow> nat \<Rightarrow> reaction option result option" where
  "future_get d p =
     (if p < length (pipes d) then
        case pipes d ! p of
          Pending \<Rightarrow> None | Value v \<Rightarrow> Some (Inr v) | Exception err \<Rightarrow> Some (Inl err)
      else None)"

section \<open>The work thread\<close>

text \<open>
  An exception leaves the thread function and ends the program: the object is then the error.
  The other threads' operations are those of \<open>Connection\<close>.
\<close>

datatype pipe_op = OpenPipe string | FailPipe string cpp_error | NullPipe string

fun pipe_op_step :: "dispatcher \<Rightarrow> pipe_op \<Rightarrow> dispatcher result" where
  "pipe_op_step d (OpenPipe a) = Inr (fst (get_event_pipe d a))"
| "pipe_op_step d (FailPipe a err) = set_exception_on_pipe d a err"
| "pipe_op_step d (NullPipe a) = set_null_on_pipe d a"

definition dispatch_item :: "dispatcher result \<Rightarrow> string \<Rightarrow> dispatcher result" where
  "dispatch_item r event_buf = rbind r (\<lambda>d. dispatch_event d event_buf)"

definition pipe_op_item :: "dispatcher result \<Rightarrow> pipe_op \<Rightarrow> dispatcher result" where
  "pipe_op_item r op = rbind r (\<lambda>d. pipe_op_step d op)"

type_synonym dispatch_thread = "(dispatcher result, string) worker"

definition dispatcher_start :: dispatch_thread where
  "dispatcher_start = start_worker (Inr new_dispatcher)"

definition enqueue_event :: "dispatch_thread \<Rightarrow> string \<Rightarrow> dispatch_thread option" where
  "enqueue_event w event = add_item w event"

definition dispatcher_work_thread :: "dispatch_thread \<Rightarrow> dispatch_thread option" where
  "dispatcher_work_thread w = work_act dispatch_item w"

definition dispatcher_stop :: "dispatch_thread \<Rightarrow> dispatch_thread option" where
  "dispatcher_stop w = stop_act w"

text \<open>The destructor after the thread has been joined.\<close>

definition dispatcher_end :: "bool \<Rightarrow> dispatch_thread \<Rightarrow> dispatcher result" where
  "dispatcher_end asserts w = rbind (obj w) (cleanup_object asserts)"

section \<open>The specification: one session per action ID\<close>

text \<open>
  Seen from outside, each action ID is in one of three states, and the dispatcher is their
  collection with the states of the pipes handed out and the messages passed on.
\<close>

datatype session = Idle | Awaiting nat | Collecting nat event_list

record hub =
  sessions :: "string \<Rightarrow> session"
  outcomes :: "pipe_state list"
  passed_on :: "ami_event list"

text \<open>What a message does to the session of its action ID: the next session, and the answer.\<close>

definition accepted :: "kvd \<Rightarrow> bool" where
  "accepted e \<longleftrightarrow> get_value e ''Response'' \<in> {Some ''Success'', Some ''Goodbye''}"

fun session_step :: "session \<Rightarrow> kvd \<Rightarrow> session \<times> (nat \<times> reaction) option" where
  "session_step Idle e = (Idle, None)"
| "session_step (Awaiting p) e =
     (if \<not> has_key e ''EventList'' then (Idle, Some (p, EventReaction e))
      else if accepted e then (Collecting p (event_list_of e), None)
      else (Idle, Some (p, ListReaction (event_list_of e))))"
| "session_step (Collecting p l) e =
     (if completes e then (Idle, Some (p, ListReaction (l\<lparr>tail_event := Some e\<rparr>)))
      else (Collecting p (l\<lparr>body_events := body_events l @ [e]\<rparr>), None))"

fun waiter :: "session \<Rightarrow> nat option" where
  "waiter Idle = None"
| "waiter (Awaiting p) = Some p"
| "waiter (Collecting p l) = Some p"

definition hub_message :: "hub \<Rightarrow> kvd \<Rightarrow> hub" where
  "hub_message h e =
     (case get_value e ''ActionID'' of
        None \<Rightarrow> h\<lparr>passed_on := passed_on h @ [e]\<rparr>
      | Some a \<Rightarrow>
          if sessions h a = Idle then h\<lparr>passed_on := passed_on h @ [e]\<rparr>
          else
            let (s, ans) = session_step (sessions h a) e in
            h\<lparr>sessions := (sessions h)(a := s),
              outcomes := (case ans of None \<Rightarrow> outcomes h
                           | Some (p, r) \<Rightarrow> (outcomes h)[p := Value (Some r)])\<rparr>)"

definition hub_close :: "hub \<Rightarrow> string \<Rightarrow> pipe_state \<Rightarrow> hub" where
  "hub_close h a s =
     (case waiter (sessions h a) of
        None \<Rightarrow> h
      | Some p \<Rightarrow> h\<lparr>sessions := (sessions h)(a := Idle), outcomes := (outcomes h)[p := s]\<rparr>)"

fun hub_op :: "hub \<Rightarrow> pipe_op \<Rightarrow> hub" where
  "hub_op h (OpenPipe a) =
     (if sessions h a = Idle
      then h\<lparr>sessions := (sessions h)(a := Awaiting (length (outcomes h))),
             outcomes := outcomes h @ [Pending]\<rparr>
      else h\<lparr>outcomes := outcomes h @ [Exception BrokenPromise]\<rparr>)"
| "hub_op h (FailPipe a err) = hub_close h a (Exception err)"
| "hub_op h (NullPipe a) = hub_close h a (Value None)"

definition session_of :: "dispatcher \<Rightarrow> string \<Rightarrow> session" where
  "session_of d a =
     (case find_entry (promise_map d) a of
        None \<Rightarrow> Idle
      | Some p \<Rightarrow>
          (case find_entry (event_map d) a of None \<Rightarrow> Awaiting p | Some l \<Rightarrow> Collecting p l))"

definition hub_of :: "dispatcher \<Rightarrow> hub" where
  "hub_of d = \<lparr>sessions = session_of d, outcomes = pipes d, passed_on = notified d\<rparr>"

section \<open>Invariant\<close>

text \<open>
  The promises in the map are the unsettled ones, each under one action ID; a list is collected
  only for an ID that has a promise.
\<close>

definition disp_inv :: "dispatcher \<Rightarrow> bool" where
  "disp_inv d \<longleftrightarrow>
     (\<forall>a p. find_entry (promise_map d) a = Some p \<longrightarrow> p < length (pipes d) \<and> pipes d ! p = Pending) \<and>
     (\<forall>a b p. find_entry (promise_map d) a = Some p \<longrightarrow> find_entry (promise_map d) b = Some p \<longrightarrow> a = b) \<and>
     (\<forall>a. find_entry (promise_map d) a = None \<longrightarrow> find_entry (event_map d) a = None) \<and>
     (\<forall>p < length (pipes d). pipes d ! p = Pending \<longrightarrow> (\<exists>a. find_entry (promise_map d) a = Some p))"

lemma disp_invD:
  assumes "disp_inv d" and "find_entry (promise_map d) a = Some p"
  shows "p < length (pipes d)" "pipes d ! p = Pending"
    "\<And>b. find_entry (promise_map d) b = Some p \<Longrightarrow> b = a"
  using assms unfolding disp_inv_def by blast+

lemma disp_invI:
  assumes "\<And>a p. find_entry (promise_map d) a = Some p \<Longrightarrow> p < length (pipes d) \<and> pipes d ! p = Pending"
    and "\<And>a b p. find_entry (promise_map d) a = Some p \<Longrightarrow> find_entry (promise_map d) b = Some p \<Longrightarrow> a = b"
    and "\<And>a. find_entry (promise_map d) a = None \<Longrightarrow> find_entry (event_map d) a = None"
    and "\<And>p. p < length (pipes d) \<Longrightarrow> pipes d ! p = Pending \<Longrightarrow> \<exists>a. find_entry (promise_map d) a = Some p"
  shows "disp_inv d"
  unfolding disp_inv_def using assms by blast

lemma disp_inv_list: "disp_inv d \<Longrightarrow> find_entry (promise_map d) a = None \<Longrightarrow> find_entry (event_map d) a = None"
  by (simp add: disp_inv_def)

lemma disp_inv_owner:
  "disp_inv d \<Longrightarrow> p < length (pipes d) \<Longrightarrow> pipes d ! p = Pending \<Longrightarrow>
   \<exists>a. find_entry (promise_map d) a = Some p"
  by (simp add: disp_inv_def)

lemma disp_inv_new: "disp_inv new_dispatcher"
  by (simp add: disp_inv_def new_dispatcher_def)

lemma disp_inv_notify: "disp_inv (notify d e) = disp_inv d"
  by (simp add: disp_inv_def notify_def)

lemma disp_inv_event_map:
  assumes "disp_inv d"
    and "\<And>a. find_entry (promise_map d) a = None \<Longrightarrow> find_entry t a = None"
  shows "disp_inv (d\<lparr>event_map := t\<rparr>)"
  using disp_invD [OF assms(1)] disp_inv_owner [OF assms(1)] assms(2) by (intro disp_invI) auto

lemma disp_inv_settled:
  assumes inv: "disp_inv d" and p: "find_entry (promise_map d) a = Some p" and s: "s \<noteq> Pending"
    and t: "\<And>b. find_entry t b = (if b = a then None else find_entry (event_map d) b)"
  shows "disp_inv (d\<lparr>pipes := (pipes d)[p := s],
    promise_map := erase_entry a (promise_map d), event_map := t\<rparr>)" (is "disp_inv ?d")
proof (rule disp_invI)
  note facts = disp_invD [OF inv p]
  fix b q
  assume "find_entry (promise_map ?d) b = Some q"
  then have q: "b \<noteq> a" "find_entry (promise_map d) b = Some q"
    by (auto simp: find_erase split: if_splits)
  with facts(3) have "q \<noteq> p" by blast
  then show "q < length (pipes ?d) \<and> pipes ?d ! q = Pending"
    using disp_invD(1,2) [OF inv q(2)] by simp
  fix c
  assume "find_entry (promise_map ?d) c = Some q"
  then have "find_entry (promise_map d) c = Some q" by (simp add: find_erase split: if_splits)
  then show "b = c" by (rule disp_invD(3) [OF inv _ q(2)])
next
  fix b
  assume "find_entry (promise_map ?d) b = None"
  then show "find_entry (event_map ?d) b = None"
    using disp_inv_list [OF inv, of b] by (auto simp: find_erase t split: if_splits)
next
  fix q
  assume q: "q < length (pipes ?d)" "pipes ?d ! q = Pending"
  with s have "q \<noteq> p" by (cases "q = p") simp_all
  with q disp_inv_owner [OF inv, of q] obtain b where b: "find_entry (promise_map d) b = Some q"
    by auto
  with p \<open>q \<noteq> p\<close> have "b \<noteq> a" by auto
  with b show "\<exists>b. find_entry (promise_map ?d) b = Some q" by (auto simp: find_erase)
qed

lemma disp_inv_open:
  assumes inv: "disp_inv d"
  shows "disp_inv (fst (get_event_pipe d a))" (is "disp_inv ?d")
proof (cases "find_entry (promise_map d) a")
  case None
  then have eqs: "pipes ?d = pipes d @ [Pending]" "event_map ?d = event_map d"
      "\<And>b. find_entry (promise_map ?d) b =
        (if b = a then Some (length (pipes d)) else find_entry (promise_map d) b)"
    by (simp_all add: get_event_pipe_def Let_def find_emplace)
  show ?thesis
  proof (rule disp_invI, unfold eqs)
    fix b q
    assume "(if b = a then Some (length (pipes d)) else find_entry (promise_map d) b) = Some q"
    then show "q < length (pipes d @ [Pending]) \<and> (pipes d @ [Pending]) ! q = Pending"
      using disp_invD(1,2) [OF inv, of b q] by (auto simp: nth_append split: if_splits)
  next
    fix b c q
    assume "(if b = a then Some (length (pipes d)) else find_entry (promise_map d) b) = Some q"
      "(if c = a then Some (length (pipes d)) else find_entry (promise_map d) c) = Some q"
    moreover from this have "b = a \<longleftrightarrow> q = length (pipes d)" "c = a \<longleftrightarrow> q = length (pipes d)"
      using disp_invD(1) [OF inv, of b q] disp_invD(1) [OF inv, of c q] by (simp_all split: if_splits)
    ultimately show "b = c"
      using disp_invD(3) [OF inv, of c q b] by (cases "b = a"; cases "c = a"; simp)
  next
    fix b
    assume "(if b = a then Some (length (pipes d)) else find_entry (promise_map d) b) = None"
    then show "find_entry (event_map d) b = None"
      using disp_inv_list [OF inv, of b] by (simp split: if_splits)
  next
    fix q
    assume q: "q < length (pipes d @ [Pending])" "(pipes d @ [Pending]) ! q = Pending"
    show "\<exists>b. (if b = a then Some (length (pipes d)) else find_entry (promise_map d) b) = Some q"
    proof (cases "q < length (pipes d)")
      case True
      with q disp_inv_owner [OF inv, of q] obtain b where b: "find_entry (promise_map d) b = Some q"
        by (auto simp: nth_append)
      with None have "b \<noteq> a" by auto
      with b show ?thesis by auto
    next
      case False
      with q have "q = length (pipes d)" by simp
      then show ?thesis by auto
    qed
  qed
next
  case (Some p)
  then have eqs: "pipes ?d = pipes d @ [Exception BrokenPromise]" "event_map ?d = event_map d"
      "promise_map ?d = promise_map d"
    by (simp_all add: get_event_pipe_def Let_def emplace_entry_def)
  show ?thesis
  proof (rule disp_invI, unfold eqs)
    fix b q
    assume "find_entry (promise_map d) b = Some q"
    from disp_invD(1,2) [OF inv this]
    show "q < length (pipes d @ [Exception BrokenPromise]) \<and>
        (pipes d @ [Exception BrokenPromise]) ! q = Pending" by (simp add: nth_append)
  next
    fix b c q
    assume "find_entry (promise_map d) b = Some q" "find_entry (promise_map d) c = Some q"
    then show "b = c" by (rule disp_invD(3) [OF inv _, rotated])
  next
    fix b
    assume "find_entry (promise_map d) b = None"
    then show "find_entry (event_map d) b = None" by (rule disp_inv_list [OF inv])
  next
    fix q
    assume "q < length (pipes d @ [Exception BrokenPromise])"
      "(pipes d @ [Exception BrokenPromise]) ! q = Pending"
    then have "q < length (pipes d) \<and> pipes d ! q = Pending"
      by (cases "q = length (pipes d)") (simp_all add: nth_append)
    then show "\<exists>b. find_entry (promise_map d) b = Some q" using disp_inv_owner [OF inv] by blast
  qed
qed

section \<open>The operations implement the specification\<close>

lemma settle_ok:
  "disp_inv d \<Longrightarrow> find_entry (promise_map d) a = Some p \<Longrightarrow>
   settle d p s = Inr (d\<lparr>pipes := (pipes d)[p := s]\<rparr>)"
  by (simp add: settle_def disp_invD)

lemma session_at:
  "find_entry (promise_map d') a = find_entry (promise_map d) a \<Longrightarrow>
   find_entry (event_map d') a = find_entry (event_map d) a \<Longrightarrow> session_of d' a = session_of d a"
  by (simp add: session_of_def split: option.split)

lemma session_of_other [simp]:
  "session_of (d\<lparr>pipes := ps\<rparr>) = session_of d"
  "session_of (d\<lparr>notified := es\<rparr>) = session_of d"
  by (rule ext, rule session_at, simp, simp)+

lemma sessions_upd:
  assumes "\<And>b. b \<noteq> a \<Longrightarrow> find_entry (promise_map d') b = find_entry (promise_map d) b"
    and "\<And>b. b \<noteq> a \<Longrightarrow> find_entry (event_map d') b = find_entry (event_map d) b"
  shows "session_of d' = (session_of d)(a := session_of d' a)"
proof (rule ext)
  fix b
  show "session_of d' b = ((session_of d)(a := session_of d' a)) b"
    using assms [of b] session_at [of d' b d] by (cases "b = a") simp_all
qed

lemma session_Idle: "session_of d a = Idle \<longleftrightarrow> find_entry (promise_map d) a = None"
  by (simp add: session_of_def split: option.split)

lemma session_waiter:
  "waiter (session_of d a) = find_entry (promise_map d) a"
  by (simp add: session_of_def split: option.split)

lemma accepted_list: "list_is_success (event_list_of e) \<longleftrightarrow> accepted e"
  by (auto simp: list_is_success_def event_list_of_def event_of_def accepted_def success_status_def
      split: option.split)

text \<open>The half of \<open>dispatch_event\<close> under the mutex.\<close>

definition answered :: "dispatcher \<Rightarrow> (nat \<times> reaction) option \<Rightarrow> pipe_state list" where
  "answered d ans =
     (case ans of None \<Rightarrow> pipes d | Some (p, r) \<Rightarrow> (pipes d)[p := Value (Some r)])"

lemma dispatch_to_pipe_ok:
  assumes inv: "disp_inv d"
  shows "\<exists>d'. dispatch_to_pipe d a e = Inr (session_of d a \<noteq> Idle, d') \<and> disp_inv d' \<and>
    session_of d' = (session_of d)(a := fst (session_step (session_of d a) e)) \<and>
    pipes d' = answered d (snd (session_step (session_of d a) e)) \<and>
    notified d' = notified d"
proof (cases "find_entry (promise_map d) a")
  case None
  then have "session_of d a = Idle" by (simp add: session_Idle)
  with None inv show ?thesis
    by (simp add: dispatch_to_pipe_def answered_def fun_upd_idem)
next
  case p: (Some p)
  have closes: "disp_inv d' \<and> session_of d' = (session_of d)(a := Idle)"
    if "d' = d\<lparr>pipes := (pipes d)[p := Value r], promise_map := erase_entry a (promise_map d), event_map := t\<rparr>"
      and t: "\<And>b. find_entry t b = (if b = a then None else find_entry (event_map d) b)" for d' r t
  proof -
    have "session_of d' a = Idle" by (simp add: session_Idle that(1) find_erase)
    with sessions_upd [of a d' d] disp_inv_settled [OF inv p _ t] show ?thesis
      by (simp add: that(1) t find_erase)
  qed
  have keeps: "disp_inv (d\<lparr>event_map := t\<rparr>) \<and>
      session_of (d\<lparr>event_map := t\<rparr>) = (session_of d)(a := Collecting p l)"
    if t: "\<And>b. find_entry t b = (if b = a then Some l else find_entry (event_map d) b)" for t l
  proof -
    have "session_of (d\<lparr>event_map := t\<rparr>) a = Collecting p l" by (simp add: session_of_def p t)
    with sessions_upd [of a "d\<lparr>event_map := t\<rparr>" d]
    have "session_of (d\<lparr>event_map := t\<rparr>) = (session_of d)(a := Collecting p l)" by (simp add: t)
    moreover have "disp_inv (d\<lparr>event_map := t\<rparr>)"
      using disp_inv_list [OF inv] p by (intro disp_inv_event_map [OF inv]) (auto simp: t)
    ultimately show ?thesis by simp
  qed
  note settle = settle_ok [OF inv p]
  show ?thesis
  proof (cases "find_entry (event_map d) a")
    case None
    then have s: "session_of d a = Awaiting p" by (simp add: session_of_def p)
    have same: "\<And>b. find_entry (event_map d) b = (if b = a then None else find_entry (event_map d) b)"
      using None by simp
    show ?thesis
    proof (cases "has_key e ''EventList'' \<and> accepted e")
      case True
      have "\<And>b. find_entry (emplace_entry a (event_list_of e) (event_map d)) b =
          (if b = a then Some (event_list_of e) else find_entry (event_map d) b)"
        using None by (simp add: find_emplace)
      from keeps [OF this] True show ?thesis
        by (simp add: dispatch_to_pipe_def p None s accepted_list answered_def)
    next
      case False
      with closes [OF refl same] show ?thesis
        by (auto simp: dispatch_to_pipe_def p None s accepted_list answered_def settle
            reaction_event_of_def Let_def)
    qed
  next
    case (Some l)
    then have s: "session_of d a = Collecting p l" by (simp add: session_of_def p)
    show ?thesis
    proof (cases "completes e")
      case True
      with closes [OF refl find_erase] show ?thesis
        by (simp add: dispatch_to_pipe_def p Some s answered_def settle add_dict_def add_event_def
            event_of_def)
    next
      case False
      with keeps [OF find_assign] show ?thesis
        by (simp add: dispatch_to_pipe_def p Some s answered_def add_dict_def add_event_def
            event_of_def)
    qed
  qed
qed

lemma dispatch_dict_ok:
  assumes "disp_inv d"
  shows "\<exists>d'. dispatch_dict d e = Inr d' \<and> disp_inv d' \<and> hub_of d' = hub_message (hub_of d) e"
proof -
  have pass: "hub_of (notify d e) = (hub_of d)\<lparr>passed_on := notified d @ [e]\<rparr>" for d
    by (simp add: hub_of_def notify_def event_of_def)
  show ?thesis
  proof (cases "get_value e ''ActionID''")
    case None
    with assms pass show ?thesis
      by (simp add: dispatch_dict_def hub_message_def disp_inv_notify hub_of_def)
  next
    case (Some a)
    from dispatch_to_pipe_ok [OF assms, of a e] obtain d' where
      d': "dispatch_to_pipe d a e = Inr (session_of d a \<noteq> Idle, d')" "disp_inv d'"
        "session_of d' = (session_of d)(a := fst (session_step (session_of d a) e))"
        "pipes d' = answered d (snd (session_step (session_of d a) e))" "notified d' = notified d"
      by blast
    show ?thesis
    proof (cases "session_of d a")
      case Idle
      with d' have "hub_of d' = hub_of d" by (simp add: hub_of_def answered_def fun_upd_idem)
      with d' Idle Some show ?thesis
        by (simp add: dispatch_dict_def disp_inv_notify hub_message_def pass) (simp add: hub_of_def)
    qed (use d' Some in \<open>simp_all add: dispatch_dict_def hub_message_def hub_of_def answered_def
        split_beta Let_def\<close>)
  qed
qed

lemma close_pipe_ok:
  assumes inv: "disp_inv d" and s: "s \<noteq> Pending"
  shows "\<exists>d'. close_pipe d a s = Inr d' \<and> disp_inv d' \<and> hub_of d' = hub_close (hub_of d) a s"
proof (cases "find_entry (promise_map d) a")
  case None
  let ?d = "d\<lparr>event_map := erase_entry a (event_map d)\<rparr>"
  have e: "find_entry (erase_entry a (event_map d)) b = find_entry (event_map d) b" for b
    using disp_inv_list [OF inv None] by (simp add: find_erase)
  have "disp_inv ?d" using disp_inv_list [OF inv] by (intro disp_inv_event_map [OF inv]) (simp add: e)
  moreover have "session_of ?d = session_of d" by (rule ext, rule session_at) (simp_all add: e)
  moreover have "waiter (session_of d a) = None" using None by (simp add: session_waiter)
  ultimately show ?thesis using None by (simp add: close_pipe_def hub_of_def hub_close_def)
next
  case (Some p)
  let ?d = "d\<lparr>pipes := (pipes d)[p := s], promise_map := erase_entry a (promise_map d),
    event_map := erase_entry a (event_map d)\<rparr>"
  have "session_of ?d a = Idle" by (simp add: session_Idle find_erase)
  with sessions_upd [of a ?d d] have "session_of ?d = (session_of d)(a := Idle)"
    by (simp add: find_erase)
  moreover have "waiter (session_of d a) = Some p" using Some by (simp add: session_waiter)
  moreover have "disp_inv ?d" by (rule disp_inv_settled [OF inv Some s find_erase])
  ultimately show ?thesis
    using Some settle_ok [OF inv Some] by (simp add: close_pipe_def hub_of_def hub_close_def)
qed

lemma get_event_pipe_ok:
  "hub_of (fst (get_event_pipe d a)) = hub_op (hub_of d) (OpenPipe a)" if "disp_inv d"
proof (cases "find_entry (promise_map d) a")
  case None
  let ?d = "fst (get_event_pipe d a)"
  have d: "promise_map ?d = emplace_entry a (length (pipes d)) (promise_map d)"
      "event_map ?d = event_map d" "pipes ?d = pipes d @ [Pending]" "notified ?d = notified d"
    by (simp_all add: get_event_pipe_def Let_def None)
  then have "session_of ?d a = Awaiting (length (pipes d))"
    using None disp_inv_list [OF that None] by (simp add: session_of_def find_emplace)
  with sessions_upd [of a ?d d]
  have "session_of ?d = (session_of d)(a := Awaiting (length (pipes d)))"
    by (simp add: d find_emplace)
  with d None show ?thesis by (simp add: hub_of_def session_Idle)
next
  case (Some p)
  then have "emplace_entry a q (promise_map d) = promise_map d" for q by (simp add: emplace_entry_def)
  moreover from Some have "session_of d a \<noteq> Idle" by (simp add: session_Idle)
  ultimately show ?thesis using Some
    by (simp add: hub_of_def get_event_pipe_def)
qed

lemma pipe_op_step_ok:
  "disp_inv d \<Longrightarrow>
   \<exists>d'. pipe_op_step d op = Inr d' \<and> disp_inv d' \<and> hub_of d' = hub_op (hub_of d) op"
  by (cases op) (simp_all add: disp_inv_open get_event_pipe_ok close_pipe_ok
      set_exception_on_pipe_def set_null_on_pipe_def)

section \<open>Histories\<close>

text \<open>The messages the parser hands over, as texts; those that end in \<open>EOR\<close> can be read.\<close>

definition readable :: "string \<Rightarrow> bool" where
  "readable m \<longleftrightarrow> fits m \<and> suffix EOR m"

definition message_of :: "string \<Rightarrow> kvd" where
  "message_of m =
     (case records_of m of Some rs \<Rightarrow> dict_of (kvd_of_keys []) rs | None \<Rightarrow> kvd_of_keys [])"

lemma read_message: "readable m \<Longrightarrow> kvd_of_string m = Inr (message_of m)"
  using records_of_ended [of m]
  by (auto simp: readable_def kvd_of_string_def set_message_eq message_of_def suffix_def)

fun disp_event :: "dispatcher \<Rightarrow> string + pipe_op \<Rightarrow> dispatcher result" where
  "disp_event d (Inl m) = dispatch_event d m"
| "disp_event d (Inr op) = pipe_op_step d op"

fun hub_event :: "hub \<Rightarrow> string + pipe_op \<Rightarrow> hub" where
  "hub_event h (Inl m) = hub_message h (message_of m)"
| "hub_event h (Inr op) = hub_op h op"

definition readable_history :: "(string + 'e) list \<Rightarrow> bool" where
  "readable_history hist \<longleftrightarrow> (\<forall>m \<in> set (items hist). readable m)"

lemma readable_history_simps [simp]:
  "readable_history []"
  "readable_history (Inl m # hist) \<longleftrightarrow> readable m \<and> readable_history hist"
  "readable_history (Inr op # hist) \<longleftrightarrow> readable_history hist"
  by (simp_all add: readable_history_def)

lemma disp_event_ok:
  "disp_inv d \<Longrightarrow> readable_history [h] \<Longrightarrow>
   \<exists>d'. disp_event d h = Inr d' \<and> disp_inv d' \<and> hub_of d' = hub_event (hub_of d) h"
  by (cases h) (simp_all add: dispatch_event_def read_message dispatch_dict_ok pipe_op_step_ok)

lemma history_ok:
  "disp_inv d \<Longrightarrow> readable_history hist \<Longrightarrow>
   \<exists>d'. rfold disp_event d hist = Inr d' \<and> disp_inv d' \<and> hub_of d' = foldl hub_event (hub_of d) hist"
proof (induction hist arbitrary: d)
  case (Cons h hist)
  from Cons.prems(2) have r: "readable_history [h]" "readable_history hist"
    by (cases h; simp)+
  from disp_event_ok [OF Cons.prems(1) r(1)] obtain d' where
    d': "disp_event d h = Inr d'" "disp_inv d'" "hub_of d' = hub_event (hub_of d) h" by blast
  with Cons.IH [OF d'(2) r(2)] show ?case by simp
qed simp

section \<open>What one waiter sees\<close>

text \<open>
  The answer that a sequence of messages with one action ID makes, if it makes one: a message
  without an \<open>EventList\<close> key is the answer; a list head that the server did not accept is the
  answer; else the answer is the list from the head to the first message that completes it.
\<close>

fun answer :: "kvd list \<Rightarrow> reaction option" where
  "answer [] = None"
| "answer (e # es) =
     (if \<not> has_key e ''EventList'' then Some (EventReaction e)
      else if \<not> accepted e then Some (ListReaction (event_list_of e))
      else case dropWhile (\<lambda>x. \<not> completes x) es of
             [] \<Rightarrow> None
           | t # _ \<Rightarrow> Some (ListReaction
               \<lparr>head_event = e, tail_event = Some t, body_events = takeWhile (\<lambda>x. \<not> completes x) es\<rparr>))"

text \<open>
  The state of a pipe after a history of its dispatcher: the first of the answer and the closing
  operations on its action ID, whatever happens to other IDs and whatever comes later. \<open>es\<close> are
  the messages with the ID so far.
\<close>

fun verdict :: "string \<Rightarrow> kvd list \<Rightarrow> (string + pipe_op) list \<Rightarrow> pipe_state" where
  "verdict a es [] = Pending"
| "verdict a es (Inl m # hist) =
     (if get_value (message_of m) ''ActionID'' = Some a then
        case answer (es @ [message_of m]) of
          Some r \<Rightarrow> Value (Some r)
        | None \<Rightarrow> verdict a (es @ [message_of m]) hist
      else verdict a es hist)"
| "verdict a es (Inr (OpenPipe b) # hist) = verdict a es hist"
| "verdict a es (Inr (FailPipe b err) # hist) =
     (if b = a then Exception err else verdict a es hist)"
| "verdict a es (Inr (NullPipe b) # hist) =
     (if b = a then Value None else verdict a es hist)"

fun expecting :: "nat \<Rightarrow> kvd list \<Rightarrow> session" where
  "expecting p [] = Awaiting p"
| "expecting p (e # es) = Collecting p (collect (event_list_of e) es)"

lemma waiter_expecting [simp]: "waiter (expecting p es) = Some p"
  by (cases es) simp_all

lemma expecting_not_Idle [simp]: "expecting p es \<noteq> Idle"
  by (cases es) simp_all

lemma answer_None_iff:
  "answer (e # es) = None \<longleftrightarrow>
   has_key e ''EventList'' \<and> accepted e \<and> (\<forall>x \<in> set es. \<not> completes x)"
proof -
  have "dropWhile (\<lambda>x. \<not> completes x) es = [] \<longleftrightarrow> (\<forall>x \<in> set es. \<not> completes x)"
    by (simp add: dropWhile_eq_Nil_conv)
  then show ?thesis
    by (cases "dropWhile (\<lambda>x. \<not> completes x) es") (simp_all del: dropWhile_eq_Nil_conv)
qed

lemma session_step_answer:
  assumes "answer es = None"
  shows "session_step (expecting p es) e =
    (case answer (es @ [e]) of
       None \<Rightarrow> (expecting p (es @ [e]), None) | Some r \<Rightarrow> (Idle, Some (p, r)))"
proof (cases es)
  case Nil
  then show ?thesis by (simp add: collect_def)
next
  case (Cons h fs)
  with assms have h: "has_key h ''EventList''" "accepted h" "\<forall>x \<in> set fs. \<not> completes x"
    unfolding Cons answer_None_iff by blast+
  have c: "collect (event_list_of h) gs = \<lparr>head_event = h, tail_event = None, body_events = gs\<rparr>"
    if "\<forall>x \<in> set gs. \<not> completes x" for gs
    using that by (simp add: collect_body event_list_of_def event_of_def)
  show ?thesis
  proof (cases "completes e")
    case True
    with h have "dropWhile (\<lambda>x. \<not> completes x) (fs @ [e]) = [e]"
        "takeWhile (\<lambda>x. \<not> completes x) (fs @ [e]) = fs"
      by (simp_all add: dropWhile_append takeWhile_append)
    with True h Cons c [OF h(3)] show ?thesis by simp
  next
    case False
    with h(3) have all: "\<forall>x \<in> set (fs @ [e]). \<not> completes x" by simp
    with h have "answer (h # (fs @ [e])) = None" by (simp only: answer_None_iff simp_thms)
    with False Cons c [OF h(3)] c [OF all] show ?thesis by simp
  qed
qed

lemma session_step_waiter:
  "waiter s = Some p \<Longrightarrow> snd (session_step s e) = Some (q, r) \<Longrightarrow> q = p"
  by (cases s) (auto split: if_splits)

text \<open>An event touches the session of one action ID and settles at most the pipe it waits for.\<close>

fun addressee :: "string + pipe_op \<Rightarrow> string option" where
  "addressee (Inl m) = get_value (message_of m) ''ActionID''"
| "addressee (Inr (OpenPipe a)) = Some a"
| "addressee (Inr (FailPipe a err)) = Some a"
| "addressee (Inr (NullPipe a)) = Some a"

lemma hub_close_other:
  "b \<noteq> a \<Longrightarrow> sessions (hub_close h a s) b = sessions h b"
  "waiter (sessions h a) \<noteq> Some p \<Longrightarrow> outcomes (hub_close h a s) ! p = outcomes h ! p"
  "length (outcomes (hub_close h a s)) = length (outcomes h)"
  by (auto simp: hub_close_def split: option.split)

lemma hub_message_other:
  "get_value e ''ActionID'' \<noteq> Some b \<Longrightarrow> sessions (hub_message h e) b = sessions h b"
  "(\<And>a. get_value e ''ActionID'' = Some a \<Longrightarrow> waiter (sessions h a) \<noteq> Some p) \<Longrightarrow>
   outcomes (hub_message h e) ! p = outcomes h ! p"
  "length (outcomes (hub_message h e)) = length (outcomes h)"
proof -
  show "get_value e ''ActionID'' \<noteq> Some b \<Longrightarrow> sessions (hub_message h e) b = sessions h b"
    by (auto simp: hub_message_def Let_def split: option.split prod.split)
  show "length (outcomes (hub_message h e)) = length (outcomes h)"
    by (simp add: hub_message_def Let_def split: option.split prod.split)
  assume other: "\<And>a. get_value e ''ActionID'' = Some a \<Longrightarrow> waiter (sessions h a) \<noteq> Some p"
  show "outcomes (hub_message h e) ! p = outcomes h ! p"
  proof (cases "get_value e ''ActionID''")
    case (Some a)
    have "q \<noteq> p" if "snd (session_step (sessions h a) e) = Some (q, r)" for q r
      using session_step_waiter [OF _ that] that other [OF Some] by (cases "sessions h a") auto
    with Some show ?thesis
      by (auto simp: hub_message_def Let_def split_beta split: option.split)
  qed (simp add: hub_message_def)
qed

lemma hub_event_other:
  assumes "p < length (outcomes h)"
    and "\<And>a. addressee x = Some a \<Longrightarrow> waiter (sessions h a) \<noteq> Some p"
  shows "outcomes (hub_event h x) ! p = outcomes h ! p \<and> p < length (outcomes (hub_event h x))"
  using assms
  by (cases x rule: addressee.cases)
     (simp_all add: hub_message_other hub_close_other nth_append)

lemma hub_event_session:
  assumes "sessions h a \<noteq> Idle" and "addressee x = Some a \<Longrightarrow> \<exists>b. x = Inr (OpenPipe b)"
  shows "sessions (hub_event h x) a = sessions h a"
  using assms
  by (cases x rule: addressee.cases) (auto intro!: hub_message_other(1) hub_close_other(1))

text \<open>The same for the dispatcher, and with it the interface that the connection uses.\<close>

lemma disp_event_other:
  assumes "disp_inv d" and "disp_event d x = Inr d'" and "readable_history [x]"
    and "p < length (pipes d)" and "pipes d ! p \<noteq> Pending"
  shows "pipes d' ! p = pipes d ! p \<and> p < length (pipes d')"
proof -
  from disp_event_ok [OF assms(1,3)] assms(2) have "hub_of d' = hub_event (hub_of d) x" by auto
  moreover have "waiter (sessions (hub_of d) a) \<noteq> Some p" for a
    using disp_invD(2) [OF assms(1), of a p] assms(5) by (auto simp: hub_of_def session_waiter)
  ultimately show ?thesis
    using hub_event_other [of p "hub_of d" x] assms(4) by (metis hub.select_convs(2) hub_of_def)
qed

lemma disp_event_length:
  assumes "disp_inv d" and "disp_event d x = Inr d'" and "readable_history [x]"
  shows "length (pipes d) \<le> length (pipes d')"
proof -
  from disp_event_ok [OF assms(1,3)] assms(2) have "hub_of d' = hub_event (hub_of d) x" by auto
  then have "pipes d' = outcomes (hub_event (hub_of d) x)" by (metis hub.select_convs(2) hub_of_def)
  then show ?thesis
    by (cases x rule: addressee.cases)
       (simp_all add: hub_message_other hub_close_other, simp_all add: hub_of_def)
qed

lemma disp_event_owner:
  assumes inv: "disp_inv d" and "disp_event d x = Inr d'" and "readable_history [x]"
    and p: "find_entry (promise_map d) a = Some p" and pending: "pipes d' ! p = Pending"
  shows "find_entry (promise_map d') a = Some p"
proof -
  from disp_event_ok [OF assms(1,3)] assms(2) have
    d': "disp_inv d'" "hub_of d' = hub_event (hub_of d) x" by auto
  have hub: "session_of d' = sessions (hub_event (hub_of d) x)" "pipes d' = outcomes (hub_event (hub_of d) x)"
    using d'(2) by (metis hub.select_convs hub_of_def)+
  have w: "waiter (sessions (hub_of d) a) = Some p" using p by (simp add: hub_of_def session_waiter)
  note lt = disp_invD(1) [OF inv p]
  have "waiter (sessions (hub_event (hub_of d) x) a) = Some p"
  proof (cases x rule: addressee.cases)
    case (1 m)
    show ?thesis
    proof (cases "get_value (message_of m) ''ActionID'' = Some a")
      case True
      with 1 w pending lt show ?thesis
        by (cases "sessions (hub_of d) a")
           (auto simp: hub hub_message_def hub_of_def Let_def split: if_splits)
    next
      case False
      with 1 w show ?thesis by (simp add: hub_message_other)
    qed
  next
    case (2 b)
    with w show ?thesis by auto
  next
    case (3 b err)
    show ?thesis
    proof (cases "b = a")
      case True
      with 3 w pending lt show ?thesis by (simp add: hub hub_close_def) (simp add: hub_of_def)
    next
      case False
      with 3 w show ?thesis by (simp add: hub_close_other)
    qed
  next
    case (4 b)
    show ?thesis
    proof (cases "b = a")
      case True
      with 4 w pending lt show ?thesis by (simp add: hub hub_close_def) (simp add: hub_of_def)
    next
      case False
      with 4 w show ?thesis by (simp add: hub_close_other)
    qed
  qed
  then show ?thesis by (simp flip: hub(1) add: session_waiter)
qed

lemma future_get_None:
  "p < length (pipes d) \<Longrightarrow> future_get d p = None \<longleftrightarrow> pipes d ! p = Pending"
  by (simp add: future_get_def split: pipe_state.split)

lemma future_get_Some: "future_get d p = Some x \<Longrightarrow> p < length (pipes d) \<and> pipes d ! p \<noteq> Pending"
  by (auto simp: future_get_def split: if_splits)

lemma readable_each: "readable_history hist \<Longrightarrow> \<forall>x \<in> set hist. readable_history [x]"
  by (induction hist rule: items.induct) auto

interpretation futures: pipe_service disp_inv disp_event "\<lambda>x. readable_history [x]" future_get
  "\<lambda>d. find_entry (promise_map d)" set_exception_on_pipe Inl
proof
  fix d d' :: dispatcher and x p v a err
  show "disp_inv d \<Longrightarrow> readable_history [x] \<Longrightarrow> \<exists>d'. disp_event d x = Inr d' \<and> disp_inv d'"
    using disp_event_ok by blast
  show "future_get d' p = Some v"
    if "disp_inv d" "readable_history [x]" "disp_event d x = Inr d'" "future_get d p = Some v"
    using disp_event_other [OF that(1,3,2)] future_get_Some [OF that(4)] that(4)
    by (simp add: future_get_def)
  show "find_entry (promise_map d') a = Some p \<or> future_get d' p \<noteq> None"
    if "disp_inv d" "readable_history [x]" "disp_event d x = Inr d'" "find_entry (promise_map d) a = Some p"
  proof (cases "pipes d' ! p")
    case Pending
    from disp_event_owner [OF that(1,3,2,4) Pending] show ?thesis by simp
  next
    case (Value v)
    with disp_event_length [OF that(1,3,2)] disp_invD(1) [OF that(1,4)] show ?thesis
      by (simp add: future_get_def)
  next
    case (Exception e)
    with disp_event_length [OF that(1,3,2)] disp_invD(1) [OF that(1,4)] show ?thesis
      by (simp add: future_get_def)
  qed
  show "disp_inv d \<Longrightarrow> \<exists>d'. set_exception_on_pipe d a err = Inr d' \<and> disp_inv d'"
    using close_pipe_ok [of d "Exception err"] by (auto simp: set_exception_on_pipe_def)
  show "future_get d' p = Some (Inl err)"
    if "disp_inv d" "set_exception_on_pipe d a err = Inr d'" "find_entry (promise_map d) a = Some p"
    using that settle_ok [OF that(1,3)] disp_invD(1) [OF that(1,3)]
    by (auto simp: set_exception_on_pipe_def close_pipe_def future_get_def)
  show "future_get d' p = Some v"
    if "disp_inv d" "set_exception_on_pipe d a err = Inr d'" "future_get d p = Some v"
    using disp_event_other [of d "Inr (FailPipe a err)" d' p] future_get_Some [OF that(3)] that
    by (simp add: future_get_def)
qed

lemma settled_stays:
  assumes "disp_inv d" and "readable_history hist" and "p < length (pipes d)"
    and "pipes d ! p \<noteq> Pending" and "rfold disp_event d hist = Inr d'"
  shows "pipes d' ! p = pipes d ! p"
proof -
  from assms(3,4) obtain v where v: "future_get d p = Some v" using future_get_None by blast
  have "future_get d' p = Some v"
    by (rule futures.run_ready [OF assms(1) readable_each [OF assms(2)] assms(5) v])
  with v show ?thesis by (auto simp: future_get_def split: if_splits pipe_state.splits)
qed

lemma run_length:
  assumes "disp_inv d" and "readable_history hist" and "rfold disp_event d hist = Inr d'"
  shows "length (pipes d) \<le> length (pipes d')"
  using assms
proof (induction hist arbitrary: d)
  case (Cons x hist)
  from Cons.prems(2) have r: "readable_history [x]" "readable_history hist" by (cases x; simp)+
  from disp_event_ok [OF Cons.prems(1) r(1)] obtain d1 where
    d1: "disp_event d x = Inr d1" "disp_inv d1" by blast
  with Cons.prems(3) have "rfold disp_event d1 hist = Inr d'" by simp
  from Cons.IH [OF d1(2) r(2) this] disp_event_length [OF Cons.prems(1) d1(1) r(1)] show ?case by simp
qed simp

lemma verdict_holds:
  assumes "disp_inv d" and "readable_history hist" and "session_of d a = expecting p es"
    and "answer es = None" and "rfold disp_event d hist = Inr d'"
  shows "pipes d' ! p = verdict a es hist"
  using assms
proof (induction hist arbitrary: d es)
  case Nil
  from Nil.prems(3) session_waiter [of d a] have "find_entry (promise_map d) a = Some p" by simp
  with disp_invD(2) [OF Nil.prems(1)] Nil.prems(5) show ?case by simp
next
  case (Cons x hist)
  from Cons.prems(2) have r: "readable_history [x]" "readable_history hist" by (cases x; simp)+
  from disp_event_ok [OF Cons.prems(1) r(1)] obtain d1 where
    d1: "disp_event d x = Inr d1" "disp_inv d1" "hub_of d1 = hub_event (hub_of d) x" by blast
  from d1(1) Cons.prems(5) have run: "rfold disp_event d1 hist = Inr d'" by simp
  have hub: "session_of d1 = sessions (hub_event (hub_of d) x)" "pipes d1 = outcomes (hub_event (hub_of d) x)"
    using d1(3) by (metis hub.select_convs hub_of_def)+
  from Cons.prems(3) session_waiter [of d a] have p: "find_entry (promise_map d) a = Some p" by simp
  note range = disp_invD(1) [OF Cons.prems(1) p]
  have settled: ?case if "pipes d1 ! p = s" "s \<noteq> Pending" "verdict a es (x # hist) = s"
      "p < length (pipes d1)" for s
    using settled_stays [OF d1(2) r(2) that(4) _ run] that by simp
  have continues: ?case if "session_of d1 a = expecting p es'" "answer es' = None"
      "verdict a es (x # hist) = verdict a es' hist" for es'
    using Cons.IH [OF d1(2) r(2) that(1,2) run] that(3) by simp
  have keeps: "session_of d1 a = expecting p es" if "addressee x = Some a \<Longrightarrow> \<exists>b. x = Inr (OpenPipe b)"
    using hub_event_session [of "hub_of d" a x] that Cons.prems(3)
    by (simp add: hub) (simp add: hub_of_def)
  have skips: ?case if "addressee x = Some a \<Longrightarrow> \<exists>b. x = Inr (OpenPipe b)"
      "verdict a es (x # hist) = verdict a es hist"
    by (rule continues [OF keeps Cons.prems(4) that(2)]) (rule that(1))
  show ?case
  proof (cases x rule: addressee.cases)
    case (1 m)
    show ?thesis
    proof (cases "get_value (message_of m) ''ActionID'' = Some a")
      case True
      show ?thesis
      proof (cases "answer (es @ [message_of m])")
        case None
        with True 1 Cons.prems(3) session_step_answer [OF Cons.prems(4), of p "message_of m"]
        show ?thesis
          by (intro continues) (simp_all add: hub hub_message_def, simp_all add: hub_of_def)
      next
        case (Some ans)
        with True 1 Cons.prems(3) range session_step_answer [OF Cons.prems(4), of p "message_of m"]
        show ?thesis
          by (intro settled [of "Value (Some ans)"])
             (simp_all add: hub hub_message_def, simp_all add: hub_of_def)
      qed
    next
      case False
      with 1 show ?thesis by (intro skips) simp_all
    qed
  next
    case (2 b)
    then show ?thesis by (intro skips) simp_all
  next
    case (3 b err)
    show ?thesis
    proof (cases "b = a")
      case True
      with 3 p range show ?thesis
        by (intro settled [of "Exception err"])
           (simp_all add: hub hub_close_def, simp_all add: hub_of_def session_waiter)
    next
      case False
      with 3 show ?thesis by (intro skips) simp_all
    qed
  next
    case (4 b)
    show ?thesis
    proof (cases "b = a")
      case True
      with 4 p range show ?thesis
        by (intro settled [of "Value None"])
           (simp_all add: hub hub_close_def, simp_all add: hub_of_def session_waiter)
    next
      case False
      with 4 show ?thesis by (intro skips) simp_all
    qed
  qed
qed

section \<open>The thread\<close>

lemma serial_dispatch:
  "serial dispatch_item pipe_op_item (Inr d) hist = rfold disp_event d hist"
proof (induction hist rule: rev_induct)
  case Nil
  show ?case by simp
next
  case (snoc x hist)
  have last: "rfold disp_event s [x] = disp_event s x" for s
    by (cases "disp_event s x") simp_all
  show ?case
  proof (cases x)
    case (Inl m)
    with snoc show ?thesis
      by (cases "rfold disp_event d hist") (simp_all add: rfold_append last dispatch_item_def)
  next
    case (Inr op)
    with snoc show ?thesis
      by (cases "rfold disp_event d hist") (simp_all add: rfold_append last pipe_op_item_def)
  qed
qed

interpretation dispatching: queue_processor dispatch_item pipe_op_item "Inr new_dispatcher"
  "\<lambda>_ r. \<exists>d. r = Inr d \<and> disp_inv d" "\<lambda>ms. \<forall>m \<in> set ms. readable m"
proof
  fix xs and r :: "dispatcher result" and x op
  assume "\<exists>d. r = Inr d \<and> disp_inv d"
  then obtain d where d: "r = Inr d" "disp_inv d" by blast
  from pipe_op_step_ok [OF d(2), of op] d(1) show "\<exists>d. pipe_op_item r op = Inr d \<and> disp_inv d"
    by (auto simp: pipe_op_item_def)
  assume "\<forall>m \<in> set (xs @ [x]). readable m"
  then have "readable_history [Inl x]" by simp
  from disp_event_ok [OF d(2) this] d(1) show "\<exists>d. dispatch_item r x = Inr d \<and> disp_inv d"
    by (auto simp: dispatch_item_def)
qed (simp_all add: disp_inv_new)

section \<open>The end of the object\<close>

text \<open>An event changes the promise map by at most one \<open>emplace\<close> or \<open>erase\<close>.\<close>

lemma settle_promises: "settle d p s = Inr d' \<Longrightarrow> promise_map d' = promise_map d"
  by (auto simp: settle_def split: if_splits)

lemma dispatch_to_pipe_promises:
  "dispatch_to_pipe d a e = Inr (b, d') \<Longrightarrow>
   promise_map d' = promise_map d \<or> promise_map d' = erase_entry a (promise_map d)"
  by (cases "find_entry (promise_map d) a"; cases "find_entry (event_map d) a")
     (auto simp: dispatch_to_pipe_def rbind_eq_Inr Let_def split_beta dest!: settle_promises
        split: if_splits)

lemma close_pipe_promises:
  "close_pipe d a s = Inr d' \<Longrightarrow>
   promise_map d' = promise_map d \<or> promise_map d' = erase_entry a (promise_map d)"
  by (cases "find_entry (promise_map d) a")
     (auto simp: close_pipe_def rbind_eq_Inr dest!: settle_promises)

lemma disp_event_promises:
  assumes "disp_event d x = Inr d'"
  shows "promise_map d' = promise_map d \<or> (\<exists>a. promise_map d' = erase_entry a (promise_map d)) \<or>
    (\<exists>a p. x = Inr (OpenPipe a) \<and> promise_map d' = emplace_entry a p (promise_map d))"
proof (cases x rule: addressee.cases)
  case (1 m)
  with assms obtain e where e: "dispatch_dict d e = Inr d'"
    by (auto simp: dispatch_event_def rbind_eq_Inr)
  then show ?thesis
    by (cases "get_value e ''ActionID''")
       (auto simp: dispatch_dict_def rbind_eq_Inr notify_def split: if_splits
          dest!: dispatch_to_pipe_promises)
next
  case (2 a)
  with assms have "promise_map d' = emplace_entry a (length (pipes d)) (promise_map d)"
    by (auto simp: get_event_pipe_def Let_def)
  with 2 show ?thesis by blast
qed (use assms in \<open>auto simp: set_exception_on_pipe_def set_null_on_pipe_def dest!: close_pipe_promises\<close>)

lemma promise_keys_distinct:
  assumes "distinct (map fst (promise_map d))" and "disp_event d x = Inr d'"
  shows "distinct (map fst (promise_map d'))"
  using disp_event_promises [OF assms(2)] table.wf_insert_new [OF assms(1)]
    table.wf_remove [OF assms(1)] assms(1) by auto

text \<open>An ID under which nobody opens a pipe stays free.\<close>

lemma stays_free:
  "rfold disp_event d hist = Inr d' \<Longrightarrow> find_entry (promise_map d) a = None \<Longrightarrow>
   Inr (OpenPipe a) \<notin> set hist \<Longrightarrow> find_entry (promise_map d') a = None"
proof (induction hist arbitrary: d)
  case (Cons x hist)
  then obtain d1 where d1: "disp_event d x = Inr d1" "rfold disp_event d1 hist = Inr d'"
    by (auto simp: rbind_eq_Inr)
  from disp_event_promises [OF d1(1)] Cons.prems(2,3) have "find_entry (promise_map d1) a = None"
    by (auto simp: find_emplace find_erase split: if_splits)
  with Cons.IH [OF d1(2)] Cons.prems(3) show ?case by simp
qed simp

lemma settle_all:
  assumes "distinct (map snd ps)" and "\<forall>p \<in> snd ` set ps. p < length (pipes d) \<and> pipes d ! p = Pending"
  shows "\<exists>d'. rfold (\<lambda>d entry. settle d (snd entry) (Value None)) d ps = Inr d' \<and>
    promise_map d' = promise_map d \<and> event_map d' = event_map d \<and> length (pipes d') = length (pipes d) \<and>
    (\<forall>p < length (pipes d). pipes d' ! p = (if p \<in> snd ` set ps then Value None else pipes d ! p))"
  using assms
proof (induction ps arbitrary: d)
  case (Cons e ps)
  obtain a p where e: "e = (a, p)" by fastforce
  let ?d = "d\<lparr>pipes := (pipes d)[p := Value None]\<rparr>"
  from Cons.prems e have "\<forall>q \<in> snd ` set ps. q < length (pipes ?d) \<and> pipes ?d ! q = Pending"
    by (auto simp: nth_list_update)
  from Cons.IH [OF _ this] Cons.prems(1) e obtain d' where
    d': "rfold (\<lambda>d entry. settle d (snd entry) (Value None)) ?d ps = Inr d'"
      "promise_map d' = promise_map d" "event_map d' = event_map d" "length (pipes d') = length (pipes d)"
      "\<forall>q < length (pipes d). pipes d' ! q = (if q \<in> snd ` set ps then Value None else pipes ?d ! q)"
    by auto
  moreover have "settle d (snd e) (Value None) = Inr ?d" using Cons.prems(2) e by (simp add: settle_def)
  ultimately show ?case using e Cons.prems(2) by (auto simp: nth_list_update)
qed simp

lemma cleanup_ok:
  assumes inv: "disp_inv d" and keys: "distinct (map fst (promise_map d))"
  shows "cleanup_object True d = (if Pending \<in> set (pipes d) then Inl AssertFailure else Inr d)"
    "\<exists>d'. cleanup_object False d = Inr d' \<and>
      pipes d' = map (\<lambda>s. if s = Pending then Value None else s) (pipes d)"
proof -
  have entry: "(a, p) \<in> set (promise_map d) \<longleftrightarrow> find_entry (promise_map d) a = Some p" for a p
    using keys by (rule find_entry_mem)
  have entries: "p \<in> snd ` set (promise_map d) \<longleftrightarrow> (\<exists>a. find_entry (promise_map d) a = Some p)" for p
    unfolding entry [symmetric] by force
  have owners: "p \<in> snd ` set (promise_map d) \<longleftrightarrow> pipes d ! p = Pending" if "p < length (pipes d)" for p
    unfolding entries using disp_inv_owner [OF inv that] disp_invD(2) [OF inv] by blast
  have none: "promise_map d = [] \<longleftrightarrow> Pending \<notin> set (pipes d)"
  proof
    assume "promise_map d = []"
    then show "Pending \<notin> set (pipes d)" using disp_inv_owner [OF inv] by (auto simp: in_set_conv_nth)
  next
    assume "Pending \<notin> set (pipes d)"
    then have "find_entry (promise_map d) a \<noteq> Some p" for a p
      using disp_invD(1,2) [OF inv, of a p] nth_mem [of p "pipes d"] by metis
    then show "promise_map d = []" unfolding table_empty_iff by (metis option.exhaust)
  qed
  have "event_map d = []" if "promise_map d = []"
    using disp_inv_list [OF inv] that by (simp add: table_empty_iff)
  with none have "Pending \<notin> set (pipes d) \<Longrightarrow> promise_map d = [] \<and> event_map d = []"
    "Pending \<in> set (pipes d) \<Longrightarrow> promise_map d \<noteq> []" by blast+
  then show "cleanup_object True d = (if Pending \<in> set (pipes d) then Inl AssertFailure else Inr d)"
    by (cases "Pending \<in> set (pipes d)") (simp_all add: cleanup_object_def)
  have "inj_on snd (set (promise_map d))"
  proof (rule inj_onI)
    fix x y
    assume xy: "x \<in> set (promise_map d)" "y \<in> set (promise_map d)" "snd x = snd y"
    have "(fst x, snd x) \<in> set (promise_map d)" using xy(1) by simp
    moreover have "(fst y, snd x) \<in> set (promise_map d)" using xy(2) unfolding xy(3) by simp
    ultimately have "fst y = fst x" unfolding entry by (rule disp_invD(3) [OF inv])
    with xy(3) show "x = y" by (simp add: prod_eq_iff)
  qed
  moreover from keys have "distinct (promise_map d)" by (simp add: distinct_map)
  ultimately have "distinct (map snd (promise_map d))" by (simp add: distinct_map)
  moreover have "\<forall>p \<in> snd ` set (promise_map d). p < length (pipes d) \<and> pipes d ! p = Pending"
    unfolding Ball_def entries using disp_invD(1,2) [OF inv] by blast
  ultimately obtain d' where d': "rfold (\<lambda>d entry. settle d (snd entry) (Value None)) d (promise_map d) = Inr d'"
      "length (pipes d') = length (pipes d)"
      "\<forall>p < length (pipes d). pipes d' ! p =
        (if p \<in> snd ` set (promise_map d) then Value None else pipes d ! p)"
    using settle_all [of "promise_map d" d] by blast
  have "pipes d' = map (\<lambda>s. if s = Pending then Value None else s) (pipes d)"
  proof (rule nth_equalityI)
    fix q
    assume "q < length (pipes d')"
    then have "q < length (pipes d)" by (simp only: d'(2))
    with d'(3) owners [OF this] show "pipes d' ! q = map (\<lambda>s. if s = Pending then Value None else s) (pipes d) ! q"
      by simp
  qed (simp only: d'(2) length_map)
  moreover from d'(1) have "cleanup_object False d = Inr d'" by (simp add: cleanup_object_def)
  ultimately show "\<exists>d'. cleanup_object False d = Inr d' \<and>
      pipes d' = map (\<lambda>s. if s = Pending then Value None else s) (pipes d)" by blast
qed

text \<open>The states the dispatcher can be in.\<close>

definition reachable :: "(string + pipe_op) list \<Rightarrow> dispatcher \<Rightarrow> bool" where
  "reachable hist d \<longleftrightarrow> readable_history hist \<and> rfold disp_event new_dispatcher hist = Inr d"

lemma reachable_inv: "reachable hist d \<Longrightarrow> disp_inv d"
  using history_ok [OF disp_inv_new, of hist] by (auto simp: reachable_def)

lemma reachable_keys: "reachable hist d \<Longrightarrow> distinct (map fst (promise_map d))"
  unfolding reachable_def
  by (elim conjE, erule rfold_inv) (simp add: new_dispatcher_def, rule promise_keys_distinct)

lemma reachable_run:
  assumes "reachable before d" and "readable_history hist" and "rfold disp_event d hist = Inr d'"
  shows "reachable (before @ hist) d'"
  using assms by (auto simp: reachable_def readable_history_def rfold_append)

lemma reachable_new: "reachable [] new_dispatcher"
  by (simp add: reachable_def)

text \<open>Opening a pipe under a free ID starts a session that expects nothing yet.\<close>

lemma open_fresh:
  assumes "disp_inv d" and "find_entry (promise_map d) a = None" and "get_event_pipe d a = (d1, p)"
  shows "disp_inv d1" "session_of d1 a = expecting p []" "p = length (pipes d)"
proof -
  from assms(3) have d1: "d1 = fst (get_event_pipe d a)" by simp
  show p: "p = length (pipes d)" using assms(3) by (simp add: get_event_pipe_def Let_def)
  show "disp_inv d1" unfolding d1 by (rule disp_inv_open [OF assms(1)])
  show "session_of d1 a = expecting p []"
    using assms(2) disp_inv_list [OF assms(1,2)]
    by (simp add: d1 p get_event_pipe_def Let_def session_of_def find_emplace)
qed

text \<open>The messages of a history that carry an action ID, and histories that do not close it.\<close>

definition messages_with :: "string \<Rightarrow> (string + pipe_op) list \<Rightarrow> kvd list" where
  "messages_with a hist =
     filter (\<lambda>e. get_value e ''ActionID'' = Some a) (map message_of (items hist))"

fun closes :: "string \<Rightarrow> string + pipe_op \<Rightarrow> bool" where
  "closes a (Inr (FailPipe b err)) \<longleftrightarrow> b = a"
| "closes a (Inr (NullPipe b)) \<longleftrightarrow> b = a"
| "closes a _ \<longleftrightarrow> False"

lemma answer_stays: "answer es = Some r \<Longrightarrow> answer (es @ fs) = Some r"
proof (cases es)
  case (Cons e gs)
  assume r: "answer es = Some r"
  show ?thesis
  proof (cases "\<forall>x \<in> set gs. \<not> completes x")
    case True
    with r Cons answer_None_iff [of e gs] show ?thesis by (auto split: if_splits)
  next
    case False
    then have "dropWhile (\<lambda>x. \<not> completes x) (gs @ fs) = dropWhile (\<lambda>x. \<not> completes x) gs @ fs"
      "takeWhile (\<lambda>x. \<not> completes x) (gs @ fs) = takeWhile (\<lambda>x. \<not> completes x) gs"
      "dropWhile (\<lambda>x. \<not> completes x) gs \<noteq> []"
      by (auto simp: dropWhile_append takeWhile_append)
    with r Cons show ?thesis
      by (cases "dropWhile (\<lambda>x. \<not> completes x) gs") (simp_all split: if_splits)
  qed
qed simp

lemma verdict_answer:
  "answer es = None \<Longrightarrow> \<forall>x \<in> set hist. \<not> closes a x \<Longrightarrow>
   verdict a es hist =
     (case answer (es @ messages_with a hist) of None \<Rightarrow> Pending | Some r \<Rightarrow> Value (Some r))"
proof (induction a es hist rule: verdict.induct)
  case (2 a es m hist)
  show ?case
  proof (cases "get_value (message_of m) ''ActionID'' = Some a")
    case True
    then have split: "es @ messages_with a (Inl m # hist) = (es @ [message_of m]) @ messages_with a hist"
      by (simp add: messages_with_def)
    show ?thesis
    proof (cases "answer (es @ [message_of m])")
      case None
      with 2 True split show ?thesis by simp
    next
      case (Some r)
      from answer_stays [OF Some] True Some show ?thesis unfolding split by simp
    qed
  next
    case False
    with 2 show ?thesis by (simp add: messages_with_def)
  qed
qed (simp_all add: messages_with_def)

text \<open>The future of a pipe that nobody closes.\<close>

lemma answer_ready:
  assumes "disp_inv d" and "find_entry (promise_map d) a = None" and "get_event_pipe d a = (d1, p)"
    and "readable_history hist" and "\<forall>x \<in> set hist. \<not> closes a x"
    and "rfold disp_event d1 hist = Inr d'"
  shows "future_get d' p = map_option (\<lambda>r. Inr (Some r)) (answer (messages_with a hist))"
proof -
  note fresh = open_fresh [OF assms(1-3)]
  have "find_entry (promise_map d1) a = Some p" using fresh(2) session_waiter [of d1 a] by simp
  with disp_invD(1) [OF fresh(1)] have "p < length (pipes d1)" by blast
  with run_length [OF fresh(1) assms(4,6)] verdict_holds [OF fresh(1) assms(4) fresh(2) _ assms(6)]
    verdict_answer [of "[]" hist a] assms(5)
  show ?thesis by (simp add: future_get_def split: option.split)
qed

text \<open>Futures are numbered in the order the pipes are opened.\<close>

fun opens :: "pipe_op list \<Rightarrow> nat" where
  "opens [] = 0"
| "opens (OpenPipe a # ops) = Suc (opens ops)"
| "opens (_ # ops) = opens ops"

lemma hub_event_outcomes: "length (outcomes (hub_event h x)) = length (outcomes h) + opens (operations [x])"
  by (cases x rule: addressee.cases)
     (simp_all add: hub_message_def hub_close_def Let_def split_beta split: option.split)

lemma opens_append [simp]: "opens (ops @ ops') = opens ops + opens ops'"
  by (induction ops rule: opens.induct) simp_all

lemma hub_outcomes: "length (outcomes (foldl hub_event h hist)) = length (outcomes h) + opens (operations hist)"
proof (induction hist arbitrary: h)
  case (Cons x hist)
  have "opens (operations (x # hist)) = opens (operations [x]) + opens (operations hist)"
    using operations_append [of "[x]" hist] by simp
  with Cons hub_event_outcomes [of h x] show ?case by simp
qed simp

lemma reachable_pipes: "reachable hist d \<Longrightarrow> length (pipes d) = opens (operations hist)"
proof -
  assume r: "reachable hist d"
  with history_ok [OF disp_inv_new, of hist] have "hub_of d = foldl hub_event (hub_of new_dispatcher) hist"
    by (auto simp: reachable_def)
  from arg_cong [OF this, of outcomes] hub_outcomes [of "hub_of new_dispatcher" hist]
  show ?thesis by (simp add: hub_of_def new_dispatcher_def)
qed

text \<open>The opening of a pipe under an ID that has not been used in the history so far.\<close>

lemma opened_at:
  assumes "reachable (before @ Inr (OpenPipe a) # after) d" and "OpenPipe a \<notin> set (operations before)"
  shows "\<exists>d0 d1. reachable before d0 \<and> find_entry (promise_map d0) a = None \<and>
    get_event_pipe d0 a = (d1, opens (operations before)) \<and>
    rfold disp_event d1 after = Inr d \<and> readable_history after"
proof -
  from assms(1) obtain d0 where d0: "rfold disp_event new_dispatcher before = Inr d0"
    and run: "rfold disp_event d0 (Inr (OpenPipe a) # after) = Inr d"
    and readable: "readable_history before" "readable_history after"
    by (auto simp: reachable_def rfold_append rbind_eq_Inr readable_history_def)
  obtain d1 p where open_pipe: "get_event_pipe d0 a = (d1, p)" by fastforce
  from d0 readable(1) have r0: "reachable before d0" by (simp add: reachable_def)
  from assms(2) have "Inr (OpenPipe a) \<notin> set before" by (simp add: operations_mem)
  from stays_free [OF d0 _ this] have free: "find_entry (promise_map d0) a = None"
    by (simp add: new_dispatcher_def)
  from open_fresh(3) [OF reachable_inv [OF r0] free open_pipe] reachable_pipes [OF r0]
  have "p = opens (operations before)" by simp
  with r0 free open_pipe run readable(2) show ?thesis by auto
qed

text \<open>What a caller gets in a history in which it opens its pipe once the ID is free.\<close>

lemma opened_answer:
  assumes "reachable (before @ Inr (OpenPipe a) # after) d" and "OpenPipe a \<notin> set (operations before)"
    and "\<forall>x \<in> set after. \<not> closes a x"
  shows "future_get d (opens (operations before)) =
    map_option (\<lambda>r. Inr (Some r)) (answer (messages_with a after))"
proof -
  from opened_at [OF assms(1,2)] obtain d0 d1 where d0: "reachable before d0"
      "find_entry (promise_map d0) a = None" "get_event_pipe d0 a = (d1, opens (operations before))"
      "rfold disp_event d1 after = Inr d" "readable_history after" by blast
  show ?thesis by (rule answer_ready [OF reachable_inv [OF d0(1)] d0(2,3,5) assms(3) d0(4)])
qed

end
