(* ===== verification/DispatcherProperties.thy ===== *)
theory DispatcherProperties
  imports EventDispatcher
begin

text \<open>
  The properties of the dispatcher: that it implements its specification, alone and on its thread,
  and what the specification means for a caller that waits for an answer, for the callback, and
  for the destructor.
\<close>

section \<open>Concrete messages for the witnesses\<close>

lemma readable_print: "fits (print_records rs) \<Longrightarrow> readable (print_records rs)"
  by (simp add: readable_def print_records_def suffix_def)

definition reply :: "string \<Rightarrow> string" where
  "reply a = print_records [(''Response'', ''Success''), (''ActionID'', a)]"

definition list_head :: "string \<Rightarrow> string" where
  "list_head a = print_records [(''Response'', ''Success''), (''ActionID'', a), (''EventList'', ''start'')]"

definition list_item :: "string \<Rightarrow> string" where
  "list_item a = print_records [(''Event'', ''Parkinglot''), (''ActionID'', a)]"

definition list_end :: "string \<Rightarrow> string" where
  "list_end a = print_records [(''Event'', ''Done''), (''ActionID'', a), (''EventList'', ''Complete'')]"

lemma sample_readable [simp]:
  "readable (reply ''7'')" "readable (list_head ''7'')" "readable (list_item ''7'')"
  "readable (list_end ''7'')" "readable (reply ''8'')"
  unfolding reply_def list_head_def list_item_def list_end_def
  by (rule readable_print, simp add: fits_def max_size_def print_records_def SEP_def EOR_def)+

lemma reply_facts:
  "get_value (message_of (reply ''7'')) ''ActionID'' = Some ''7''"
  "get_value (message_of (reply ''8'')) ''ActionID'' = Some ''8''"
  "\<not> has_key (message_of (reply ''7'')) ''EventList''"
  by code_simp+

lemma list_facts:
  "get_value (message_of (list_head ''7'')) ''ActionID'' = Some ''7''"
  "get_value (message_of (list_item ''7'')) ''ActionID'' = Some ''7''"
  "get_value (message_of (list_end ''7'')) ''ActionID'' = Some ''7''"
  "has_key (message_of (list_head ''7'')) ''EventList''"
  "accepted (message_of (list_head ''7''))"
  "\<not> completes (message_of (list_item ''7''))"
  "completes (message_of (list_end ''7''))"
  by code_simp+

section \<open>Refinement\<close>

definition new_hub :: hub where
  "new_hub = \<lparr>sessions = (\<lambda>_. Idle), outcomes = [], passed_on = []\<rparr>"

lemma hub_of_new: "hub_of new_dispatcher = new_hub"
  by (simp add: hub_of_def new_dispatcher_def new_hub_def session_of_def fun_eq_iff)

text \<open>C11. The dispatcher implements one session per action ID: after any sequence of messages and
  pipe operations no exception was thrown and no promise set twice, its two maps and its pipes
  are those of the sessions, the promises in the map are exactly the unsettled ones, and a list
  is kept only for an ID that somebody waits for.\<close>

theorem dispatcher_refines:
  assumes "readable_history hist"
  shows "\<exists>d. rfold disp_event new_dispatcher hist = Inr d \<and> disp_inv d \<and>
    hub_of d = foldl hub_event new_hub hist"
  using history_ok [OF disp_inv_new assms] by (simp add: hub_of_new)

theorem dispatcher_refines_witness:
  "\<exists>d. rfold disp_event new_dispatcher [Inr (OpenPipe ''7''), Inl (reply ''7'')] = Inr d \<and>
    pipes d = [Value (Some (EventReaction (message_of (reply ''7''))))]"
proof -
  have "readable_history [Inr (OpenPipe ''7''), Inl (reply ''7'')]" by simp
  from dispatcher_refines [OF this] obtain d where
    d: "rfold disp_event new_dispatcher [Inr (OpenPipe ''7''), Inl (reply ''7'')] = Inr d"
      "hub_of d = foldl hub_event new_hub [Inr (OpenPipe ''7''), Inl (reply ''7'')]" by blast
  from d(2) have "outcomes (hub_of d) = [Value (Some (EventReaction (message_of (reply ''7''))))]"
    by (simp add: hub_message_def new_hub_def reply_facts Let_def)
  with d(1) show ?thesis by (simp add: hub_of_def)
qed

lemma dispatcher_history:
  assumes "wreach dispatch_item pipe_op_item (Inr new_dispatcher) tr w"
    and "\<forall>m \<in> set (added tr). readable m"
  shows "\<exists>hist d. added tr = items hist @ pending w \<and> external tr = operations hist \<and>
    obj w = Inr d \<and> reachable hist d \<and> hub_of d = foldl hub_event new_hub hist"
proof -
  obtain hist where hist: "added tr = items hist @ pending w" "external tr = operations hist"
      "obj w = serial dispatch_item pipe_op_item (Inr new_dispatcher) hist"
    using worker_fifo [OF assms(1)] by metis
  from hist(1) assms(2) have "\<forall>m \<in> set (items hist). readable m" by simp
  then have r: "readable_history hist" by (simp add: readable_history_def)
  from dispatching.good_serial [of hist] hist(1,3) assms(2) obtain d where
    d: "obj w = Inr d" by auto
  with hist(3) have run: "rfold disp_event new_dispatcher hist = Inr d" by (simp add: serial_dispatch)
  with history_ok [OF disp_inv_new r] have "hub_of d = foldl hub_event new_hub hist"
    by (simp add: hub_of_new)
  with hist(1,2) d r run show ?thesis by (auto simp: reachable_def)
qed

text \<open>The same on the work thread, in any interleaving of the parser that adds messages, the
  callers that open and close pipes, the thread and the destructor: no exception leaves the
  thread, and the object is that of a serial history of the messages in the order they were
  added and the pipe operations in theirs.\<close>

theorem dispatcher_thread_refines:
  assumes "wreach dispatch_item pipe_op_item (Inr new_dispatcher) tr w"
    and "\<forall>m \<in> set (added tr). readable m"
  shows "\<exists>hist d. added tr = items hist @ pending w \<and> external tr = operations hist \<and>
    obj w = Inr d \<and> reachable hist d \<and> hub_of d = foldl hub_event new_hub hist"
  by (rule dispatcher_history [OF assms])

theorem dispatcher_thread_refines_witness:
  "\<exists>tr w hist d. wreach dispatch_item pipe_op_item (Inr new_dispatcher) tr w \<and>
    added tr = [reply ''7''] \<and> added tr = items hist @ pending w \<and> obj w = Inr d \<and> reachable hist d"
proof -
  have r: "wreach dispatch_item pipe_op_item (Inr new_dispatcher) [Add (reply ''7'')]
      ((start_worker (Inr new_dispatcher))\<lparr>queue := [reply ''7'']\<rparr>)" by (rule add_reach)
  have "\<forall>m \<in> set (added [Add (reply ''7'') :: (string, pipe_op) wlabel]). readable m" by simp
  from dispatcher_thread_refines [OF r this] r show ?thesis by fastforce
qed

section \<open>What a caller gets\<close>

text \<open>C19. What a caller that waits gets is decided by the messages with its action ID and by the
  closing operations on it, whichever settles the pipe first: no message with another ID, no
  other caller and nothing that comes later has any influence.\<close>

theorem waiter_verdict:
  assumes "reachable before d" and "find_entry (promise_map d) a = None"
    and "get_event_pipe d a = (d1, p)" and "readable_history hist"
  shows "\<exists>d'. rfold disp_event d1 hist = Inr d' \<and> p < length (pipes d') \<and>
    pipes d' ! p = verdict a [] hist"
proof -
  note inv = reachable_inv [OF assms(1)]
  note fresh = open_fresh [OF inv assms(2,3)]
  from history_ok [OF fresh(1) assms(4)] obtain d' where d': "rfold disp_event d1 hist = Inr d'"
    by blast
  have "find_entry (promise_map d1) a = Some p" using fresh(2) session_waiter [of d1 a] by simp
  with disp_invD(1) [OF fresh(1)] have "p < length (pipes d1)" by blast
  also have "\<dots> \<le> length (pipes d')" by (rule run_length [OF fresh(1) assms(4) d'])
  finally show ?thesis using verdict_holds [OF fresh(1) assms(4) fresh(2) _ d'] d' by simp
qed

theorem waiter_verdict_witness:
  "\<exists>d'. rfold disp_event (fst (get_event_pipe new_dispatcher ''7''))
      [Inl (reply ''8''), Inr (FailPipe ''7'' (RuntimeError ''Event timeout'')), Inl (reply ''7'')] = Inr d' \<and>
    pipes d' ! 0 = Exception (RuntimeError ''Event timeout'')"
proof -
  let ?hist = "[Inl (reply ''8''), Inr (FailPipe ''7'' (RuntimeError ''Event timeout'')), Inl (reply ''7'')]"
  have h2: "find_entry (promise_map new_dispatcher) ''7'' = None" by (simp add: new_dispatcher_def)
  have h3: "get_event_pipe new_dispatcher ''7'' = (fst (get_event_pipe new_dispatcher ''7''), 0)"
    by (simp add: get_event_pipe_def new_dispatcher_def)
  have h4: "readable_history ?hist" by simp
  have "verdict ''7'' [] ?hist = Exception (RuntimeError ''Event timeout'')"
    by (simp add: reply_facts)
  with waiter_verdict [OF reachable_new h2 h3 h4] show ?thesis by auto
qed

text \<open>A caller gets its answer: as long as nobody closes its pipe, the pipe stays unsettled until
  the messages with its ID make an answer, and then holds that answer for good: the single event,
  or the refused list, or the list with its head, every event in between in order, and its tail.\<close>

theorem waiter_gets_answer:
  assumes "reachable before d" and "find_entry (promise_map d) a = None"
    and "get_event_pipe d a = (d1, p)" and "readable_history hist"
    and "\<forall>x \<in> set hist. \<not> closes a x"
  shows "\<exists>d'. rfold disp_event d1 hist = Inr d' \<and>
    future_get d' p = map_option (\<lambda>r. Inr (Some r)) (answer (messages_with a hist))"
proof -
  note inv = reachable_inv [OF assms(1)]
  note fresh = open_fresh [OF inv assms(2,3)]
  from history_ok [OF fresh(1) assms(4)] obtain d' where d': "rfold disp_event d1 hist = Inr d'"
    by blast
  with answer_ready [OF inv assms(2-5)] show ?thesis by blast
qed

theorem waiter_gets_answer_witness:
  "\<exists>d'. rfold disp_event (fst (get_event_pipe new_dispatcher ''7''))
      [Inl (list_head ''7''), Inl (list_item ''7''), Inl (reply ''8''), Inl (list_end ''7'')] = Inr d' \<and>
    future_get d' 0 = Some (Inr (Some (ListReaction
      \<lparr>head_event = message_of (list_head ''7''), tail_event = Some (message_of (list_end ''7'')),
       body_events = [message_of (list_item ''7'')]\<rparr>)))"
proof -
  let ?hist = "[Inl (list_head ''7''), Inl (list_item ''7''), Inl (reply ''8''), Inl (list_end ''7'')]"
  have h2: "find_entry (promise_map new_dispatcher) ''7'' = None" by (simp add: new_dispatcher_def)
  have h3: "get_event_pipe new_dispatcher ''7'' = (fst (get_event_pipe new_dispatcher ''7''), 0)"
    by (simp add: get_event_pipe_def new_dispatcher_def)
  have h4: "readable_history ?hist" and h5: "\<forall>x \<in> set ?hist. \<not> closes ''7'' x" by simp_all
  have "messages_with ''7'' ?hist =
      [message_of (list_head ''7''), message_of (list_item ''7''), message_of (list_end ''7'')]"
    by (simp add: messages_with_def list_facts reply_facts)
  with waiter_gets_answer [OF reachable_new h2 h3 h4 h5] show ?thesis by (simp add: list_facts)
qed

text \<open>C25. A pipe settles once: a result that a future can get stays the same whatever happens
  afterwards, so a caller that comes late to its future gets what it would have got at once.\<close>

theorem pipe_settles_once:
  assumes "reachable before d" and "readable_history hist" and "future_get d p = Some r"
  shows "\<exists>d'. rfold disp_event d hist = Inr d' \<and> future_get d' p = Some r"
proof -
  note inv = reachable_inv [OF assms(1)]
  from history_ok [OF inv assms(2)] obtain d' where "rfold disp_event d hist = Inr d'" by blast
  with futures.run_ready [OF inv readable_each [OF assms(2)] this assms(3)] show ?thesis by blast
qed

theorem pipe_settles_once_witness:
  "\<exists>d d'. reachable [Inr (OpenPipe ''7''), Inr (NullPipe ''7'')] d \<and> future_get d 0 = Some (Inr None) \<and>
    rfold disp_event d [Inl (reply ''7'')] = Inr d' \<and> future_get d' 0 = Some (Inr None)"
proof -
  let ?hist = "[Inr (OpenPipe ''7''), Inr (NullPipe ''7'')]"
  let ?d = "\<lparr>promise_map = [], event_map = [], pipes = [Value None], notified = []\<rparr>"
  have h1: "reachable ?hist ?d"
    by (simp add: reachable_def new_dispatcher_def get_event_pipe_def set_null_on_pipe_def
        close_pipe_def settle_def emplace_entry_def erase_entry_def)
  have h2: "readable_history [Inl (reply ''7'')]" by simp
  have h3: "future_get ?d 0 = Some (Inr None)" by (simp add: future_get_def)
  from pipe_settles_once [OF h1 h2 h3] h1 h3 show ?thesis by blast
qed

section \<open>Messages nobody waits for, duplicate IDs, the destructor\<close>




text \<open>C32. The destructor. With assertions compiled in it aborts exactly when a pipe is unsettled, so
  the null pointers it means to send are never sent; without them it sends one to every
  unsettled pipe, changes no other, and never sets a promise twice.\<close>

theorem cleanup_settles:
  assumes "reachable hist d"
  shows "cleanup_object True d = (if Pending \<in> set (pipes d) then Inl AssertFailure else Inr d) \<and>
    (\<exists>d'. cleanup_object False d = Inr d' \<and>
       pipes d' = map (\<lambda>s. if s = Pending then Value None else s) (pipes d))"
  using cleanup_ok [OF reachable_inv [OF assms] reachable_keys [OF assms]] by blast

theorem cleanup_settles_witness:
  "reachable [Inr (OpenPipe ''7'')] (fst (get_event_pipe new_dispatcher ''7'')) \<and>
   cleanup_object True (fst (get_event_pipe new_dispatcher ''7'')) = Inl AssertFailure"
proof -
  have h: "reachable [Inr (OpenPipe ''7'')] (fst (get_event_pipe new_dispatcher ''7''))"
    by (simp add: reachable_def)
  moreover have "Pending \<in> set (pipes (fst (get_event_pipe new_dispatcher ''7'')))"
    by (simp add: get_event_pipe_def new_dispatcher_def)
  ultimately show ?thesis using cleanup_settles [OF h] by simp
qed

section \<open>The shape of what is delivered\<close>














end
