(* ===== verification/ScopeGuard.thy ===== *)
theory ScopeGuard
  imports Prelude "HOL-Library.Multiset"
begin

text \<open>
  \<open>util::ScopeGuard\<close> (\<open>src/util/ScopeGuard.cpp\<close>): an object that runs a callback when it is
  destroyed. A callback is its effect on the state \<open>'w\<close> of the program around it. Destroying the
  guards of a scope is running their callbacks in the reverse order of their construction.
\<close>

record 'w scope_guard =
  callback :: "'w \<Rightarrow> 'w"

definition new_guard :: "('w \<Rightarrow> 'w) \<Rightarrow> 'w scope_guard" where
  "new_guard func = \<lparr>callback = func\<rparr>"

text \<open>
  \<open>operator=\<close> on an rvalue: \<open>std::exchange\<close> leaves the empty lambda in \<open>right\<close>. The result is the
  assigned object and \<open>right\<close> afterwards.
\<close>

definition move_assign ::
    "'w scope_guard \<Rightarrow> 'w scope_guard \<Rightarrow> 'w scope_guard \<times> 'w scope_guard" where
  "move_assign this right = (this\<lparr>callback := callback right\<rparr>, right\<lparr>callback := (\<lambda>w. w)\<rparr>)"

text \<open>
  The move constructor assigns to an object whose callback is empty; nothing runs it before the
  assignment, so it is given here as the callback that does nothing.
\<close>

definition move_construct :: "'w scope_guard \<Rightarrow> 'w scope_guard \<times> 'w scope_guard" where
  "move_construct right = move_assign \<lparr>callback = (\<lambda>w. w)\<rparr> right"

definition destroy :: "'w scope_guard \<Rightarrow> 'w \<Rightarrow> 'w" where
  "destroy g w = callback g w"

text \<open>Leaving a scope; the guards are given in the order of their construction.\<close>

definition leave_scope :: "'w scope_guard list \<Rightarrow> 'w \<Rightarrow> 'w" where
  "leave_scope gs w = foldl (\<lambda>w g. destroy g w) w (rev gs)"

text \<open>A guard that is moved \<open>n\<close> times: all the objects, the last one last.\<close>

fun move_chain :: "nat \<Rightarrow> 'w scope_guard \<Rightarrow> 'w scope_guard list" where
  "move_chain 0 g = [g]"
| "move_chain (Suc n) g = (let (g', old) = move_construct g in old # move_chain n g')"

section \<open>Properties of the scope guard\<close>

abbreviation idle_guard :: "'w scope_guard" where
  "idle_guard \<equiv> \<lparr>callback = (\<lambda>w. w)\<rparr>"

lemma leave_scope_simps [simp]:
  "leave_scope [] w = w"
  "leave_scope (gs @ [g]) w = leave_scope gs (destroy g w)"
  by (simp_all add: leave_scope_def)

lemma move_chain_guards: "move_chain n (new_guard f) = replicate n idle_guard @ [new_guard f]"
  by (induction n) (simp_all add: move_construct_def move_assign_def new_guard_def)

lemma destroy_idle [simp]: "destroy idle_guard w = w"
  by (simp add: destroy_def)

lemma destroy_idles: "set gs \<subseteq> {idle_guard} \<Longrightarrow> foldl (\<lambda>w g. destroy g w) w gs = w"
  by (induction gs arbitrary: w) auto

lemma destroy_one:
  assumes "mset gs = mset (replicate n idle_guard @ [g])"
  shows "foldl (\<lambda>w g. destroy g w) w gs = destroy g w"
proof -
  from assms have "g \<in> set gs" by (metis in_set_conv_decomp set_mset_mset)
  then obtain xs ys where gs: "gs = xs @ g # ys" by (meson split_list)
  with assms have "mset (xs @ ys) = mset (replicate n idle_guard)" by simp
  then have "set (xs @ ys) \<subseteq> {idle_guard}" by (metis mset_eq_setD set_replicate_conv_if empty_subsetI order_refl)
  then show ?thesis by (simp add: gs destroy_idles)
qed

text \<open>A guarded callback runs exactly once, however often the guard is moved on and in whatever
  order all the objects it went through are destroyed; and assigning over a guard drops the
  callback it held, which then never runs.\<close>

theorem guard_runs_once:
  assumes "mset gs = mset (move_chain n (new_guard f))"
  shows "foldl (\<lambda>w g. destroy g w) w gs = f w \<and>
    (let (this', right') = move_assign (new_guard h) (new_guard f)
     in destroy right' (destroy this' w) = f w \<and> destroy this' (destroy right' w) = f w)"
  using destroy_one [of gs n "new_guard f" w] assms
  by (simp add: move_chain_guards) (simp add: move_assign_def new_guard_def destroy_def)

theorem guard_runs_once_witness:
  "foldl (\<lambda>w g. destroy g w) (0::nat) (rev (move_chain 2 (new_guard Suc))) = 1"
proof -
  have "mset (rev (move_chain 2 (new_guard Suc))) = mset (move_chain 2 (new_guard Suc))" by simp
  from guard_runs_once [OF this, of 0] show ?thesis by simp
qed

end
