(* ===== verification/Net.thy ===== *)
theory Net
  imports ScopeGuard "HOL-Library.Word" "HOL-Library.Signed_Division"
begin

text \<open>
  \<open>net::TcpSocket\<close>, \<open>net::SocketReader\<close> and \<open>net::SocketWriter\<close> (\<open>src/net/*.cpp\<close>). The calls to
  the operating system and to the resolver are parameters: a record of what each returns. The
  sequence of calls, their arguments, the tests of their results and the resources held at each
  point are the code's.
\<close>

section \<open>Opening a socket\<close>

text \<open>\<open>resolved\<close> is what \<open>ai_addr\<close> of the first result is: absent, an address of one of the two
  families the code knows, or of another. The port is written into the address.\<close>

datatype address = NoAddress | Inet "16 word" | Inet6 "16 word" | OtherFamily

record os_calls =
  socket_call :: int
  resolve :: "string \<Rightarrow> (nat \<times> address) option"
  connect_call :: "int \<Rightarrow> address \<Rightarrow> int"
  errno_text :: string

text \<open>
  The process around the call: the open descriptors, the address lists not yet freed, and
  the local variable \<open>sock_fd\<close>, which the first guard captures by reference.
\<close>

record world =
  fds :: "int list"
  infos :: "nat list"
  sock_var :: int

definition close_fd :: "int \<Rightarrow> world \<Rightarrow> world" where
  "close_fd fd w = w\<lparr>fds := remove1 fd (fds w)\<rparr>"

definition sock_fd_scope :: "world scope_guard" where
  "sock_fd_scope = new_guard (\<lambda>w. if sock_var w \<noteq> -1 then close_fd (sock_var w) w else w)"

definition addrinfo_scope :: "nat \<Rightarrow> world scope_guard" where
  "addrinfo_scope res = new_guard (\<lambda>w. w\<lparr>infos := remove1 res (infos w)\<rparr>)"

text \<open>\<open>htons\<close> on a little-endian machine.\<close>

definition htons :: "16 word \<Rightarrow> 16 word" where
  "htons x = or (push_bit 8 x) (drop_bit 8 x)"

definition invalid_hostname :: "string \<Rightarrow> cpp_error" where
  "invalid_hostname hostname = RuntimeError (''Invalid hostname '' @ hostname)"

definition set_port :: "16 word \<Rightarrow> address \<Rightarrow> address option" where
  "set_port port addr =
     (case addr of
        Inet _ \<Rightarrow> Some (Inet (htons port))
      | Inet6 _ \<Rightarrow> Some (Inet6 (htons port))
      | _ \<Rightarrow> None)"

definition tcp_open :: "os_calls \<Rightarrow> string \<Rightarrow> 16 word \<Rightarrow> world \<Rightarrow> int result \<times> world" where
  "tcp_open os hostname port w0 =
     (let sock_fd = socket_call os in
      if sock_fd = -1 then (Inl (RuntimeError (''Error opening socket: '' @ errno_text os)), w0)
      else
        let w1 = w0\<lparr>fds := sock_fd # fds w0, sock_var := sock_fd\<rparr> in
        case resolve os hostname of
          None \<Rightarrow> (Inl (invalid_hostname hostname), leave_scope [sock_fd_scope] w1)
        | Some (res, ai_addr) \<Rightarrow>
            let w2 = w1\<lparr>infos := res # infos w1\<rparr>;
                leave = leave_scope [sock_fd_scope, addrinfo_scope res] in
            if ai_addr = NoAddress then (Inl (invalid_hostname hostname), leave w2)
            else case set_port port ai_addr of
                None \<Rightarrow> (Inl (RuntimeError (''Invalid address for hostname '' @ hostname)), leave w2)
              | Some addr \<Rightarrow>
                  if connect_call os sock_fd addr = -1
                  then (Inl (RuntimeError (''Unable to connect socket: '' @ errno_text os)), leave w2)
                  else (Inr (sock_var w2), leave (w2\<lparr>sock_var := -1\<rparr>)))"

text \<open>The constructor opens the socket in its initialiser and checks its arguments afterwards.\<close>

definition tcp_construct :: "os_calls \<Rightarrow> string \<Rightarrow> 16 word \<Rightarrow> world \<Rightarrow> int result \<times> world" where
  "tcp_construct os hostname port w =
     (case tcp_open os hostname port w of
        (Inl err, w') \<Rightarrow> (Inl err, w')
      | (Inr sock_fd, w') \<Rightarrow>
          if hostname = [] then (Inl (InvalidArgument ''Invalid hostname''), w')
          else if port = 0 then (Inl (OutOfRange ''Invalid port''), w')
          else (Inr sock_fd, w'))"

definition tcp_close :: "int \<Rightarrow> world \<Rightarrow> world" where
  "tcp_close sock_fd w = (if sock_fd \<noteq> -1 then close_fd sock_fd w else w)"

text \<open>The destructor: the descriptor afterwards and the world.\<close>

definition tcp_destruct :: "int \<Rightarrow> world \<Rightarrow> int \<times> world" where
  "tcp_destruct sock_fd w = (-1, tcp_close sock_fd w)"

section \<open>Reading and writing\<close>

text \<open>
  \<open>poll\<close> is given its timeout in milliseconds as an \<open>int\<close>, negative for no limit, and returns its
  result and the returned events; \<open>recv\<close> is given the size of the buffer and returns the error
  text or the bytes it stored.
\<close>

definition POLLIN :: "16 word" where
  "POLLIN = 1"

record io_calls =
  poll_call :: "32 word \<Rightarrow> int \<times> 16 word"
  recv_call :: "nat \<Rightarrow> string + string"
  send_call :: "string \<Rightarrow> string + nat"
  io_errno :: string

text \<open>\<open>static_cast<int>(std::max(timeout.count(), {0}))\<close>, the count having 64 bits.\<close>

definition poll_timeout :: "64 word \<Rightarrow> 32 word" where
  "poll_timeout millis = ucast (if 0 \<le> sint millis then millis else 0)"

text \<open>\<open>std::clamp (buf_size, {1024}, {65535})\<close>.\<close>

definition clamp_size :: "16 word \<Rightarrow> 16 word" where
  "clamp_size buf_size =
     (if buf_size < 1024 then 1024 else if 65535 < buf_size then 65535 else buf_size)"

definition error_reading :: "string \<Rightarrow> cpp_error" where
  "error_reading text = RuntimeError (''Error reading socket: '' @ text)"

definition tcp_read :: "io_calls \<Rightarrow> int \<Rightarrow> 16 word \<Rightarrow> 64 word \<Rightarrow> string result" where
  "tcp_read io sock_fd buf_size timeout =
     (if sock_fd = -1 then Inr []
      else
        let (ret, revents) = poll_call io (poll_timeout timeout) in
        if ret = -1 then Inl (error_reading (io_errno io))
        else if ret = 0 then Inr []
        else if revents \<noteq> POLLIN then Inr []
        else
          let size = unat (clamp_size buf_size) in
          case recv_call io size of
            Inl text \<Rightarrow> Inl (error_reading text)
          | Inr received \<Rightarrow>
              let buffer = received @ replicate (size - length received) (CHR 0x00)
              in Inr (take (length received) buffer))"

text \<open>What \<open>send\<close> took is not looked at beyond the error; the result is what went out.\<close>

definition tcp_write :: "io_calls \<Rightarrow> int \<Rightarrow> string \<Rightarrow> string result" where
  "tcp_write io sock_fd data =
     (if data = [] then Inr []
      else if sock_fd = -1 then Inr []
      else case send_call io data of
          Inl text \<Rightarrow> Inl (RuntimeError (''Error writing socket: '' @ text))
        | Inr sent \<Rightarrow> Inr (take sent data))"

section \<open>The reader's thread and the writer\<close>

text \<open>
  One round per element: the flag as the \<open>while\<close> finds it and the result of the read. \<open>Reading\<close>: the
  rounds given are over and the thread goes on; \<open>Crashed\<close>: an exception left the thread.
\<close>

datatype reader_end = Reading | Stopped | Crashed cpp_error

fun reader_work_thread :: "(bool \<times> string result) list \<Rightarrow> string list \<times> reader_end" where
  "reader_work_thread [] = ([], Reading)"
| "reader_work_thread ((thread_spin, r) # rounds) =
     (if \<not> thread_spin then ([], Stopped)
      else case r of
          Inl err \<Rightarrow> ([], Crashed err)
        | Inr buf \<Rightarrow>
            let (calls, e) = reader_work_thread rounds
            in (if buf \<noteq> [] then buf # calls else calls, e))"

text \<open>The default arguments of \<open>read\<close>, which the reader uses.\<close>

definition reader_read :: "io_calls \<Rightarrow> int \<Rightarrow> string result" where
  "reader_read io sock_fd = tcp_read io sock_fd 4096 500"

text \<open>The constructor of the writer; the socket is \<open>None\<close> when the shared pointer is null.\<close>

definition new_writer :: "int option \<Rightarrow> int result" where
  "new_writer socket = (case socket of None \<Rightarrow> Inl AssertFailure | Some sock_fd \<Rightarrow> Inr sock_fd)"

definition socket_write :: "io_calls \<Rightarrow> int \<Rightarrow> string \<Rightarrow> string result" where
  "socket_write io sock_fd buf = tcp_write io sock_fd buf"

section \<open>Properties of the network layer\<close>

lemma leave_open_scope:
  "leave_scope [sock_fd_scope, addrinfo_scope res] w =
     (if sock_var w = -1 then w\<lparr>infos := remove1 res (infos w)\<rparr>
      else w\<lparr>infos := remove1 res (infos w), fds := remove1 (sock_var w) (fds w)\<rparr>)"
  by (simp add: leave_scope_def destroy_def sock_fd_scope_def addrinfo_scope_def new_guard_def close_fd_def)

lemma open_balance:
  "case tcp_open os hostname port w of
     (Inl err, w') \<Rightarrow> fds w' = fds w \<and> infos w' = infos w
   | (Inr fd, w') \<Rightarrow> fds w' = fd # fds w \<and> infos w' = infos w \<and> fd = socket_call os \<and> fd \<noteq> -1"
proof (cases "socket_call os = -1")
  case True
  then show ?thesis by (simp add: tcp_open_def)
next
  case False
  show ?thesis
  proof (cases "resolve os hostname")
    case None
    with False show ?thesis
      by (simp add: tcp_open_def leave_scope_def destroy_def sock_fd_scope_def new_guard_def close_fd_def)
  next
    case (Some r)
    obtain res ai_addr where r: "r = (res, ai_addr)" by fastforce
    show ?thesis
      using False Some
      by (cases "set_port port ai_addr")
         (simp_all add: tcp_open_def r Let_def leave_open_scope)
  qed
qed

text \<open>Opening a socket keeps its resources in balance on every path: the address list is freed,
  and the descriptor is closed on every failure after it was opened and handed out, still open,
  on success.\<close>

theorem open_balances:
  "case tcp_open os hostname port w of
     (Inl err, w') \<Rightarrow> fds w' = fds w \<and> infos w' = infos w
   | (Inr fd, w') \<Rightarrow> fds w' = fd # fds w \<and> infos w' = infos w \<and> fd = socket_call os \<and> fd \<noteq> -1"
  by (rule open_balance)

text \<open>A socket object holds one descriptor, which its destructor closes. A constructor that throws
  leaves none behind, except when the socket was opened before the arguments were found invalid:
  then the descriptor is never closed.\<close>

theorem construct_and_destruct:
  "case tcp_construct os hostname port w of
     (Inr fd, w') \<Rightarrow> hostname \<noteq> [] \<and> port \<noteq> 0 \<and> fds (snd (tcp_destruct fd w')) = fds w
   | (Inl err, w') \<Rightarrow> fds w' =
       (if isl (fst (tcp_open os hostname port w)) then fds w else socket_call os # fds w)"
proof -
  obtain r w' where o: "tcp_open os hostname port w = (r, w')" by fastforce
  then have f: "isl (fst (tcp_open os hostname port w)) = isl r" by simp
  from open_balance [where os = os and hostname = hostname and port = port and w = w]
  show ?thesis
    unfolding tcp_construct_def f unfolding o
    by (cases r) (auto simp: tcp_destruct_def tcp_close_def close_fd_def)
qed

text \<open>C39. The arguments of the system calls: the buffer has between 1024 and 65535 bytes for every
  requested size, a negative timeout becomes 0, a timeout below \<open>2^31\<close> milliseconds is passed as
  it is, and one from there to \<open>2^32\<close> becomes negative, which for \<open>poll\<close> is no limit.\<close>

theorem read_arguments:
  "1024 \<le> unat (clamp_size n) \<and> unat (clamp_size n) \<le> 65535 \<and>
   (1024 \<le> unat n \<longrightarrow> clamp_size n = n) \<and>
   (sint t < 0 \<longrightarrow> poll_timeout t = 0) \<and>
   (0 \<le> sint t \<and> sint t < 2 ^ 31 \<longrightarrow> sint (poll_timeout t) = sint t) \<and>
   (2 ^ 31 \<le> sint t \<and> sint t < 2 ^ 32 \<longrightarrow> sint (poll_timeout t) = sint t - 2 ^ 32)"
proof -
  have pos: "uint t = sint t" if "0 \<le> sint t"
    using that sint_lt [of t] by (simp add: uint_sint take_bit_int_eq_self)
  have cast: "sint (ucast t :: 32 word) = (sint t + 2 ^ 31) mod 2 ^ 32 - 2 ^ 31" if "0 \<le> sint t"
    using pos [OF that]
    by (simp add: signed_ucast_eq signed_take_bit_eq_take_bit_shift take_bit_eq_mod)
  have "sint (poll_timeout t) = sint t" if "0 \<le> sint t" "sint t < 2 ^ 31"
    using that cast by (simp add: poll_timeout_def)
  moreover have "sint (poll_timeout t) = sint t - 2 ^ 32" if "2 ^ 31 \<le> sint t" "sint t < 2 ^ 32"
  proof -
    have "(sint t + 2 ^ 31) mod 2 ^ 32 = (sint t - 2 ^ 31 + 2 ^ 32) mod 2 ^ 32" by (simp add: add.commute)
    also have "\<dots> = sint t - 2 ^ 31" using that by (simp only: mod_add_self2) simp
    finally show ?thesis using that cast by (simp add: poll_timeout_def)
  qed
  moreover have "1024 \<le> unat (clamp_size n) \<and> unat (clamp_size n) \<le> 65535 \<and>
      (1024 \<le> unat n \<longrightarrow> clamp_size n = n)"
    using unsigned_less [of n, where ?'a = nat] by (auto simp: clamp_size_def word_less_nat_alt)
  ultimately show ?thesis by (simp add: poll_timeout_def)
qed

theorem read_arguments_witness:
  "sint (poll_timeout 500) = 500 \<and> sint (poll_timeout 2147483648) = - 2147483648 \<and>
   poll_timeout (- 1) = 0 \<and> clamp_size 2048 = 2048"
  using read_arguments [of 2048 500] read_arguments [of 2048 2147483648] read_arguments [of 2048 "- 1"]
  by simp

text \<open>The reads made before the thread ends.\<close>

fun reads_of :: "(bool \<times> string result) list \<Rightarrow> string list" where
  "reads_of ((True, Inr buf) # rounds) = buf # reads_of rounds"
| "reads_of _ = []"

text \<open>The reader hands on the stream: as long as it runs, the chunks it passes to its callback are
  the non-empty reads in order, so together they are everything that was received, and none is
  empty; it ends at the first round in which the flag is cleared, or crashes at the first failed
  read.\<close>

theorem reader_hands_on:
  "concat (fst (reader_work_thread rounds)) = concat (reads_of rounds) \<and>
   [] \<notin> set (fst (reader_work_thread rounds)) \<and>
   snd (reader_work_thread rounds) =
     (case drop (length (reads_of rounds)) rounds of
        [] \<Rightarrow> Reading
      | (thread_spin, r) # _ \<Rightarrow> if \<not> thread_spin then Stopped else Crashed (projl r))"
  by (induction rounds rule: reads_of.induct) (simp_all add: split_beta)

text \<open>C40. The reader does not notice that the peer has gone: a \<open>recv\<close> of no bytes and a \<open>poll\<close> that
  reports a hang-up with or without data both read as the empty string, and the thread goes on.\<close>

theorem hang_up_unnoticed:
  assumes "snd (poll_call io (poll_timeout 500)) \<noteq> POLLIN \<or> recv_call io 4096 = Inr []"
    and "fst (poll_call io (poll_timeout 500)) \<noteq> -1"
  shows "reader_work_thread (replicate n (True, reader_read io fd)) = ([], Reading)"
proof -
  have "unat (clamp_size 4096) = 4096" by (simp add: clamp_size_def)
  with assms have "reader_read io fd = Inr []"
    by (cases "poll_call io (poll_timeout 500)") (auto simp: reader_read_def tcp_read_def Let_def)
  then show ?thesis by (induction n) simp_all
qed

theorem hang_up_unnoticed_witness:
  "reader_work_thread (replicate 100 (True, reader_read
     \<lparr>poll_call = (\<lambda>_. (1, 17)), recv_call = (\<lambda>_. Inr ''x''), send_call = (\<lambda>_. Inr 0), io_errno = []\<rparr> 3)) =
   ([], Reading)"
  by (rule hang_up_unnoticed) (simp_all add: POLLIN_def)

end
