(* ===== verification/Connection.thy ===== *)
theory Connection
  imports Actions DispatcherProperties Net
begin

text \<open>
  \<open>Connection\<close> (\<open>src/Connection.cpp\<close>): the callbacks of the client, and \<open>invoke\<close>. Which threads the
  constructor starts and how they are wired together is in the theory \<open>Pipeline\<close>.
\<close>

section \<open>Callbacks\<close>

text \<open>
  A callback is known by a number; \<open>calls\<close> is the list of the calls made: the key of the callback,
  the callback, the event. Each operation holds \<open>callbacks_mutex_\<close>.
\<close>

record connection =
  ami_version :: string
  callbacks :: "(string, nat) table"
  calls :: "(string \<times> nat \<times> ami_event) list"

definition new_connection :: connection where
  "new_connection = \<lparr>ami_version = [], callbacks = [], calls = []\<rparr>"

definition get_ami_version :: "connection \<Rightarrow> string" where
  "get_ami_version c = ami_version c"

definition dispatch_handler :: "connection \<Rightarrow> ami_event \<Rightarrow> connection" where
  "dispatch_handler c dict =
     c\<lparr>calls := calls c @ map (\<lambda>(key, cb). (key, cb, dict)) (callbacks c)\<rparr>"

definition add_callback :: "connection \<Rightarrow> string \<Rightarrow> nat \<Rightarrow> string \<times> connection" where
  "add_callback c uuid cb =
     (let key = create_uuid uuid
      in (key, c\<lparr>callbacks := emplace_entry key cb (callbacks c)\<rparr>))"

definition remove_callback :: "connection \<Rightarrow> string \<Rightarrow> connection" where
  "remove_callback c key = c\<lparr>callbacks := erase_entry key (callbacks c)\<rparr>"

datatype callback_op = AddCallback string nat | RemoveCallback string | Notify ami_event

fun callback_step :: "connection \<Rightarrow> callback_op \<Rightarrow> connection" where
  "callback_step c (AddCallback uuid cb) = snd (add_callback c uuid cb)"
| "callback_step c (RemoveCallback key) = remove_callback c key"
| "callback_step c (Notify e) = dispatch_handler c e"

text \<open>What a key's callback should be called with, \<open>r\<close> being the callback registered under it.\<close>

fun delivered :: "string \<Rightarrow> nat option \<Rightarrow> callback_op list \<Rightarrow> (string \<times> nat \<times> ami_event) list" where
  "delivered k r [] = []"
| "delivered k r (AddCallback uuid cb # ops) =
     delivered k (if create_uuid uuid = k \<and> r = None then Some cb else r) ops"
| "delivered k r (RemoveCallback j # ops) = delivered k (if j = k then None else r) ops"
| "delivered k r (Notify e # ops) =
     (case r of None \<Rightarrow> delivered k r ops | Some cb \<Rightarrow> (k, cb, e) # delivered k r ops)"

lemma filter_key:
  "distinct (map fst t) \<Longrightarrow>
   filter (\<lambda>x. fst x = k) (map (\<lambda>(key, cb). (key, cb, e)) t) =
     (case find_entry t k of None \<Rightarrow> [] | Some cb \<Rightarrow> [(k, cb, e)])"
proof (induction t)
  case (Cons x t)
  then have "fst x = k \<Longrightarrow> find_entry t k = None" by (auto simp: map_of_eq_None_iff)
  with Cons show ?case by (cases x) auto
qed simp

lemma deliveries:
  "distinct (map fst (callbacks c)) \<Longrightarrow>
   filter (\<lambda>x. fst x = k) (calls (foldl callback_step c ops)) =
   filter (\<lambda>x. fst x = k) (calls c) @ delivered k (find_entry (callbacks c) k) ops"
proof (induction ops arbitrary: c)
  case (Cons op ops)
  show ?case
  proof (cases op)
    case (AddCallback uuid cb)
    from Cons.prems have "distinct (map fst (callbacks (callback_step c op)))"
      by (simp add: AddCallback add_callback_def Let_def table.wf_insert_new)
    from Cons.IH [OF this] show ?thesis
      by (simp add: AddCallback add_callback_def Let_def find_emplace if_distrib cong: if_cong)
  next
    case (RemoveCallback key)
    from Cons.prems have "distinct (map fst (callbacks (callback_step c op)))"
      by (simp add: RemoveCallback remove_callback_def table.wf_remove)
    from Cons.IH [OF this] show ?thesis
      by (simp add: RemoveCallback remove_callback_def find_erase eq_commute)
  next
    case (Notify e)
    from Cons.prems have "distinct (map fst (callbacks (callback_step c op)))"
      by (simp add: Notify dispatch_handler_def)
    from Cons.IH [OF this] filter_key [OF Cons.prems, of k e] show ?thesis
      by (simp add: Notify dispatch_handler_def split: option.split)
  qed
qed simp

text \<open>C29. A callback is called with exactly the events that are notified between its registration
  and its removal, once each and in order, under the key \<open>add_callback\<close> returned; other callbacks
  make no difference.\<close>

theorem callbacks_get_events:
  "filter (\<lambda>x. fst x = k) (calls (foldl callback_step new_connection ops)) = delivered k None ops"
  using deliveries [of new_connection k ops] by (simp add: new_connection_def)

section \<open>Invoking actions\<close>

text \<open>
  \<open>send\<close> is the writer's \<open>write\<close>, \<open>socket_write\<close> of \<open>Net\<close>. What the other threads do to the
  dispatcher while a call waits is a history, a parameter of the call; the result of the future is
  \<open>None\<close> when the call still waits at the end of the history.
\<close>

type_synonym history = "(string + pipe_op) list"

definition async_invoke :: "(string \<Rightarrow> string result) \<Rightarrow> action \<Rightarrow> string result" where
  "async_invoke send a = send (action_to_string a)"

definition start_invoke ::
    "(string \<Rightarrow> string result) \<Rightarrow> dispatcher \<Rightarrow> action \<Rightarrow> dispatcher \<times> nat result" where
  "start_invoke send d a =
     (let (d1, reaction) = get_event_pipe d (get_action_id a) in
      case send (action_to_string a) of
        Inl err \<Rightarrow> (d1, Inl err)
      | Inr _ \<Rightarrow> (d1, Inr reaction))"

definition invoke ::
    "(string \<Rightarrow> string result) \<Rightarrow> dispatcher \<Rightarrow> action \<Rightarrow> history \<Rightarrow>
     (dispatcher \<times> reaction option result option) result" where
  "invoke send d a during =
     (case start_invoke send d a of
        (d1, Inl err) \<Rightarrow> rbind (rfold disp_event d1 during) (\<lambda>d2. Inr (d2, Some (Inl err)))
      | (d1, Inr reaction) \<Rightarrow>
          rbind (rfold disp_event d1 during) (\<lambda>d2. Inr (d2, future_get d2 reaction)))"

definition timeout_error :: "action \<Rightarrow> cpp_error" where
  "timeout_error a =
     RuntimeError (''Event timeout: Timeout waiting for event; ActionID='' @ get_action_id a)"

text \<open>
  With a timeout: \<open>during\<close> is what happens until \<open>wait_for\<close> returns, which it does with
  \<open>timeout\<close> if nothing is ready, \<open>race\<close> what happens between that and the closing of the pipe,
  \<open>later\<close> what happens before \<open>get\<close>.
\<close>

definition invoke_timeout ::
    "(string \<Rightarrow> string result) \<Rightarrow> dispatcher \<Rightarrow> action \<Rightarrow> history \<Rightarrow> history \<Rightarrow> history \<Rightarrow>
     (dispatcher \<times> reaction option result option) result" where
  "invoke_timeout send d a during race later =
     (case start_invoke send d a of
        (d1, Inl err) \<Rightarrow> rbind (rfold disp_event d1 during) (\<lambda>d2. Inr (d2, Some (Inl err)))
      | (d1, Inr reaction) \<Rightarrow>
          rbind (rfold disp_event d1 during) (\<lambda>d2.
          rbind (if future_get d2 reaction = None
                 then rbind (rfold disp_event d2 race) (\<lambda>d3.
                   set_exception_on_pipe d3 (get_action_id a) (timeout_error a))
                 else Inr d2) (\<lambda>d4.
          rbind (rfold disp_event d4 later) (\<lambda>d5. Inr (d5, future_get d5 reaction)))))"

lemma start_invoke_sent:
  assumes "get_event_pipe d (get_action_id a) = (d1, p)"
  shows "start_invoke send d a =
    (d1, case send (action_to_string a) of Inl err \<Rightarrow> Inl err | Inr _ \<Rightarrow> Inr p)"
  using assms by (simp add: start_invoke_def split: sum.split)

lemma invoke_run:
  assumes "reachable before d" and "find_entry (promise_map d) (get_action_id a) = None"
    and "send (action_to_string a) = Inr sent" and "readable_history during"
    and "\<forall>x \<in> set during. \<not> closes (get_action_id a) x"
  shows "\<exists>d'. invoke send d a during =
    Inr (d', map_option (\<lambda>r. Inr (Some r)) (answer (messages_with (get_action_id a) during)))"
proof -
  obtain d1 p where open_pipe: "get_event_pipe d (get_action_id a) = (d1, p)" by fastforce
  note inv = reachable_inv [OF assms(1)]
  note fresh = open_fresh [OF inv assms(2) open_pipe]
  from history_ok [OF fresh(1) assms(4)] obtain d' where d': "rfold disp_event d1 during = Inr d'"
    by blast
  from answer_ready [OF inv assms(2) open_pipe assms(4,5) d'] d'
  show ?thesis by (simp add: invoke_def start_invoke_sent [OF open_pipe] assms(3))
qed

text \<open>C15. \<open>invoke\<close> returns the answer to its action and only that: if nobody else uses its ID and
  the request was sent, it waits exactly as long as the messages with its ID make no answer, and
  then returns the answer they make.\<close>

theorem invoke_returns_answer:
  assumes "reachable before d" and "find_entry (promise_map d) (get_action_id a) = None"
    and "send (action_to_string a) = Inr sent" and "readable_history during"
    and "\<forall>x \<in> set during. \<not> closes (get_action_id a) x"
  shows "\<exists>d'. invoke send d a during =
    Inr (d', map_option (\<lambda>r. Inr (Some r)) (answer (messages_with (get_action_id a) during)))"
  using assms by (rule invoke_run)

text \<open>
  A callback must not call \<open>invoke\<close>: it runs on the thread that processes the messages, so none
  is processed as long as it waits, and whatever other threads do, short of closing its pipe, its future
  is never ready.
\<close>

theorem invoke_in_callback_hangs:
  assumes "reachable before d" and "find_entry (promise_map d) (get_action_id a) = None"
    and "send (action_to_string a) = Inr sent"
    and "\<forall>op \<in> set ops. \<not> closes (get_action_id a) (Inr op)"
  shows "\<exists>d'. invoke send d a (map Inr ops) = Inr (d', None)"
proof -
  have "messages_with (get_action_id a) (map Inr ops) = []" "readable_history (map Inr ops :: history)"
    by (induction ops) (simp_all add: messages_with_def)
  with invoke_run [where send = send, OF assms(1-3), of "map Inr ops"] assms(4) show ?thesis by simp
qed

lemma timed_invoke_run:
  assumes "reachable before d" and "find_entry (promise_map d) (get_action_id a) = None"
    and "send (action_to_string a) = Inr sent" and "readable_history (during @ race @ later)"
    and "\<forall>x \<in> set (during @ race). \<not> closes (get_action_id a) x"
  shows "\<exists>d'. invoke_timeout send d a during race later = Inr (d', Some
    (case answer (messages_with (get_action_id a) (during @ race)) of
       Some r \<Rightarrow> Inr (Some r) | None \<Rightarrow> Inl (timeout_error a)))"
proof -
  let ?a = "get_action_id a"
  obtain d1 p where open_pipe: "get_event_pipe d ?a = (d1, p)" by fastforce
  note inv = reachable_inv [OF assms(1)]
  note fresh = open_fresh [OF inv assms(2) open_pipe]
  from assms(4) have r: "readable_history during" "readable_history race" "readable_history later"
      "readable_history (during @ race)" by (auto simp: readable_history_def)
  from assms(5) have nc: "\<forall>x \<in> set during. \<not> closes ?a x" by simp
  from history_ok [OF fresh(1) r(1)] obtain d2 where
    d2: "rfold disp_event d1 during = Inr d2" "disp_inv d2" by blast
  note get2 = answer_ready [OF inv assms(2) open_pipe r(1) nc d2(1)]
  have owner1: "find_entry (promise_map d1) ?a = Some p"
    using fresh(2) session_waiter [of d1 ?a] by simp
  have msgs: "messages_with ?a (during @ race) = messages_with ?a during @ messages_with ?a race"
    by (simp add: messages_with_def)
  show ?thesis
  proof (cases "answer (messages_with ?a during)")
    case (Some ans)
    with get2 have ready: "future_get d2 p = Some (Inr (Some ans))" by simp
    from history_ok [OF d2(2) r(3)] obtain d5 where d5: "rfold disp_event d2 later = Inr d5" by blast
    have "future_get d5 p = Some (Inr (Some ans))"
      by (rule futures.run_ready [OF d2(2) readable_each [OF r(3)] d5 ready])
    with d2 d5 ready answer_stays [OF Some] show ?thesis
      by (simp add: invoke_timeout_def start_invoke_sent [OF open_pipe] assms(3) msgs)
  next
    case None
    with get2 have wait: "future_get d2 p = None" by simp
    with futures.run_owner [OF fresh(1) readable_each [OF r(1)] d2(1) owner1]
    have owner2: "find_entry (promise_map d2) ?a = Some p" by simp
    from futures.close_after_run [OF d2(2) readable_each [OF r(2)] owner2, of "timeout_error a"]
    obtain d3 d4 where d34: "rfold disp_event d2 race = Inr d3"
        "set_exception_on_pipe d3 ?a (timeout_error a) = Inr d4" "disp_inv d4"
        "future_get d4 p = Some (case future_get d3 p of Some y \<Rightarrow> y | None \<Rightarrow> Inl (timeout_error a))"
      by blast
    have "rfold disp_event d1 (during @ race) = Inr d3" using d2(1) d34(1) by (simp add: rfold_append)
    from answer_ready [OF inv assms(2) open_pipe r(4) assms(5) this] d34(4)
    have ready: "future_get d4 p = Some (case answer (messages_with ?a (during @ race)) of
        Some r \<Rightarrow> Inr (Some r) | None \<Rightarrow> Inl (timeout_error a))"
      by (cases "answer (messages_with ?a (during @ race))") simp_all
    from history_ok [OF d34(3) r(3)] obtain d5 where d5: "rfold disp_event d4 later = Inr d5" by blast
    from futures.run_ready [OF d34(3) readable_each [OF r(3)] d5 ready] d2(1) d34 d5 wait
    show ?thesis by (simp add: invoke_timeout_def start_invoke_sent [OF open_pipe] assms(3))
  qed
qed

text \<open>C14. \<open>invoke\<close> with a timeout always returns, and with one result: the answer if the messages up
  to the moment the pipe is closed make one, even in the race between the timeout and the
  closing, and the timeout exception otherwise; what comes later changes nothing.\<close>

theorem timed_invoke_returns:
  assumes "reachable before d" and "find_entry (promise_map d) (get_action_id a) = None"
    and "send (action_to_string a) = Inr sent" and "readable_history (during @ race @ later)"
    and "\<forall>x \<in> set (during @ race). \<not> closes (get_action_id a) x"
  shows "\<exists>d'. invoke_timeout send d a during race later = Inr (d', Some
    (case answer (messages_with (get_action_id a) (during @ race)) of
       Some r \<Rightarrow> Inr (Some r) | None \<Rightarrow> Inl (timeout_error a)))"
  using assms by (rule timed_invoke_run)

text \<open>C34. A write that fails leaves the pipe behind: the exception reaches the caller, but the
  promise stays in the map under an ID nobody will close, and unless the server answers it the
  destructor's assertion fails.\<close>

theorem failed_write_leaves_pipe:
  assumes "reachable before d" and "find_entry (promise_map d) (get_action_id a) = None"
    and "send (action_to_string a) = Inl err" and "readable_history during"
    and "\<forall>x \<in> set during. \<not> closes (get_action_id a) x"
    and "answer (messages_with (get_action_id a) during) = None"
  shows "\<exists>d'. invoke send d a during = Inr (d', Some (Inl err)) \<and>
    find_entry (promise_map d') (get_action_id a) = Some (length (pipes d)) \<and>
    cleanup_object True d' = Inl AssertFailure"
proof -
  let ?a = "get_action_id a"
  obtain d1 p where open_pipe: "get_event_pipe d ?a = (d1, p)" by fastforce
  note inv = reachable_inv [OF assms(1)]
  note fresh = open_fresh [OF inv assms(2) open_pipe]
  from history_ok [OF fresh(1) assms(4)] obtain d' where
    d': "rfold disp_event d1 during = Inr d'" "disp_inv d'" by blast
  have "find_entry (promise_map d1) ?a = Some p" using fresh(2) session_waiter [of d1 ?a] by simp
  with futures.run_owner [OF fresh(1) readable_each [OF assms(4)] d'(1)]
    answer_ready [OF inv assms(2) open_pipe assms(4,5) d'(1)] assms(6)
  have owner: "find_entry (promise_map d') ?a = Some p" by fastforce
  then have "cleanup_object True d' = Inl AssertFailure"
    by (cases "promise_map d'") (simp_all add: cleanup_object_def)
  with d' owner fresh(3) show ?thesis
    by (simp add: invoke_def start_invoke_sent [OF open_pipe] assms(3))
qed

section \<open>Witnesses\<close>

definition ping :: action where
  "ping = \<lparr>ordered_keys = [], key_values = Map.empty, action_name = ''Ping'', action_id = ''7''\<rparr>"

lemma ping_id [simp]: "get_action_id ping = ''7''"
  by (simp add: ping_def get_action_id_def)

lemma messages_reply:
  "messages_with ''7'' [Inl (reply ''8''), Inl (reply ''7'')] = [message_of (reply ''7'')]"
  by (simp add: messages_with_def reply_facts)

theorem invoke_returns_answer_witness:
  "\<exists>d'. invoke Inr new_dispatcher ping [Inl (reply ''8''), Inl (reply ''7'')] =
    Inr (d', Some (Inr (Some (EventReaction (message_of (reply ''7''))))))"
proof -
  let ?during = "[Inl (reply ''8''), Inl (reply ''7'')]"
  have h2: "find_entry (promise_map new_dispatcher) (get_action_id ping) = None"
    by (simp add: new_dispatcher_def)
  have h3: "(Inr :: string \<Rightarrow> string result) (action_to_string ping) = Inr (action_to_string ping)"
    by simp
  have h4: "readable_history ?during" and h5: "\<forall>x \<in> set ?during. \<not> closes (get_action_id ping) x"
    by simp_all
  from invoke_returns_answer [where send = Inr and a = ping, OF reachable_new h2 h3 h4 h5] show ?thesis
    by (simp add: messages_reply reply_facts)
qed

theorem timed_invoke_returns_witness:
  "\<exists>d'. invoke_timeout Inr new_dispatcher ping [Inl (reply ''8'')] [] [Inl (reply ''7'')] =
    Inr (d', Some (Inl (timeout_error ping)))"
proof -
  have h2: "find_entry (promise_map new_dispatcher) (get_action_id ping) = None"
    by (simp add: new_dispatcher_def)
  have h3: "(Inr :: string \<Rightarrow> string result) (action_to_string ping) = Inr (action_to_string ping)"
    by simp
  have h4: "readable_history ([Inl (reply ''8'')] @ [] @ [Inl (reply ''7'')])"
    and h5: "\<forall>x \<in> set ([Inl (reply ''8'')] @ []). \<not> closes (get_action_id ping) x"
    by simp_all
  have "messages_with ''7'' [Inl (reply ''8'')] = []" by (simp add: messages_with_def reply_facts)
  with timed_invoke_returns [where send = Inr and a = ping, OF reachable_new h2 h3 h4 h5] show ?thesis by simp
qed

theorem failed_write_leaves_pipe_witness:
  "\<exists>d'. invoke (\<lambda>_. Inl (RuntimeError ''Error writing socket: Broken pipe'')) new_dispatcher ping [] =
      Inr (d', Some (Inl (RuntimeError ''Error writing socket: Broken pipe''))) \<and>
    cleanup_object True d' = Inl AssertFailure"
proof -
  have h2: "find_entry (promise_map new_dispatcher) (get_action_id ping) = None"
    by (simp add: new_dispatcher_def)
  have h3: "(\<lambda>_. Inl (RuntimeError ''Error writing socket: Broken pipe'') :: string result)
      (action_to_string ping) = Inl (RuntimeError ''Error writing socket: Broken pipe'')" by simp
  have h4: "readable_history []" and h5: "\<forall>x \<in> set []. \<not> closes (get_action_id ping) x"
    and h6: "answer (messages_with (get_action_id ping) []) = None"
    by (simp_all add: messages_with_def)
  from failed_write_leaves_pipe [where a = ping, OF reachable_new h2 h3 h4 h5 h6] show ?thesis by blast
qed

end
