(* ===== verification/StreamParser.thy ===== *)
theory StreamParser
  imports AmiDefs Worker
begin

text \<open>
  \<open>StreamParser\<close> (\<open>src/StreamParser.cpp\<close>, \<open>include/c++ami/StreamParser.hpp\<close>): it cuts the byte
  stream, which arrives in chunks of any size, into messages. Its two callbacks are the calls it
  makes, in order; its work thread is the one of \<open>Worker\<close> on the chunks.
\<close>

section \<open>State and operations\<close>

record parser =
  first_event :: bool
  event_buf :: string

text \<open>The two callbacks, \<open>set_ami_version_\<close> and \<open>dispatch_\<close>, with their arguments.\<close>

datatype parser_call = SetVersion string | Dispatch string

definition new_parser :: parser where
  "new_parser = \<lparr>first_event = True, event_buf = []\<rparr>"

text \<open>
  The first part of \<open>process_chunk\<close>: the first chunk starts with the server's greeting. Where it
  holds no \<open>EOR\<close>, \<open>eor_loc\<close> is \<open>npos\<close> and adding 2 wraps to 1. \<open>None\<close> is the early return.
\<close>

definition take_version :: "parser \<Rightarrow> string \<Rightarrow> parser \<times> parser_call list \<times> string option" where
  "take_version p stream_chunk =
     (if first_event p then
        let eor_loc = str_find stream_chunk EOR 0;
            version = substr stream_chunk 0 eor_loc;
            eor_loc = size_add eor_loc 2
        in (p\<lparr>first_event := False\<rparr>, [SetVersion version],
            if length stream_chunk = eor_loc then None else Some (erase_front stream_chunk eor_loc))
      else (p, [], Some stream_chunk))"

text \<open>
  The second part: append the chunk and search for the end of the first message, from the
  beginning or from one character less than an \<open>EOM\<close> before the old end.
\<close>

definition append_chunk :: "parser \<Rightarrow> string \<Rightarrow> parser \<times> nat" where
  "append_chunk p stream_chunk =
     (if event_buf p = [] then (p\<lparr>event_buf := stream_chunk\<rparr>, str_find stream_chunk EOM 0)
      else
        let scan_pos_start =
              (if length (event_buf p) < length EOM then 0
               else length (event_buf p) - length EOM + 1);
            buf = event_buf p @ stream_chunk
        in (p\<lparr>event_buf := buf\<rparr>, str_find buf EOM scan_pos_start))"

text \<open>
  The loop. A string that was moved from is empty. A found position is far below the largest
  \<open>size_t\<close>, so the addition is the one of numbers.
\<close>

function dispatch_loop :: "parser \<Rightarrow> nat \<Rightarrow> parser \<times> parser_call list" where
  "dispatch_loop p eom_loc =
     (if eom_loc = npos then (p, [])
      else
        let eom_loc = eom_loc + length EOM in
        if eom_loc = length (event_buf p) then (p\<lparr>event_buf := []\<rparr>, [Dispatch (event_buf p)])
        else
          let event = substr (event_buf p) 0 eom_loc;
              buf = erase_front (event_buf p) eom_loc;
              (p', calls) = dispatch_loop (p\<lparr>event_buf := buf\<rparr>) (str_find buf EOM 0)
          in (p', Dispatch event # calls))"
  by pat_completeness auto
termination
  by (relation "measure (\<lambda>(p, loc). 2 * length (event_buf p) + (if loc = npos then 0 else 1))")
     (auto simp: erase_front_def str_find_def split: if_splits option.splits dest!: find_sub_bound)

declare dispatch_loop.simps [simp del]

definition process_chunk :: "parser \<Rightarrow> string \<Rightarrow> parser \<times> parser_call list" where
  "process_chunk p stream_chunk =
     (case take_version p stream_chunk of
        (p1, calls, None) \<Rightarrow> (p1, calls)
      | (p1, calls, Some chunk) \<Rightarrow>
          let (p2, eom_loc) = append_chunk p1 chunk;
              (p3, calls') = dispatch_loop p2 eom_loc
          in (p3, calls @ calls'))"

text \<open>The object of the work thread: the parser and the callbacks it has made so far.\<close>

type_synonym parse_state = "parser \<times> parser_call list"

definition parse_item :: "parse_state \<Rightarrow> string \<Rightarrow> parse_state" where
  "parse_item s stream_chunk =
     (let (p', calls) = process_chunk (fst s) stream_chunk in (p', snd s @ calls))"

text \<open>The entry points, on the thread of \<open>Worker\<close>; \<open>work_thread\<close> clears the buffer first.\<close>

definition parser_start :: "(parse_state, string) worker" where
  "parser_start = start_worker (new_parser\<lparr>event_buf := []\<rparr>, [])"

definition add_buf :: "(parse_state, string) worker \<Rightarrow> string \<Rightarrow> (parse_state, string) worker option"
  where "add_buf w buf = add_item w buf"

definition parser_work_thread ::
    "(parse_state, string) worker \<Rightarrow> (parse_state, string) worker option" where
  "parser_work_thread w = work_act parse_item w"

definition parser_stop :: "(parse_state, string) worker \<Rightarrow> (parse_state, string) worker option" where
  "parser_stop w = stop_act w"

section \<open>The specification: cutting a text at the ends of its messages\<close>

function split_messages :: "string \<Rightarrow> string list \<times> string" where
  "split_messages s =
     (case find_sub EOM s of
        None \<Rightarrow> ([], s)
      | Some i \<Rightarrow> let (ms, r) = split_messages (drop (i + 4) s) in (take (i + 4) s # ms, r))"
  by pat_completeness auto
termination
  by (relation "measure length") (auto dest!: find_sub_bound)

declare split_messages.simps [simp del]

lemma split_messages_None: "find_sub EOM s = None \<Longrightarrow> split_messages s = ([], s)"
  by (simp add: split_messages.simps)

lemma split_messages_Some:
  "find_sub EOM s = Some i \<Longrightarrow>
   split_messages s = (take (i + 4) s # fst (split_messages (drop (i + 4) s)),
                       snd (split_messages (drop (i + 4) s)))"
  by (simp add: split_messages.simps [of s] split: prod.split)

lemma split_messages_Nil [simp]: "split_messages [] = ([], [])"
  by (rule split_messages_None) (simp add: EOM_def)

text \<open>What a cut is: it loses nothing, every message ends at its only end of message, and the rest
  holds none.\<close>

definition is_message :: "string \<Rightarrow> bool" where
  "is_message m \<longleftrightarrow> 4 \<le> length m \<and> find_sub EOM m = Some (length m - 4)"

lemma message_ends_in_EOM: "is_message m \<Longrightarrow> suffix EOM m"
proof -
  assume "is_message m"
  then have "prefix EOM (drop (length m - 4) m)" "4 \<le> length m"
    by (auto simp: is_message_def dest: find_sub_prefix)
  then have "drop (length m - 4) m = EOM"
    by (auto simp: prefix_def) (metis append_eq_conv_conj diff_diff_cancel length_EOM length_drop
        self_append_conv take_all_iff order.refl)
  then show "suffix EOM m" by (metis suffix_drop)
qed

lemma find_sub_take:
  assumes "find_sub p s = Some i"
  shows "find_sub p (take (i + length p) s) = Some i"
proof -
  let ?t = "take (i + length p) s"
  from find_sub_SomeD [OF assms] have len: "length ?t = i + length p" by simp
  have "prefix p (drop i ?t)"
    using find_sub_prefix [OF assms] by (auto simp: drop_take prefix_def)
  moreover have "\<not> prefix p (drop j ?t)" if "j < i" for j
  proof
    assume "prefix p (drop j ?t)"
    then have "prefix p (drop j s)"
      by (metis append_take_drop_id drop_take prefix_prefix)
    with find_sub_first [OF assms that] show False by blast
  qed
  ultimately show ?thesis using len by (intro find_sub_eq_SomeI) auto
qed

lemma split_messages_sound:
  "concat (fst (split_messages s)) @ snd (split_messages s) = s \<and>
   (\<forall>m \<in> set (fst (split_messages s)). is_message m) \<and> find_sub EOM (snd (split_messages s)) = None"
proof (induction s rule: split_messages.induct)
  case (1 s)
  show ?case
  proof (cases "find_sub EOM s")
    case None
    then show ?thesis by (simp add: split_messages_None)
  next
    case (Some i)
    from find_sub_bound [OF Some] find_sub_take [OF Some] have "is_message (take (i + 4) s)"
      by (simp add: is_message_def)
    with "1.IH" [OF Some] show ?thesis by (simp add: split_messages_Some [OF Some])
  qed
qed

lemma split_messages_message: "is_message m \<Longrightarrow> split_messages (m @ s) = (m # fst (split_messages s), snd (split_messages s))"
  using find_sub_append [of EOM m "length m - 4" s]
  by (simp add: is_message_def split_messages_Some)

text \<open>More text only adds messages: the cut of a text continues from the rest.\<close>

lemma split_messages_append:
  "split_messages (s @ t) =
    (fst (split_messages s) @ fst (split_messages (snd (split_messages s) @ t)),
     snd (split_messages (snd (split_messages s) @ t)))"
proof (induction s rule: split_messages.induct)
  case (1 s)
  show ?case
  proof (cases "find_sub EOM s")
    case None
    then show ?thesis by (simp add: split_messages_None)
  next
    case (Some i)
    from find_sub_bound [OF Some] have "drop (i + 4) (s @ t) = drop (i + 4) s @ t"
        "take (i + 4) (s @ t) = take (i + 4) s" by simp_all
    with "1.IH" [OF Some] show ?thesis
      by (simp add: split_messages_Some [OF Some] split_messages_Some [OF find_sub_append [OF Some]])
  qed
qed

section \<open>The parser implements the specification\<close>

lemma dispatch_loop_split:
  "fits (event_buf p) \<Longrightarrow> dispatch_loop p (str_find (event_buf p) EOM 0) =
    (p\<lparr>event_buf := snd (split_messages (event_buf p))\<rparr>,
     map Dispatch (fst (split_messages (event_buf p))))"
proof (induction "event_buf p" arbitrary: p rule: split_messages.induct)
  case 1
  let ?s = "event_buf p"
  show ?case
  proof (cases "find_sub EOM ?s")
    case None
    then show ?thesis
      by (simp add: str_find_0 dispatch_loop.simps [of p npos] split_messages_None)
  next
    case (Some i)
    from find_sub_bound [OF Some] have i: "i + 4 \<le> length ?s" by simp
    with "1.prems" have ne: "i \<noteq> npos" using fits_less_npos [of ?s i] by simp
    have loop: "dispatch_loop p i =
        (if i + 4 = length ?s then (p\<lparr>event_buf := []\<rparr>, [Dispatch ?s])
         else let (p', calls) = dispatch_loop (p\<lparr>event_buf := drop (i + 4) ?s\<rparr>)
                                  (str_find (drop (i + 4) ?s) EOM 0)
              in (p', Dispatch (take (i + 4) ?s) # calls))"
      using ne by (simp add: dispatch_loop.simps [of p i] substr_def erase_front_def Let_def)
    show ?thesis
    proof (cases "i + 4 = length ?s")
      case True
      with Some loop show ?thesis by (simp add: str_find_0 split_messages_Some [OF Some])
    next
      case False
      have "dispatch_loop (p\<lparr>event_buf := drop (i + 4) ?s\<rparr>) (str_find (drop (i + 4) ?s) EOM 0) =
          (p\<lparr>event_buf := snd (split_messages (drop (i + 4) ?s))\<rparr>,
           map Dispatch (fst (split_messages (drop (i + 4) ?s))))"
        using "1.hyps" [OF Some, of "p\<lparr>event_buf := drop (i + 4) ?s\<rparr>"] fits_drop [OF "1.prems"]
        by simp
      with Some loop False show ?thesis by (simp add: str_find_0 split_messages_Some [OF Some])
    qed
  qed
qed

text \<open>Starting the search one character less than an \<open>EOM\<close> before the old end misses nothing.\<close>

lemma str_find_backoff:
  assumes "find_sub p b = None" and "k = 0 \<or> k + length p \<le> length b + 1" and "k \<le> length b"
  shows "str_find (b @ c) p k = str_find (b @ c) p 0"
proof -
  have "find_sub p (b @ c) = map_option ((+) k) (find_sub p (drop k (b @ c)))"
  proof (cases "k = 0")
    case True
    then show ?thesis by (cases "find_sub p (b @ c)") simp_all
  next
    case False
    with assms show ?thesis using find_sub_backoff [of p b k c] by blast
  qed
  moreover have "\<not> length (b @ c) < k" using assms(3) by simp
  ultimately show ?thesis
    by (cases "find_sub p (drop k (b @ c))") (simp_all only: str_find_def, simp_all)
qed

lemma append_chunk_loc:
  assumes none: "find_sub EOM (event_buf p) = None"
  shows "append_chunk p c =
    (p\<lparr>event_buf := event_buf p @ c\<rparr>, str_find (event_buf p @ c) EOM 0)"
proof (cases "event_buf p = []")
  case True
  then show ?thesis by (simp add: append_chunk_def)
next
  case False
  define k where "k = (if length (event_buf p) < length EOM then 0
                       else length (event_buf p) - length EOM + 1)"
  have "str_find (event_buf p @ c) EOM k = str_find (event_buf p @ c) EOM 0"
    by (rule str_find_backoff [OF none]) (auto simp: k_def)
  with False show ?thesis by (simp only: append_chunk_def Let_def k_def [symmetric] if_False)
qed

lemma process_later_chunk:
  assumes "\<not> first_event p" and "find_sub EOM (event_buf p) = None" and "fits (event_buf p @ c)"
  shows "process_chunk p c =
    (p\<lparr>event_buf := snd (split_messages (event_buf p @ c))\<rparr>,
     map Dispatch (fst (split_messages (event_buf p @ c))))"
  using assms dispatch_loop_split [of "p\<lparr>event_buf := event_buf p @ c\<rparr>"]
  by (simp add: process_chunk_def take_version_def append_chunk_loc)

text \<open>The greeting is looked for in the first chunk only.\<close>

definition version_of :: "string \<Rightarrow> string" where
  "version_of c = (case find_sub EOR c of Some i \<Rightarrow> take i c | None \<Rightarrow> c)"

definition after_greeting :: "string \<Rightarrow> string" where
  "after_greeting c = (case find_sub EOR c of Some i \<Rightarrow> drop (i + 2) c | None \<Rightarrow> drop 1 c)"

lemma process_first_chunk:
  assumes "fits c"
  shows "process_chunk new_parser c =
    (\<lparr>first_event = False, event_buf = snd (split_messages (after_greeting c))\<rparr>,
     SetVersion (version_of c) # map Dispatch (fst (split_messages (after_greeting c))))"
proof -
  let ?p = "new_parser\<lparr>first_event := False\<rparr>"
  have version: "take_version new_parser c =
      (?p, [SetVersion (version_of c)],
       if length c = size_add (str_find c EOR 0) 2 then None else Some (after_greeting c)) \<and>
      (length c = size_add (str_find c EOR 0) 2 \<longrightarrow> after_greeting c = [])"
  proof (cases "find_sub EOR c")
    case None
    with assms have "length c < npos" using fits_less_npos [of c "length c"] by simp
    with None show ?thesis
      by (simp add: take_version_def str_find_0 version_of_def after_greeting_def substr_def
          erase_front_def new_parser_def Let_def)
  next
    case (Some i)
    from find_sub_bound [OF Some] assms have "size_add i 2 = i + 2"
      using fits_less_npos [of c "i + 2"] by (simp add: size_add_small)
    with Some show ?thesis
      by (simp add: take_version_def str_find_0 version_of_def after_greeting_def substr_def
          erase_front_def new_parser_def Let_def)
  qed
  have "length (after_greeting c) \<le> length c"
    by (simp add: after_greeting_def split: option.split)
  with assms have "fits (after_greeting c)" by (rule fits_le)
  with dispatch_loop_split [of "?p\<lparr>event_buf := after_greeting c\<rparr>"]
  have "dispatch_loop (?p\<lparr>event_buf := after_greeting c\<rparr>) (str_find (after_greeting c) EOM 0) =
    (?p\<lparr>event_buf := snd (split_messages (after_greeting c))\<rparr>,
     map Dispatch (fst (split_messages (after_greeting c))))" by simp
  with version show ?thesis
    by (auto simp: process_chunk_def append_chunk_def new_parser_def)
qed

text \<open>What a list of chunks is parsed to, from a new parser on.\<close>

fun parsed :: "string list \<Rightarrow> parse_state" where
  "parsed [] = (new_parser, [])"
| "parsed (c # cs) =
     (let (ms, r) = split_messages (after_greeting c @ concat cs)
      in (\<lparr>first_event = False, event_buf = r\<rparr>, SetVersion (version_of c) # map Dispatch ms))"

lemma parsed_Cons:
  "parsed (c # cs) =
    (\<lparr>first_event = False, event_buf = snd (split_messages (after_greeting c @ concat cs))\<rparr>,
     SetVersion (version_of c) # map Dispatch (fst (split_messages (after_greeting c @ concat cs))))"
  by (simp split: prod.split)

lemma after_greeting_length: "length (after_greeting c) \<le> length c"
  by (simp add: after_greeting_def split: option.split)

lemma split_rest_length: "length (snd (split_messages s)) \<le> length s"
  using split_messages_sound [of s] by (metis length_append le_add2)

lemma parse_item_parsed:
  assumes "fits (concat (cs @ [x]))"
  shows "parse_item (parsed cs) x = parsed (cs @ [x])"
proof (cases cs)
  case Nil
  with assms show ?thesis
    using process_first_chunk [of x] by (simp add: parse_item_def split: prod.split)
next
  case (Cons c ds)
  let ?s = "after_greeting c @ concat ds"
  let ?p = "\<lparr>first_event = False, event_buf = snd (split_messages ?s)\<rparr>"
  have "length (snd (split_messages ?s) @ x) \<le> length (concat (cs @ [x]))"
    using split_rest_length [of ?s] after_greeting_length [of c] by (simp add: Cons)
  with assms have "fits (event_buf ?p @ x)" by (auto intro: fits_le)
  then have "process_chunk ?p x =
      (\<lparr>first_event = False, event_buf = snd (split_messages (?s @ x))\<rparr>,
       map Dispatch (fst (split_messages (snd (split_messages ?s) @ x))))"
    unfolding split_messages_append [of ?s x]
    using process_later_chunk [of ?p x] split_messages_sound [of ?s] by simp
  then show ?thesis
    unfolding Cons append_Cons parsed_Cons parse_item_def
    using split_messages_append [of ?s x] by simp
qed

interpretation parser: queue_processor parse_item no_op "(new_parser, [])" "\<lambda>cs s. s = parsed cs"
  "\<lambda>cs. fits (concat cs)"
  by unfold_locales (auto simp: parse_item_parsed fits_def no_op_def)

lemma split_messages_concat:
  "\<forall>m \<in> set ms. is_message m \<Longrightarrow> find_sub EOM r = None \<Longrightarrow> split_messages (concat ms @ r) = (ms, r)"
  by (induction ms) (simp_all add: split_messages_None split_messages_message)

lemma parsed_run: "fits (concat cs) \<Longrightarrow> foldl parse_item (new_parser, []) cs = parsed cs"
  using parser.good_foldl by simp

text \<open>Dispatched texts are messages, and the buffer never holds one.\<close>

lemma parsed_sound:
  "find_sub EOM (event_buf (fst (parsed cs))) = None \<and>
   (\<forall>m. Dispatch m \<in> set (snd (parsed cs)) \<longrightarrow> is_message m)"
proof (cases cs)
  case Nil
  then show ?thesis by (simp add: new_parser_def EOM_def)
next
  case (Cons c ds)
  then show ?thesis
    using split_messages_sound [of "after_greeting c @ concat ds"] by (auto simp: parsed_Cons simp del: parsed.simps)
qed

section \<open>Properties of the stream parser\<close>

text \<open>C12. Chunk by chunk, the parser does what cutting the whole text at the ends of its messages
  does: it reports the version from the first chunk, dispatches the messages of the rest of the
  stream in order, and keeps what follows the last of them.\<close>

theorem parser_refines_split:
  assumes "fits (concat (c # cs))"
  shows "foldl parse_item (new_parser, []) (c # cs) =
    (let (ms, r) = split_messages (after_greeting c @ concat cs)
     in (\<lparr>first_event = False, event_buf = r\<rparr>, SetVersion (version_of c) # map Dispatch ms))"
  using parser.good_foldl [of "c # cs"] assms by simp

definition sample_chunks :: "string list" where
  "sample_chunks = [''Asterisk/5'' @ EOR @ ''a: 1'' @ [CHR 0x0D], [CHR 0x0A, CHR 0x0D], [CHR 0x0A] @ ''b'']"

lemma sample_chunks_fit: "fits (concat sample_chunks)"
  by (simp add: sample_chunks_def fits_def max_size_def)

theorem parser_refines_split_witness:
  "foldl parse_item (new_parser, []) sample_chunks =
    (\<lparr>first_event = False, event_buf = ''b''\<rparr>, [SetVersion ''Asterisk/5'', Dispatch (''a: 1'' @ EOM)])"
proof -
  obtain c cs where s: "sample_chunks = c # cs" by (simp add: sample_chunks_def)
  have hd_tl: "hd (c # cs) = c" "tl (c # cs) = cs" by simp_all
  have "split_messages (after_greeting (hd sample_chunks) @ concat (tl sample_chunks)) = ([''a: 1'' @ EOM], ''b'')"
    by code_simp
  moreover have "version_of (hd sample_chunks) = ''Asterisk/5''" by code_simp
  ultimately show ?thesis
    using parser_refines_split [of c cs] sample_chunks_fit unfolding s hd_tl by simp
qed

text \<open>C20. How the stream is cut into chunks does not matter, as long as the greeting's line arrives
  whole in the first one: the same text makes the same calls and leaves the same buffer.\<close>

theorem chunking_irrelevant:
  assumes "concat (c # cs) = concat (d # ds)" and "fits (concat (c # cs))"
    and "sublist EOR c" and "sublist EOR d"
  shows "foldl parse_item (new_parser, []) (c # cs) = foldl parse_item (new_parser, []) (d # ds)"
proof -
  have first: "version_of e @ EOR @ after_greeting e @ concat es = concat (e # es) \<and>
      find_sub EOR (concat (e # es)) = Some (length (version_of e))"
    if "sublist EOR e" for e es
  proof -
    from that obtain i where i: "find_sub EOR e = Some i" by (metis find_sub_None not_None_eq)
    then show ?thesis
      using find_sub_SomeD [OF i] find_sub_append [OF i]
      by (simp add: version_of_def after_greeting_def)
  qed
  note fc = first [OF assms(3), of cs] and fd = first [OF assms(4), of ds]
  from fc [THEN conjunct2] fd [THEN conjunct2] have len: "length (version_of c) = length (version_of d)"
    unfolding assms(1) by (simp only: option.inject)
  from fc [THEN conjunct1] fd [THEN conjunct1]
  have "version_of c @ EOR @ after_greeting c @ concat cs = version_of d @ EOR @ after_greeting d @ concat ds"
    unfolding assms(1) by (simp only:)
  from append_eq_append_conv [THEN iffD1, OF disjI1 [OF len] this]
  have "version_of c = version_of d" "after_greeting c @ concat cs = after_greeting d @ concat ds"
    by (simp_all only: same_append_eq)
  then have "parsed (c # cs) = parsed (d # ds)" by (simp only: parsed.simps)
  moreover have "foldl parse_item (new_parser, []) (c # cs) = parsed (c # cs)"
    using parser.good_foldl [of "c # cs"] assms(2) by simp
  moreover have "foldl parse_item (new_parser, []) (d # ds) = parsed (d # ds)"
    using parser.good_foldl [of "d # ds"] assms(1,2) by simp
  ultimately show ?thesis by simp
qed

theorem chunking_irrelevant_witness:
  "foldl parse_item (new_parser, []) sample_chunks =
   foldl parse_item (new_parser, []) [concat sample_chunks]"
proof -
  obtain c cs where s: "sample_chunks = c # cs" by (simp add: sample_chunks_def)
  have "sublist EOR (hd sample_chunks)" "sublist EOR (concat sample_chunks)" by code_simp+
  with sample_chunks_fit show ?thesis
    using chunking_irrelevant [of c cs "concat sample_chunks" "[]"] by (simp add: s)
qed

lemma parsed_messages:
  assumes "concat (c # cs) = g @ EOR @ concat ms @ r" and "\<not> sublist EOR g" and "sublist EOR c"
    and "\<forall>m \<in> set ms. is_message m" and "find_sub EOM r = None"
  shows "parsed (c # cs) = (\<lparr>first_event = False, event_buf = r\<rparr>, SetVersion g # map Dispatch ms)"
proof -
  from assms(3) obtain i where i: "find_sub EOR c = Some i" by (metis find_sub_None not_None_eq)
  have "find_sub EOR (concat (c # cs)) = Some i" using find_sub_append [OF i] by simp
  with eor.find_first [OF assms(2), of "concat ms @ r"] have len: "i = length g"
    unfolding assms(1) by simp
  have "take i (concat (c # cs)) = g" "drop (i + 2) (concat (c # cs)) = concat ms @ r"
    unfolding assms(1) len by simp_all
  with find_sub_bound [OF i] i have "version_of c = g" "after_greeting c @ concat cs = concat ms @ r"
    by (simp_all add: version_of_def after_greeting_def)
  then show ?thesis using split_messages_concat [OF assms(4,5)] by simp
qed

text \<open>What the server sends is recovered: from a greeting line, any messages and an unfinished
  one, in any chunks that leave the greeting line whole, exactly the messages are dispatched, in
  order, and the unfinished one stays in the buffer.\<close>

theorem messages_recovered:
  assumes "concat (c # cs) = g @ EOR @ concat ms @ r" and "fits (concat (c # cs))"
    and "\<not> sublist EOR g" and "sublist EOR c"
    and "\<forall>m \<in> set ms. is_message m" and "find_sub EOM r = None"
  shows "foldl parse_item (new_parser, []) (c # cs) =
    (\<lparr>first_event = False, event_buf = r\<rparr>, SetVersion g # map Dispatch ms)"
  using parsed_run [OF assms(2)] parsed_messages [OF assms(1,3-6)] by simp

theorem messages_recovered_witness:
  "foldl parse_item (new_parser, [])
     [''Asterisk'' @ EOR @ ''Response: Succ'', ''ess'' @ EOM @ ''Event: Sta'' @ ''rt'' @ EOR] =
   (\<lparr>first_event = False, event_buf = ''Event: Start'' @ EOR\<rparr>,
    [SetVersion ''Asterisk'', Dispatch (''Response: Success'' @ EOM)])"
proof -
  let ?c = "''Asterisk'' @ EOR @ ''Response: Succ''"
  let ?cs = "[''ess'' @ EOM @ ''Event: Sta'' @ ''rt'' @ EOR]"
  have h1: "concat (?c # ?cs) =
      ''Asterisk'' @ EOR @ concat [''Response: Success'' @ EOM] @ ''Event: Start'' @ EOR" by simp
  have h2: "fits (concat (?c # ?cs))" by (simp add: fits_def max_size_def)
  have h3: "\<not> sublist EOR ''Asterisk''" and h4: "sublist EOR ?c" by code_simp+
  have h5: "\<forall>m \<in> set [''Response: Success'' @ EOM]. is_message m" by code_simp
  have h6: "find_sub EOM (''Event: Start'' @ EOR) = None" by code_simp
  from messages_recovered [OF h1 h2 h3 h4 h5 h6] show ?thesis by simp
qed

text \<open>The thread does it too: whatever the interleaving of the socket's reader, the work thread
  and the destructor, the parser has made exactly the calls of the chunks it has taken from the
  queue so far, every text it dispatched is one message, and its buffer holds none.\<close>

theorem parser_thread_refines:
  assumes "wreach parse_item no_op (new_parser, []) tr w" and "fits (concat (added tr))"
  shows "\<exists>past. added tr = past @ pending w \<and> obj w = parsed past \<and>
    find_sub EOM (event_buf (fst (obj w))) = None \<and>
    (\<forall>m. Dispatch m \<in> set (snd (obj w)) \<longrightarrow> is_message m \<and> suffix EOR m) \<and>
    (wpc w = Done \<longrightarrow> pending w = queue w)"
proof -
  have "suffix EOR m" if "is_message m" for m
    using message_ends_in_EOM [OF that] by (auto simp: EOM_EOR suffix_def)
  moreover obtain past where past: "added tr = past @ pending w" "obj w = parsed past"
      "wpc w = Done \<longrightarrow> pending w = queue w"
    using parser.reachable_good [OF assms] by blast
  ultimately show ?thesis using parsed_sound [of past] by (intro exI [of _ past]) simp
qed

theorem parser_thread_refines_witness:
  "\<exists>tr w. wreach parse_item no_op (new_parser, []) tr w \<and> added tr = [''Asterisk'' @ EOR] \<and>
    (\<exists>past. added tr = past @ pending w \<and> obj w = parsed past)"
proof -
  have r: "wreach parse_item no_op (new_parser, []) [Add (''Asterisk'' @ EOR)]
      ((start_worker (new_parser, []))\<lparr>queue := [''Asterisk'' @ EOR]\<rparr>)" by (rule add_reach)
  have "fits (concat (added [Add (''Asterisk'' @ EOR)]))" by (simp add: fits_def max_size_def)
  from parser_thread_refines [OF r this] r show ?thesis by fastforce
qed

text \<open>C35. A greeting that arrives in two pieces is not put together. The version is the first piece;
  the rest of the line, without the greeting's first character, becomes the beginning of the
  first message, because \<open>npos + 2\<close> wraps to 1.\<close>

theorem split_greeting_corrupts:
  assumes "\<not> sublist EOR (g1 @ g2)" and "g1 \<noteq> []" and "drop 1 (g1 @ g2) \<noteq> []"
    and "is_message m" and "\<not> prefix EOR m" and "fits (g1 @ g2 @ EOR @ m)"
  shows "foldl parse_item (new_parser, []) [g1, g2 @ EOR @ m] =
    (\<lparr>first_event = False, event_buf = []\<rparr>,
     [SetVersion g1, Dispatch (drop 1 (g1 @ g2) @ EOR @ m)])"
proof -
  let ?l = "drop 1 (g1 @ g2)" and ?s = "drop 1 (g1 @ g2) @ EOR @ m"
  have l: "\<not> sublist EOR ?l"
    using assms(1) sublist_dropD by blast
  from assms(4) have m: "find_sub EOM m = Some (length m - 4)" "4 \<le> length m"
    by (auto simp: is_message_def)
  have "find_sub EOM ?s = Some (length ?s - 4)"
    using find_EOM_line [OF l assms(3), of m] assms(5) m by simp
  with m(2) have split: "split_messages ?s = ([?s], [])"
    by (simp add: split_messages_Some)
  have "\<not> sublist EOR g1" using assms(1) by (auto dest: sublist_appendI_left)
  then have "version_of g1 = g1" "after_greeting g1 = drop 1 g1"
    by (simp_all add: version_of_def after_greeting_def flip: find_sub_None)
  moreover from assms(2) have "drop 1 g1 @ g2 @ EOR @ m = ?s" by (cases g1) simp_all
  ultimately have "parsed [g1, g2 @ EOR @ m] = (\<lparr>first_event = False, event_buf = []\<rparr>,
      [SetVersion g1, Dispatch ?s])"
    using split by simp
  with parsed_run [of "[g1, g2 @ EOR @ m]"] assms(6) show ?thesis by simp
qed

theorem split_greeting_corrupts_witness:
  "foldl parse_item (new_parser, []) [''Aster'', ''isk/5'' @ EOR @ ''Event: Up'' @ EOM] =
    (\<lparr>first_event = False, event_buf = []\<rparr>,
     [SetVersion ''Aster'', Dispatch (''sterisk/5'' @ EOR @ ''Event: Up'' @ EOM)])"
proof -
  have "\<not> sublist EOR (''Aster'' @ ''isk/5'')" "is_message (''Event: Up'' @ EOM)"
      "\<not> prefix EOR (''Event: Up'' @ EOM)" by code_simp+
  moreover have "fits (''Aster'' @ ''isk/5'' @ EOR @ ''Event: Up'' @ EOM)"
    by (simp add: fits_def max_size_def)
  ultimately show ?thesis
    using split_greeting_corrupts [of "''Aster''" "''isk/5''" "''Event: Up'' @ EOM"] by simp
qed

end
