(* ===== verification/SocketReader.thy ===== *)
theory SocketReader
  imports Net
begin

text \<open>
  The thread of \<open>net::SocketReader\<close> (\<open>src/net/SocketReader.cpp\<close>) step by step, for its interplay
  with the other threads, and its start and stop. \<open>reader_work_thread\<close> of \<open>Net\<close> is the same loop
  read from start to end; the two are shown to agree.
\<close>

section \<open>State and steps\<close>

text \<open>
  \<open>LoopTest\<close>: before the test of the \<open>while\<close>; \<open>InRead\<close>: in \<open>read\<close>; \<open>InCallback\<close>: in the callback,
  with its argument; \<open>Returned\<close>: the thread function has returned; \<open>Threw\<close>: an exception left it,
  which ends the program.
\<close>

datatype reader_pc = LoopTest | InRead | InCallback string | Returned | Threw cpp_error

record reader =
  thread_spin :: bool
  rpc :: reader_pc
  reader_joined :: bool

text \<open>The constructor; the socket is \<open>None\<close> when the shared pointer is null.\<close>

definition start_reader :: reader where
  "start_reader = \<lparr>thread_spin = True, rpc = LoopTest, reader_joined = False\<rparr>"

definition new_reader :: "int option \<Rightarrow> reader result" where
  "new_reader socket = (case socket of None \<Rightarrow> Inl AssertFailure | Some _ \<Rightarrow> Inr start_reader)"

text \<open>The thread: the test of the flag, the return from \<open>read\<close>, the return from the callback.\<close>

definition reader_test :: "reader \<Rightarrow> reader option" where
  "reader_test r =
     (if rpc r = LoopTest then Some (r\<lparr>rpc := if thread_spin r then InRead else Returned\<rparr>) else None)"

definition reader_got :: "reader \<Rightarrow> string result \<Rightarrow> reader option" where
  "reader_got r res =
     (if rpc r = InRead then
        Some (r\<lparr>rpc := (case res of Inl err \<Rightarrow> Threw err
                        | Inr buf \<Rightarrow> if buf \<noteq> [] then InCallback buf else LoopTest)\<rparr>)
      else None)"

definition reader_called :: "reader \<Rightarrow> (string \<times> reader) option" where
  "reader_called r = (case rpc r of InCallback buf \<Rightarrow> Some (buf, r\<lparr>rpc := LoopTest\<rparr>) | _ \<Rightarrow> None)"

text \<open>\<open>stop_work_thread\<close>, in the destructor: clear the flag, then join.\<close>

definition stop_reader :: "reader \<Rightarrow> reader" where
  "stop_reader r = r\<lparr>thread_spin := False\<rparr>"

definition join_reader :: "reader \<Rightarrow> reader option" where
  "join_reader r = (if rpc r = Returned then Some (r\<lparr>reader_joined := True\<rparr>) else None)"

text \<open>The next step of the thread itself, \<open>res\<close> being what a read in progress returns.\<close>

definition reader_step :: "reader \<Rightarrow> string result \<Rightarrow> reader" where
  "reader_step r res =
     (case rpc r of
        LoopTest \<Rightarrow> the (reader_test r)
      | InRead \<Rightarrow> the (reader_got r res)
      | InCallback buf \<Rightarrow> snd (the (reader_called r))
      | _ \<Rightarrow> r)"

text \<open>
  The destructor: \<open>results\<close> is what the reads return in the thread's steps between the clearing of
  the flag and the end of \<open>join\<close>; \<open>None\<close> when \<open>join\<close> still waits.
\<close>

definition reader_destruct :: "string result list \<Rightarrow> reader \<Rightarrow> reader option" where
  "reader_destruct results r = join_reader (foldl reader_step (stop_reader r) results)"

text \<open>What the thread holds and has not passed on.\<close>

definition in_hand :: "reader \<Rightarrow> string" where
  "in_hand r = (case rpc r of InCallback buf \<Rightarrow> buf | _ \<Rightarrow> [])"

lemmas reader_steps = reader_test_def reader_got_def reader_called_def stop_reader_def join_reader_def

section \<open>The steps make the loop\<close>

text \<open>
  One round of the loop by steps: the flag is what the round finds; the calls made and the thread
  afterwards.
\<close>

definition reader_round :: "reader \<Rightarrow> bool \<times> string result \<Rightarrow> string list \<times> reader" where
  "reader_round r round =
     (case reader_test (r\<lparr>thread_spin := fst round\<rparr>) of
        None \<Rightarrow> ([], r)
      | Some r1 \<Rightarrow>
          (case reader_got r1 (snd round) of
             None \<Rightarrow> ([], r1)
           | Some r2 \<Rightarrow>
               (case reader_called r2 of None \<Rightarrow> ([], r2) | Some (buf, r3) \<Rightarrow> ([buf], r3))))"

fun reader_rounds :: "reader \<Rightarrow> (bool \<times> string result) list \<Rightarrow> string list \<times> reader" where
  "reader_rounds r [] = ([], r)"
| "reader_rounds r (round # rounds) =
     (let (cs, r') = reader_round r round; (ds, r'') = reader_rounds r' rounds in (cs @ ds, r''))"

fun end_of :: "reader_pc \<Rightarrow> reader_end" where
  "end_of Returned = Stopped"
| "end_of (Threw err) = Crashed err"
| "end_of _ = Reading"

lemma reader_rounds_over:
  "rpc r \<in> {Returned} \<union> range Threw \<Longrightarrow> rpc (snd (reader_rounds r rounds)) = rpc r \<and> fst (reader_rounds r rounds) = []"
proof (induction rounds arbitrary: r)
  case (Cons round rounds)
  then have "reader_round r round = ([], r)" by (auto simp: reader_round_def reader_test_def)
  with Cons show ?case by (simp add: split_beta)
qed simp

lemma reader_rounds_loop:
  "rpc r = LoopTest \<Longrightarrow>
   fst (reader_rounds r rounds) = fst (reader_work_thread rounds) \<and>
   end_of (rpc (snd (reader_rounds r rounds))) = snd (reader_work_thread rounds)"
proof (induction rounds arbitrary: r)
  case (Cons round rounds)
  obtain spin res where round: "round = (spin, res)" by fastforce
  show ?case
  proof (cases "spin \<and> \<not> isl res")
    case True
    then obtain buf where res: "res = Inr buf" by (cases res) simp_all
    obtain cs r' where r': "reader_round r round = (cs, r')" by fastforce
    with True Cons.prems res round have "rpc r' = LoopTest \<and> cs = (if buf \<noteq> [] then [buf] else [])"
      by (auto simp: reader_round_def reader_steps split: if_splits)
    with Cons.IH [of r'] True res round r' show ?thesis by (simp add: split_beta)
  next
    case False
    obtain cs r' where r': "reader_round r round = (cs, r')" by fastforce
    with False Cons.prems round have "cs = []" "rpc r' = (if spin then Threw (projl res) else Returned)"
      by (auto simp: reader_round_def reader_steps split: sum.splits if_splits)
    with reader_rounds_over [of r' rounds] False round r' show ?thesis
      by (cases res) (auto simp: split_beta)
  qed
qed simp

text \<open>What the steps do to the text in hand, the flag of the destructor and the end of the thread.\<close>

lemma reader_test_parts:
  assumes "reader_test r = Some r'"
  shows "in_hand r' = in_hand r" "reader_joined r' = reader_joined r" "rpc r \<noteq> Returned"
  using assms by (auto simp: reader_test_def in_hand_def split: if_splits)

lemma reader_got_parts:
  assumes "reader_got r res = Some r'"
  shows "in_hand r = []" "in_hand r' = (case res of Inl err \<Rightarrow> [] | Inr buf \<Rightarrow> buf)"
    "reader_joined r' = reader_joined r" "rpc r \<noteq> Returned"
  using assms by (auto simp: reader_got_def in_hand_def split: if_splits sum.split)

lemma reader_called_parts:
  assumes "reader_called r = Some (buf, r')"
  shows "in_hand r = buf" "in_hand r' = []" "reader_joined r' = reader_joined r" "rpc r \<noteq> Returned"
  using assms by (auto simp: reader_called_def in_hand_def split: reader_pc.splits)

lemma stop_reader_parts [simp]:
  "in_hand (stop_reader r) = in_hand r" "reader_joined (stop_reader r) = reader_joined r"
  "rpc (stop_reader r) = rpc r"
  by (simp_all add: stop_reader_def in_hand_def)

lemma join_reader_parts:
  assumes "join_reader r = Some r'"
  shows "in_hand r' = in_hand r" "reader_joined r'" "rpc r' = Returned"
  using assms by (auto simp: join_reader_def in_hand_def split: if_splits)

section \<open>Properties of the reader's thread\<close>

text \<open>The thread of the reader, step by step with the flag cleared at any time, makes the calls of
  the loop and ends as the loop does.\<close>

theorem reader_steps_make_loop:
  "fst (reader_rounds start_reader rounds) = fst (reader_work_thread rounds) \<and>
   end_of (rpc (snd (reader_rounds start_reader rounds))) = snd (reader_work_thread rounds)"
  by (rule reader_rounds_loop) (simp add: start_reader_def)

text \<open>Stopping the reader cannot hang: wherever the thread is when the flag is cleared, it returns
  after at most three steps of its own, whatever the read in progress returns short of an
  error; then it can be joined.\<close>

theorem reader_ends:
  assumes "rpc r \<notin> range Threw"
  shows "rpc (reader_step (reader_step (reader_step (stop_reader r) (Inr a)) (Inr b)) (Inr c)) = Returned \<and>
    reader_destruct [Inr a, Inr b, Inr c] r \<noteq> None"
  using assms by (cases "rpc r") (simp_all add: reader_destruct_def reader_step_def reader_steps)

theorem reader_ends_witness:
  "rpc (reader_step (reader_step (reader_step (stop_reader (start_reader\<lparr>rpc := InRead\<rparr>))
     (Inr ''Event: Up'')) (Inr [])) (Inr [])) = Returned"
proof -
  have "rpc (start_reader\<lparr>rpc := InRead\<rparr>) \<notin> range Threw" by auto
  from reader_ends [OF this] show ?thesis by blast
qed

end
