(* ===== verification/Pipeline.thy ===== *)
theory Pipeline
  imports Connection StreamParser SocketReader
begin

text \<open>
  The threads of a connection and how the constructor of \<open>Connection\<close> wires them: the reader's
  callback adds a chunk to the parser's queue, the parser's callbacks set the version and add a
  message to the dispatcher's queue, the dispatcher's callback calls the client's callbacks, and
  the client's threads open and close pipes. The socket is shared by the reader and the writer.
  The destructor resets the reader, which joins its thread, then the writer, with which the last
  owner of the socket goes, then the parser and the dispatcher, which join theirs.
\<close>

section \<open>State and steps\<close>

text \<open>
  \<open>outbox\<close> are the messages the parser's thread has found in the chunk it is working on and has
  not yet handed to the dispatcher: \<open>add_event\<close> takes the dispatcher's mutex for each of them.
\<close>

record system =
  socket :: int
  closed :: "int list"
  reader :: reader
  parse_thread :: "(parse_state, string) worker"
  outbox :: "string list"
  dispatch_thread :: "(dispatcher result, string) worker"
  client :: connection

definition new_system :: "int \<Rightarrow> system" where
  "new_system sock_fd =
     \<lparr>socket = sock_fd, closed = [], reader = start_reader, parse_thread = parser_start, outbox = [],
      dispatch_thread = dispatcher_start, client = new_connection\<rparr>"

text \<open>
  The constructor: nothing but the socket exists when its opening throws. The assertions
  of the reader and the writer hold, the socket being there.
\<close>

definition connect ::
    "os_calls \<Rightarrow> string \<Rightarrow> 16 word \<Rightarrow> world \<Rightarrow> system result \<times> world" where
  "connect os hostname port w =
     (case tcp_construct os hostname port w of
        (Inl err, w') \<Rightarrow> (Inl err, w')
      | (Inr sock_fd, w') \<Rightarrow>
          (rbind (new_reader (Some sock_fd)) (\<lambda>r. rbind (new_writer (Some sock_fd)) (\<lambda>_.
             Inr ((new_system sock_fd)\<lparr>reader := r\<rparr>))), w'))"

fun messages_in :: "parser_call list \<Rightarrow> string list" where
  "messages_in [] = []"
| "messages_in (Dispatch m # cs) = m # messages_in cs"
| "messages_in (SetVersion v # cs) = messages_in cs"

fun set_versions :: "parser_call list \<Rightarrow> string \<Rightarrow> string" where
  "set_versions [] v = v"
| "set_versions (SetVersion u # cs) v = set_versions cs u"
| "set_versions (Dispatch m # cs) v = set_versions cs v"

definition new_calls :: "parse_state \<Rightarrow> parse_state \<Rightarrow> parser_call list" where
  "new_calls s s' = drop (length (snd s)) (snd s')"

definition log_of :: "dispatcher result \<Rightarrow> ami_event list" where
  "log_of r = (case r of Inl err \<Rightarrow> [] | Inr d \<Rightarrow> notified d)"

datatype sys_label =
  ReaderTest | Received "string result" | Chunk string | StopReader | ReaderJoined | WriterGone
  | ParserRun | HandOver | DispatcherRun | PipeOp pipe_op
  | AddCb string nat | RemoveCb string
  | StopParser | StopDispatcher | WakeParser | WakeDispatcher

inductive sys_step :: "system \<Rightarrow> sys_label \<Rightarrow> system \<Rightarrow> bool" where
  reader_test: "reader_test (reader s) = Some r \<Longrightarrow>
    sys_step s ReaderTest (s\<lparr>reader := r\<rparr>)"
| received: "reader_got (reader s) res = Some r \<Longrightarrow> sys_step s (Received res) (s\<lparr>reader := r\<rparr>)"
| chunk: "reader_called (reader s) = Some (buf, r) \<Longrightarrow>
    StreamParser.add_buf (parse_thread s) buf = Some w \<Longrightarrow>
    sys_step s (Chunk buf) (s\<lparr>reader := r, parse_thread := w\<rparr>)"
| stop_reader: "sys_step s StopReader (s\<lparr>reader := stop_reader (reader s)\<rparr>)"
| reader_joined: "join_reader (reader s) = Some r \<Longrightarrow> sys_step s ReaderJoined (s\<lparr>reader := r\<rparr>)"
| writer_gone: "reader_joined (reader s) \<Longrightarrow> socket s \<noteq> -1 \<Longrightarrow>
    sys_step s WriterGone (s\<lparr>socket := -1, closed := closed s @ [socket s]\<rparr>)"
| parser_run: "outbox s = [] \<Longrightarrow> parser_work_thread (parse_thread s) = Some w \<Longrightarrow>
    cs = new_calls (obj (parse_thread s)) (obj w) \<Longrightarrow>
    sys_step s ParserRun (s\<lparr>parse_thread := w, outbox := messages_in cs,
      client := (client s)\<lparr>ami_version := set_versions cs (ami_version (client s))\<rparr>\<rparr>)"
| hand_over: "outbox s = m # ms \<Longrightarrow> enqueue_event (dispatch_thread s) m = Some w \<Longrightarrow>
    sys_step s HandOver (s\<lparr>dispatch_thread := w, outbox := ms\<rparr>)"
| dispatcher_run: "dispatcher_work_thread (dispatch_thread s) = Some w \<Longrightarrow>
    es = drop (length (log_of (obj (dispatch_thread s)))) (log_of (obj w)) \<Longrightarrow>
    sys_step s DispatcherRun
      (s\<lparr>dispatch_thread := w, client := foldl dispatch_handler (client s) es\<rparr>)"
| pipe_op: "w = (dispatch_thread s)\<lparr>obj := pipe_op_item (obj (dispatch_thread s)) op\<rparr> \<Longrightarrow>
    sys_step s (PipeOp op) (s\<lparr>dispatch_thread := w\<rparr>)"
| add_cb: "sys_step s (AddCb uuid cb) (s\<lparr>client := snd (add_callback (client s) uuid cb)\<rparr>)"
| remove_cb: "sys_step s (RemoveCb key) (s\<lparr>client := remove_callback (client s) key\<rparr>)"
| stop_parser: "socket s = -1 \<Longrightarrow> parser_stop (parse_thread s) = Some w \<Longrightarrow>
    sys_step s StopParser (s\<lparr>parse_thread := w\<rparr>)"
| stop_dispatcher: "stopper (parse_thread s) = Joined \<Longrightarrow>
    dispatcher_stop (dispatch_thread s) = Some w \<Longrightarrow>
    sys_step s StopDispatcher (s\<lparr>dispatch_thread := w\<rparr>)"
| wake_parser: "wpc (parse_thread s) = Sleeping \<Longrightarrow>
    sys_step s WakeParser (s\<lparr>parse_thread := (parse_thread s)\<lparr>wpc := WantLock\<rparr>\<rparr>)"
| wake_dispatcher: "wpc (dispatch_thread s) = Sleeping \<Longrightarrow>
    sys_step s WakeDispatcher (s\<lparr>dispatch_thread := (dispatch_thread s)\<lparr>wpc := WantLock\<rparr>\<rparr>)"

text \<open>\<open>sock_fd\<close> is the descriptor that opening the socket gave.\<close>

inductive sys_reach :: "int \<Rightarrow> sys_label list \<Rightarrow> system \<Rightarrow> bool" for sock_fd :: int where
  start: "sock_fd \<noteq> -1 \<Longrightarrow> sys_reach sock_fd [] (new_system sock_fd)"
| step: "sys_reach sock_fd tr s \<Longrightarrow> sys_step s l s' \<Longrightarrow> sys_reach sock_fd (tr @ [l]) s'"

text \<open>What has come from the network, and what the reader has passed on.\<close>

fun received_text :: "sys_label list \<Rightarrow> string" where
  "received_text [] = []"
| "received_text (Received (Inr buf) # tr) = buf @ received_text tr"
| "received_text (_ # tr) = received_text tr"

lemma received_text_append [simp]: "received_text (tr @ tr') = received_text tr @ received_text tr'"
  by (induction tr rule: received_text.induct) simp_all

fun chunks :: "sys_label list \<Rightarrow> string list" where
  "chunks [] = []"
| "chunks (Chunk c # tr) = c # chunks tr"
| "chunks (_ # tr) = chunks tr"

lemma chunks_append [simp]: "chunks (tr @ tr') = chunks tr @ chunks tr'"
  by (induction tr rule: chunks.induct) simp_all

fun pipe_ops :: "sys_label list \<Rightarrow> pipe_op list" where
  "pipe_ops [] = []"
| "pipe_ops (PipeOp op # tr) = op # pipe_ops tr"
| "pipe_ops (_ # tr) = pipe_ops tr"

lemma pipe_ops_append [simp]: "pipe_ops (tr @ tr') = pipe_ops tr @ pipe_ops tr'"
  by (induction tr rule: pipe_ops.induct) simp_all

section \<open>Each thread runs as it does alone\<close>

lemma messages_in_append [simp]: "messages_in (cs @ ds) = messages_in cs @ messages_in ds"
  by (induction cs rule: messages_in.induct) simp_all

lemma set_versions_append [simp]: "set_versions (cs @ ds) v = set_versions ds (set_versions cs v)"
  by (induction cs arbitrary: v rule: messages_in.induct) simp_all

text \<open>A step of the parser's thread only adds calls.\<close>

lemma parser_run_calls:
  assumes "work_act parse_item w = Some w'"
  shows "snd (obj w') = snd (obj w) @ new_calls (obj w) (obj w')"
proof -
  have "obj w' = obj w \<or> (\<exists>x. obj w' = parse_item (obj w) x)"
    using assms by (auto simp: work_act_def split: worker_pc.splits list.splits if_splits)
  then show ?thesis
    by (auto simp: new_calls_def parse_item_def split: prod.split)
qed

text \<open>What the steps of a worker do to the parts that the others depend on.\<close>

lemma add_item_parts:
  assumes "add_item w x = Some w'"
  shows "stopper w' = stopper w" "obj w' = obj w" "wpc w' = Done \<longleftrightarrow> wpc w = Done"
  using assms by (auto simp: add_item_def notify_one_def split: if_splits)

lemma work_act_parts:
  assumes "work_act f w = Some w'"
  shows "stopper w' = stopper w" "wpc w' = Done \<Longrightarrow> queue w' = [] \<and> obj w' = obj w"
  using assms by (auto simp: work_act_def split: worker_pc.splits list.splits if_splits)

lemma stop_act_parts:
  assumes "stop_act w = Some w'"
  shows "stopper w' \<noteq> Running" "obj w' = obj w" "queue w' = queue w" "wpc w' = Done \<longleftrightarrow> wpc w = Done"
    "stopper w \<noteq> Joined"
  using assms by (auto simp: stop_act_def notify_one_def split: stop_phase.splits if_splits)

text \<open>
  The invariant that connects the threads: each is in a state it reaches alone, and the messages
  the parser has found are those added to the dispatcher and those in the outbox.
\<close>

definition runs ::
    "(string, unit) wlabel list \<Rightarrow> (string, pipe_op) wlabel list \<Rightarrow> sys_label list \<Rightarrow> system \<Rightarrow> bool" where
  "runs tp td tr s \<longleftrightarrow>
     wreach parse_item no_op (new_parser, []) tp (parse_thread s) \<and>
     wreach dispatch_item pipe_op_item (Inr new_dispatcher) td (dispatch_thread s) \<and>
     received_text tr = concat (chunks tr) @ in_hand (reader s) \<and>
     added tp = chunks tr \<and> external td = pipe_ops tr \<and>
     messages_in (snd (obj (parse_thread s))) = added td @ outbox s \<and>
     ami_version (client s) = set_versions (snd (obj (parse_thread s))) []"

text \<open>The order in which the destructor stops the threads keeps the queues of ended threads empty.\<close>

definition orderly :: "int \<Rightarrow> system \<Rightarrow> bool" where
  "orderly sock_fd s \<longleftrightarrow> sock_fd \<noteq> -1 \<and>
     (reader_joined (reader s) \<longrightarrow> rpc (reader s) = Returned) \<and>
     (socket s = -1 \<longrightarrow> reader_joined (reader s)) \<and>
     (if socket s = -1 then closed s = [sock_fd] else socket s = sock_fd \<and> closed s = []) \<and>
     (socket s \<noteq> -1 \<longrightarrow> stopper (parse_thread s) = Running) \<and>
     (wpc (parse_thread s) = Done \<longrightarrow> queue (parse_thread s) = [] \<and> outbox s = []) \<and>
     (stopper (dispatch_thread s) \<noteq> Running \<longrightarrow> stopper (parse_thread s) = Joined) \<and>
     (wpc (dispatch_thread s) = Done \<longrightarrow> queue (dispatch_thread s) = [])"

lemma runs_inv:
  assumes "runs tp td tr s"
  shows "worker_inv (parse_thread s)" "worker_inv (dispatch_thread s)"
  using assms by (auto simp: runs_def intro: worker_inv_reach)

lemma obj_start: "obj (start_worker x) = x"
  by (simp add: start_worker_def)

lemma handler_version: "ami_version (foldl dispatch_handler c es) = ami_version c"
  by (induction es arbitrary: c) (simp_all add: dispatch_handler_def)

lemma runs_step:
  assumes "sys_step s l s'" and "runs tp td tr s"
  shows "\<exists>tp' td'. prefix tp tp' \<and> prefix td td' \<and> runs tp' td' (tr @ [l]) s'"
proof -
  have grow: "prefix tp tp" "prefix td td" "\<And>xs. prefix tp (tp @ xs)" "\<And>xs. prefix td (td @ xs)"
    by simp_all
  have wp: "wreach parse_item no_op (new_parser, []) tp (parse_thread s)"
    and wd: "wreach dispatch_item pipe_op_item (Inr new_dispatcher) td (dispatch_thread s)"
    using assms(2) by (simp_all add: runs_def)
  note pstep = wreach.step [OF wp] and dstep = wreach.step [OF wd]
  show ?thesis using assms(1)
  proof (cases rule: sys_step.cases)
    case (reader_test r)
    with assms(2) reader_test_parts [of "reader s" r] have "runs tp td (tr @ [l]) s'"
      by (simp add: runs_def)
    with grow show ?thesis by blast
  next
    case (received res r)
    with assms(2) reader_got_parts [OF received(3)] have "runs tp td (tr @ [l]) s'"
      by (cases res) (simp_all add: runs_def)
    with grow show ?thesis by blast
  next
    case (chunk buf r w)
    then have a: "add_item (parse_thread s) buf = Some w" by (simp add: add_buf_def)
    with chunk assms(2) pstep [of "Add buf" w] add_item_parts [OF a] reader_called_parts [OF chunk(3)]
    have "runs (tp @ [Add buf]) td (tr @ [l]) s'" by (simp add: runs_def)
    with grow show ?thesis by blast
  next
    case stop_reader
    with assms(2) have "runs tp td (tr @ [l]) s'" by (simp add: runs_def)
    with grow show ?thesis by blast
  next
    case (reader_joined r)
    with assms(2) join_reader_parts [of "reader s" r] have "runs tp td (tr @ [l]) s'"
      by (simp add: runs_def)
    with grow show ?thesis by blast
  next
    case writer_gone
    with assms(2) have "runs tp td (tr @ [l]) s'" by (simp add: runs_def)
    with grow show ?thesis by blast
  next
    case (parser_run w cs)
    then have a: "work_act parse_item (parse_thread s) = Some w" by (simp add: parser_work_thread_def)
    with parser_run assms(2) pstep [of Work w] parser_run_calls [OF a]
    have "runs (tp @ [Work]) td (tr @ [l]) s'" by (simp add: runs_def)
    with grow show ?thesis by blast
  next
    case (hand_over m ms w)
    then have a: "add_item (dispatch_thread s) m = Some w" by (simp add: enqueue_event_def)
    with hand_over assms(2) dstep [of "Add m" w] have "runs tp (td @ [Add m]) (tr @ [l]) s'"
      by (simp add: runs_def)
    with grow show ?thesis by blast
  next
    case (dispatcher_run w es)
    with assms(2) dstep [of Work w] have "runs tp (td @ [Work]) (tr @ [l]) s'"
      by (simp add: runs_def dispatcher_work_thread_def handler_version)
    with grow show ?thesis by blast
  next
    case (pipe_op w op)
    with assms(2) dstep [of "Ext op" w] have "runs tp (td @ [Ext op]) (tr @ [l]) s'"
      by (simp add: runs_def)
    with grow show ?thesis by blast
  next
    case (add_cb uuid cb)
    with assms(2) have "runs tp td (tr @ [l]) s'"
      by (simp add: runs_def add_callback_def Let_def)
    with grow show ?thesis by blast
  next
    case (remove_cb key)
    with assms(2) have "runs tp td (tr @ [l]) s'" by (simp add: runs_def remove_callback_def)
    with grow show ?thesis by blast
  next
    case (stop_parser w)
    then have a: "stop_act (parse_thread s) = Some w" by (simp add: parser_stop_def)
    with stop_parser assms(2) pstep [of Stop w] stop_act_parts(2) [OF a]
    have "runs (tp @ [Stop]) td (tr @ [l]) s'" by (simp add: runs_def)
    with grow show ?thesis by blast
  next
    case (stop_dispatcher w)
    with assms(2) dstep [of Stop w] have "runs tp (td @ [Stop]) (tr @ [l]) s'"
      by (simp add: runs_def dispatcher_stop_def)
    with grow show ?thesis by blast
  next
    case wake_parser
    with assms(2) pstep [of Spurious] have "runs (tp @ [Spurious]) td (tr @ [l]) s'"
      by (simp add: runs_def)
    with grow show ?thesis by blast
  next
    case wake_dispatcher
    with assms(2) dstep [of Spurious] have "runs tp (td @ [Spurious]) (tr @ [l]) s'"
      by (simp add: runs_def)
    with grow show ?thesis by blast
  qed
qed

lemma orderly_step:
  assumes "sys_step s l s'" and "orderly fd s" and "worker_inv (parse_thread s)"
    and "worker_inv (dispatch_thread s)"
  shows "orderly fd s'"
proof -
  have done_p: "wpc (parse_thread s) = Done \<Longrightarrow> stopper (parse_thread s) \<noteq> Running"
    and done_d: "wpc (dispatch_thread s) = Done \<Longrightarrow> stopper (dispatch_thread s) \<noteq> Running"
    and joined: "stopper (parse_thread s) = Joined \<Longrightarrow> wpc (parse_thread s) = Done"
    using assms(3,4) by (auto simp: worker_inv_def)
  show ?thesis using assms(1)
  proof (cases rule: sys_step.cases)
    case (reader_test r)
    with assms(2) reader_test_parts [of "reader s" r] show ?thesis by (auto simp: orderly_def)
  next
    case (received res r)
    with assms(2) reader_got_parts [of "reader s" res r] show ?thesis by (auto simp: orderly_def)
  next
    case (chunk buf r w)
    then have a: "add_item (parse_thread s) buf = Some w" by (simp add: add_buf_def)
    from chunk reader_called_parts [OF chunk(3)] assms(2)
    have "stopper (parse_thread s) = Running" by (auto simp: orderly_def)
    with chunk assms(2) done_p add_item_parts [OF a] reader_called_parts [OF chunk(3)]
    show ?thesis by (auto simp: orderly_def)
  next
    case (reader_joined r)
    with assms(2) join_reader_parts [of "reader s" r] show ?thesis by (auto simp: orderly_def)
  next
    case writer_gone
    with assms(2) show ?thesis by (auto simp: orderly_def)
  next
    case (parser_run w cs)
    then have a: "work_act parse_item (parse_thread s) = Some w" by (simp add: parser_work_thread_def)
    have "wpc w = Done \<Longrightarrow> cs = []"
      using parser_run work_act_parts(2) [OF a] by (simp add: new_calls_def)
    with parser_run assms(2) work_act_parts [OF a] show ?thesis by (auto simp: orderly_def)
  next
    case (hand_over m ms w)
    then have a: "add_item (dispatch_thread s) m = Some w" by (simp add: enqueue_event_def)
    from hand_over assms(2) joined have "stopper (dispatch_thread s) = Running"
      by (auto simp: orderly_def)
    with hand_over assms(2) done_d add_item_parts [OF a] show ?thesis by (auto simp: orderly_def)
  next
    case (dispatcher_run w es)
    then have a: "work_act dispatch_item (dispatch_thread s) = Some w"
      by (simp add: dispatcher_work_thread_def)
    with dispatcher_run assms(2) work_act_parts [OF a] show ?thesis by (auto simp: orderly_def)
  next
    case (stop_parser w)
    then have a: "stop_act (parse_thread s) = Some w" by (simp add: parser_stop_def)
    from stop_act_parts(5) [OF a] assms(2) have "stopper (dispatch_thread s) = Running"
      by (auto simp: orderly_def)
    with stop_parser assms(2) stop_act_parts [OF a] show ?thesis by (auto simp: orderly_def)
  next
    case (stop_dispatcher w)
    then have a: "stop_act (dispatch_thread s) = Some w" by (simp add: dispatcher_stop_def)
    with stop_dispatcher assms(2) stop_act_parts [OF a] show ?thesis by (auto simp: orderly_def)
  qed (use assms(2) in \<open>simp_all add: orderly_def\<close>)
qed

lemma sys_invariant:
  "sys_reach fd tr s \<Longrightarrow> (\<exists>tp td. runs tp td tr s) \<and> orderly fd s"
proof (induction rule: sys_reach.induct)
  case start
  have p: "parser_start = start_worker (new_parser, [])" by (simp add: parser_start_def new_parser_def)
  have "runs [] [] [] (new_system fd)"
    by (simp add: runs_def new_system_def p dispatcher_start_def new_connection_def start_reach obj_start
        start_reader_def in_hand_def)
  moreover from start have "orderly fd (new_system fd)"
    by (simp add: start_reader_def orderly_def new_system_def parser_start_def dispatcher_start_def start_worker_def)
  ultimately show ?case by blast
next
  case (step tr s l s')
  then obtain tp td where r: "runs tp td tr s" and o: "orderly fd s" by blast
  from runs_step [OF step(2) r] orderly_step [OF step(2) o runs_inv [OF r]] show ?case by blast
qed

section \<open>Running the system\<close>

text \<open>The steps as a function, to run the system along a given interleaving.\<close>

fun sys_exec :: "system \<Rightarrow> sys_label \<Rightarrow> system option" where
  "sys_exec s ReaderTest = map_option (\<lambda>r. s\<lparr>reader := r\<rparr>) (reader_test (reader s))"
| "sys_exec s (Received res) = map_option (\<lambda>r. s\<lparr>reader := r\<rparr>) (reader_got (reader s) res)"
| "sys_exec s (Chunk buf) =
     (case reader_called (reader s) of
        None \<Rightarrow> None
      | Some (arg, r) \<Rightarrow>
          if arg = buf
          then map_option (\<lambda>w. s\<lparr>reader := r, parse_thread := w\<rparr>)
                 (StreamParser.add_buf (parse_thread s) buf)
          else None)"
| "sys_exec s StopReader = Some (s\<lparr>reader := stop_reader (reader s)\<rparr>)"
| "sys_exec s ReaderJoined = map_option (\<lambda>r. s\<lparr>reader := r\<rparr>) (join_reader (reader s))"
| "sys_exec s WriterGone =
     (if reader_joined (reader s) \<and> socket s \<noteq> -1
      then Some (s\<lparr>socket := -1, closed := closed s @ [socket s]\<rparr>) else None)"
| "sys_exec s ParserRun =
     (if outbox s = [] then
        map_option
          (\<lambda>w. let cs = new_calls (obj (parse_thread s)) (obj w)
               in s\<lparr>parse_thread := w, outbox := messages_in cs,
                    client := (client s)\<lparr>ami_version := set_versions cs (ami_version (client s))\<rparr>\<rparr>)
          (parser_work_thread (parse_thread s))
      else None)"
| "sys_exec s HandOver =
     (case outbox s of
        [] \<Rightarrow> None
      | m # ms \<Rightarrow> map_option (\<lambda>w. s\<lparr>dispatch_thread := w, outbox := ms\<rparr>)
                   (enqueue_event (dispatch_thread s) m))"
| "sys_exec s DispatcherRun =
     map_option
       (\<lambda>w. let es = drop (length (log_of (obj (dispatch_thread s)))) (log_of (obj w))
            in s\<lparr>dispatch_thread := w, client := foldl dispatch_handler (client s) es\<rparr>)
       (dispatcher_work_thread (dispatch_thread s))"
| "sys_exec s (PipeOp op) =
     Some (s\<lparr>dispatch_thread := (dispatch_thread s)\<lparr>obj := pipe_op_item (obj (dispatch_thread s)) op\<rparr>\<rparr>)"
| "sys_exec s (AddCb uuid cb) = Some (s\<lparr>client := snd (add_callback (client s) uuid cb)\<rparr>)"
| "sys_exec s (RemoveCb key) = Some (s\<lparr>client := remove_callback (client s) key\<rparr>)"
| "sys_exec s StopParser =
     (if socket s = -1
      then map_option (\<lambda>w. s\<lparr>parse_thread := w\<rparr>) (parser_stop (parse_thread s)) else None)"
| "sys_exec s StopDispatcher =
     (if stopper (parse_thread s) = Joined
      then map_option (\<lambda>w. s\<lparr>dispatch_thread := w\<rparr>) (dispatcher_stop (dispatch_thread s)) else None)"
| "sys_exec s WakeParser =
     (if wpc (parse_thread s) = Sleeping
      then Some (s\<lparr>parse_thread := (parse_thread s)\<lparr>wpc := WantLock\<rparr>\<rparr>) else None)"
| "sys_exec s WakeDispatcher =
     (if wpc (dispatch_thread s) = Sleeping
      then Some (s\<lparr>dispatch_thread := (dispatch_thread s)\<lparr>wpc := WantLock\<rparr>\<rparr>) else None)"

lemma sys_exec_step: "sys_exec s l = Some s' \<Longrightarrow> sys_step s l s'"
  by (cases l) (auto simp: Let_def split: if_splits list.splits option.splits intro!: sys_step.intros)

fun sys_run :: "system \<Rightarrow> sys_label list \<Rightarrow> system option" where
  "sys_run s [] = Some s"
| "sys_run s (l # ls) = (case sys_exec s l of None \<Rightarrow> None | Some s' \<Rightarrow> sys_run s' ls)"

lemma sys_run_reach: "sys_run s ls = Some s' \<Longrightarrow> sys_reach fd tr s \<Longrightarrow> sys_reach fd (tr @ ls) s'"
proof (induction ls arbitrary: s tr)
  case (Cons l ls)
  then obtain s1 where s1: "sys_exec s l = Some s1" "sys_run s1 ls = Some s'"
    by (auto split: option.splits)
  from sys_reach.step [OF Cons.prems(2) sys_exec_step [OF s1(1)]] Cons.IH [OF s1(2), of "tr @ [l]"]
  show ?case by simp
qed simp

section \<open>What the threads have done together\<close>

lemma messages_in_Dispatch: "messages_in (map Dispatch ms) = ms"
  by (induction ms) simp_all

lemma parsed_readable:
  assumes "fits (concat cs)" and "m \<in> set (messages_in (snd (parsed cs)))"
  shows "readable m"
proof (cases cs)
  case Nil
  with assms(2) show ?thesis by simp
next
  case (Cons c ds)
  let ?s = "after_greeting c @ concat ds"
  from assms(2) have m: "m \<in> set (fst (split_messages ?s))"
    unfolding Cons parsed_Cons by (simp add: messages_in_Dispatch)
  then obtain xs ys where "fst (split_messages ?s) = xs @ m # ys" by (meson split_list)
  then have "length m \<le> length (concat (fst (split_messages ?s)))" by simp
  also have "\<dots> \<le> length ?s" using split_messages_sound [of ?s] by (metis length_append le_add1)
  also have "\<dots> \<le> length (concat cs)" using after_greeting_length [of c] by (simp add: Cons)
  finally have "fits m" using assms(1) by (rule fits_le [rotated])
  moreover have "is_message m" using m split_messages_sound [of ?s] by blast
  then have "suffix EOM m" by (rule message_ends_in_EOM)
  then have "suffix EOR m" by (rule suffix_order.trans [rotated]) (simp add: EOM_EOR suffix_def)
  ultimately show ?thesis by (simp add: readable_def)
qed

lemma parsed_prefix: "\<exists>rest. messages_in (snd (parsed (cs @ ds))) = messages_in (snd (parsed cs)) @ rest"
proof (cases cs)
  case Nil
  then show ?thesis by simp
next
  case (Cons c es)
  show ?thesis
    unfolding Cons append_Cons parsed_Cons concat_append append_assoc [symmetric]
      split_messages_append [of "after_greeting c @ concat es"]
    by (simp add: messages_in_Dispatch)
qed

lemma runs_parsed:
  assumes "runs tp td tr s" and "fits (concat (chunks tr))"
  shows "\<exists>past. chunks tr = past @ pending (parse_thread s) \<and> obj (parse_thread s) = parsed past \<and>
    messages_in (snd (parsed past)) = added td @ outbox s \<and> (\<forall>m \<in> set (added td). readable m)"
proof -
  from assms(1) have runs: "wreach parse_item no_op (new_parser, []) tp (parse_thread s)"
      "added tp = chunks tr" "messages_in (snd (obj (parse_thread s))) = added td @ outbox s"
    by (simp_all add: runs_def)
  from assms(2) have f: "fits (concat (added tp))" by (simp only: runs(2))
  from parser.reachable_good [OF runs(1) f] obtain past where
    past: "added tp = past @ pending (parse_thread s)" "obj (parse_thread s) = parsed past" by blast
  have split: "chunks tr = past @ pending (parse_thread s)" using past(1) unfolding runs(2) .
  from assms(2) have fp: "fits (concat past)" unfolding split by (simp add: fits_def)
  have found: "messages_in (snd (parsed past)) = added td @ outbox s"
    using runs(3) unfolding past(2) .
  have "readable m" if "m \<in> set (added td)" for m
    using parsed_readable [OF fp] that by (simp add: found)
  with split past(2) found show ?thesis by blast
qed

lemma system_history:
  assumes "sys_reach fd tr s" and "fits (concat (chunks tr))"
  shows "\<exists>past hist d. chunks tr = past @ pending (parse_thread s) \<and>
    obj (parse_thread s) = parsed past \<and>
    obj (dispatch_thread s) = Inr d \<and> reachable hist d \<and> hub_of d = foldl hub_event new_hub hist \<and>
    messages_in (snd (parsed past)) = items hist @ pending (dispatch_thread s) @ outbox s \<and>
    operations hist = pipe_ops tr \<and> ami_version (client s) = set_versions (snd (parsed past)) []"
proof -
  from sys_invariant [OF assms(1)] obtain tp td where r: "runs tp td tr s" by blast
  then have runs: "wreach dispatch_item pipe_op_item (Inr new_dispatcher) td (dispatch_thread s)"
      "external td = pipe_ops tr" "ami_version (client s) = set_versions (snd (obj (parse_thread s))) []"
    by (simp_all add: runs_def)
  from runs_parsed [OF r assms(2)] obtain past where
    past: "chunks tr = past @ pending (parse_thread s)" "obj (parse_thread s) = parsed past"
      "messages_in (snd (parsed past)) = added td @ outbox s" "\<forall>m \<in> set (added td). readable m" by blast
  from dispatcher_history [OF runs(1) past(4)] obtain hist d where
    "added td = items hist @ pending (dispatch_thread s)" "external td = operations hist"
    "obj (dispatch_thread s) = Inr d" "reachable hist d" "hub_of d = foldl hub_event new_hub hist"
    by blast
  note hist = this
  have "messages_in (snd (parsed past)) = items hist @ pending (dispatch_thread s) @ outbox s"
    using past(3) unfolding hist(1) append_assoc .
  moreover have "operations hist = pipe_ops tr" using hist(2) unfolding runs(2) by (rule sym)
  moreover have "ami_version (client s) = set_versions (snd (parsed past)) []"
    using runs(3) unfolding past(2) .
  ultimately show ?thesis using past(1,2) hist(3-5) by blast
qed

text \<open>A run that is cut in two: the threads' runs and the dispatcher's history are cut as well.\<close>

lemma runs_split:
  "sys_reach fd (tr @ tr') s \<Longrightarrow>
   \<exists>s1 tp td tp' td'. sys_reach fd tr s1 \<and> runs tp td tr s1 \<and> runs (tp @ tp') (td @ td') (tr @ tr') s"
proof (induction tr' arbitrary: s rule: rev_induct)
  case Nil
  with sys_invariant [of fd tr s] obtain tp td where "runs tp td tr s" by auto
  with Nil show ?case by (intro exI [of _ s] exI [of _ tp] exI [of _ td] exI [of _ "[]"]) simp
next
  case (snoc l tr')
  from snoc.prems obtain s0 where s0: "sys_reach fd (tr @ tr') s0" "sys_step s0 l s"
    by (cases rule: sys_reach.cases) auto
  from snoc.IH [OF s0(1)] obtain s1 tp td tp' td' where
    s1: "sys_reach fd tr s1" "runs tp td tr s1" "runs (tp @ tp') (td @ td') (tr @ tr') s0" by blast
  from runs_step [OF s0(2) s1(3)] obtain tp2 td2 where
    "runs (tp @ tp' @ tp2) (td @ td' @ td2) ((tr @ tr') @ [l]) s" by (auto elim!: prefixE)
  with s1(1,2) show ?case by (metis append_assoc)
qed

lemma history_split:
  assumes "sys_reach fd (tr @ tr') s" and "fits (concat (chunks (tr @ tr')))"
  shows "\<exists>hist more d seen rest. obj (dispatch_thread s) = Inr d \<and> reachable (hist @ more) d \<and>
    operations hist = pipe_ops tr \<and> operations (hist @ more) = pipe_ops (tr @ tr') \<and>
    messages_in (snd (parsed (chunks tr))) = items hist @ seen \<and>
    messages_in (snd (parsed (chunks (tr @ tr')))) =
      items (hist @ more) @ pending (dispatch_thread s) @ outbox s @ rest \<and>
    (pending (parse_thread s) = [] \<longrightarrow> rest = [])"
proof -
  from runs_split [OF assms(1)] obtain s1 tp td tp' td' where
    r1: "runs tp td tr s1" and r: "runs (tp @ tp') (td @ td') (tr @ tr') s" by blast
  from assms(2) have "fits (concat (chunks tr))" by (simp add: fits_def)
  from runs_parsed [OF r1 this] obtain past1 where
    past1: "chunks tr = past1 @ pending (parse_thread s1)"
      "messages_in (snd (parsed past1)) = added td @ outbox s1" by blast
  from parsed_prefix [of past1 "pending (parse_thread s1)"] obtain seen1 where
    "messages_in (snd (parsed (chunks tr))) = messages_in (snd (parsed past1)) @ seen1"
    unfolding past1(1) by blast
  then have seen: "messages_in (snd (parsed (chunks tr))) = added td @ outbox s1 @ seen1"
    by (simp add: past1(2))
  from runs_parsed [OF r assms(2)] obtain past where
    past: "chunks (tr @ tr') = past @ pending (parse_thread s)"
      "messages_in (snd (parsed past)) = added (td @ td') @ outbox s"
      "\<forall>m \<in> set (added (td @ td')). readable m" by blast
  from parsed_prefix [of past "pending (parse_thread s)"] obtain rest where
    "messages_in (snd (parsed (chunks (tr @ tr')))) = messages_in (snd (parsed past)) @ rest"
    unfolding past(1) by blast
  then have rest: "messages_in (snd (parsed (chunks (tr @ tr')))) = added (td @ td') @ outbox s @ rest"
    by (simp add: past(2))
  have "wreach dispatch_item pipe_op_item (Inr new_dispatcher) (td @ td') (dispatch_thread s)"
    using r by (simp add: runs_def)
  from worker_fifo_split [OF this] obtain hist p more where
    h: "added td = items hist @ p" "operations hist = external td"
      "added (td @ td') = items (hist @ more) @ pending (dispatch_thread s)"
      "operations (hist @ more) = external (td @ td')"
      "obj (dispatch_thread s) = serial dispatch_item pipe_op_item (Inr new_dispatcher) (hist @ more)"
    by blast
  from h(3) past(3) have readable: "readable_history (hist @ more)"
    by (auto simp: readable_history_def)
  from history_ok [OF disp_inv_new readable] h(5) obtain d where
    d: "obj (dispatch_thread s) = Inr d" "reachable (hist @ more) d"
    using readable by (auto simp: serial_dispatch reachable_def)
  have "pending (parse_thread s) = [] \<longrightarrow> rest = []"
    using rest past by auto
  moreover have "operations hist = pipe_ops tr" "operations (hist @ more) = pipe_ops (tr @ tr')"
    using h(2,4) r1 r by (simp_all add: runs_def)
  moreover have "messages_in (snd (parsed (chunks tr))) = items hist @ p @ outbox s1 @ seen1"
    by (simp add: seen h(1))
  moreover have "messages_in (snd (parsed (chunks (tr @ tr')))) =
      items (hist @ more) @ pending (dispatch_thread s) @ outbox s @ rest"
    unfolding rest h(3) by simp
  ultimately show ?thesis using d by blast
qed

text \<open>
  Once the dispatcher has been joined, nothing is pending anywhere and the socket is closed, once.
\<close>

lemma all_joined:
  assumes "sys_reach fd tr s" and "stopper (dispatch_thread s) = Joined"
  shows "pending (parse_thread s) = []" "pending (dispatch_thread s) = []" "outbox s = []"
    "received_text tr = concat (chunks tr)" "closed s = [fd]"
proof -
  from sys_invariant [OF assms(1)] obtain tp td where r: "runs tp td tr s" and o: "orderly fd s" by blast
  note inv = runs_inv [OF r]
  from inv(2) assms(2) have d: "wpc (dispatch_thread s) = Done" by (simp add: worker_inv_def)
  from o assms(2) have j: "stopper (parse_thread s) = Joined" by (simp add: orderly_def)
  with inv(1) have p: "wpc (parse_thread s) = Done" by (simp add: worker_inv_def)
  from o d p inv show "pending (parse_thread s) = []" "pending (dispatch_thread s) = []" "outbox s = []"
    by (simp_all add: orderly_def pending_def worker_inv_def)
  from o j have "socket s = -1" by (auto simp: orderly_def)
  with o have "rpc (reader s) = Returned" "closed s = [fd]" by (simp_all add: orderly_def)
  then show "received_text tr = concat (chunks tr)" "closed s = [fd]"
    using r by (simp_all add: runs_def in_hand_def)
qed

lemma received_chunks: "sys_reach fd tr s \<Longrightarrow> received_text tr = concat (chunks tr) @ in_hand (reader s)"
  using sys_invariant [of fd tr s] by (auto simp: runs_def)

section \<open>Making a connection\<close>

text \<open>C38. The constructor of a connection either throws, with no thread started and no descriptor left
  open but the one that is opened before the arguments are found invalid, or gives the system in
  its initial state, reachable from its own descriptor, which is the only one added and which the
  destructor of the socket closes.\<close>

theorem connect_resources:
  "case connect os hostname port w of
     (Inr s, w') \<Rightarrow> s = new_system (socket_call os) \<and> sys_reach (socket_call os) [] s \<and>
       fds w' = socket_call os # fds w \<and> infos w' = infos w \<and>
       fds (snd (tcp_destruct (socket s) w')) = fds w
   | (Inl err, w') \<Rightarrow> infos w' = infos w \<and>
       fds w' = (if isl (fst (tcp_open os hostname port w)) then fds w else socket_call os # fds w)"
proof -
  obtain r w' where o: "tcp_open os hostname port w = (r, w')" by fastforce
  then have f: "isl (fst (tcp_open os hostname port w)) = isl r" by simp
  from open_balance [where os = os and hostname = hostname and port = port and w = w]
  have open_parts: "case r of Inl err \<Rightarrow> fds w' = fds w \<and> infos w' = infos w
      | Inr fd \<Rightarrow> fds w' = fd # fds w \<and> infos w' = infos w \<and> fd = socket_call os \<and> fd \<noteq> -1"
    unfolding o by (simp split: sum.splits)
  show ?thesis
  proof (cases r)
    case (Inl err)
    with open_parts show ?thesis unfolding f by (simp add: connect_def tcp_construct_def o)
  next
    case (Inr fd)
    show ?thesis
    proof (cases "hostname = [] \<or> port = 0")
      case True
      then have "\<exists>err. tcp_construct os hostname port w = (Inl err, w')"
        unfolding tcp_construct_def o by (auto simp: Inr)
      then obtain err where "connect os hostname port w = (Inl err, w')" by (auto simp: connect_def)
      with open_parts Inr show ?thesis unfolding f by simp
    next
      case False
      have "(new_system fd)\<lparr>reader := start_reader\<rparr> = new_system fd" by (simp add: new_system_def)
      moreover from open_parts Inr have "sys_reach fd [] (new_system fd)" by (intro sys_reach.start) simp
      moreover have "socket (new_system fd) = fd" by (simp add: new_system_def)
      ultimately show ?thesis using False open_parts Inr
        unfolding f
        by (simp add: connect_def tcp_construct_def o new_reader_def new_writer_def tcp_destruct_def tcp_close_def close_fd_def)
    qed
  qed
qed

end
