(* ===== verification/Progress.thy ===== *)
theory Progress
  imports Pipeline
begin

text \<open>
  The system goes on by itself: from every state in which the two work threads have not been told
  to stop, the steps of these threads alone (no further input, no wake-up without a
  notification) lead to a state in which all that was received has been processed.
\<close>

section \<open>Runs of the work threads\<close>

fun own_step :: "sys_label \<Rightarrow> bool" where
  "own_step ParserRun \<longleftrightarrow> True"
| "own_step HandOver \<longleftrightarrow> True"
| "own_step DispatcherRun \<longleftrightarrow> True"
| "own_step _ \<longleftrightarrow> False"

definition proceeds :: "system \<Rightarrow> sys_label list \<Rightarrow> system \<Rightarrow> bool" where
  "proceeds s ls s' \<longleftrightarrow> (\<forall>l \<in> set ls. own_step l) \<and> sys_run s ls = Some s'"

lemma sys_run_append: "sys_run s (ls @ ls') = (case sys_run s ls of None \<Rightarrow> None | Some s' \<Rightarrow> sys_run s' ls')"
  by (induction ls arbitrary: s) (auto split: option.split)

lemma proceeds_Nil: "proceeds s [] s"
  by (simp add: proceeds_def)

lemma proceeds_append: "proceeds s ls s1 \<Longrightarrow> proceeds s1 ls' s2 \<Longrightarrow> proceeds s (ls @ ls') s2"
  by (auto simp: proceeds_def sys_run_append)

lemma own_steps_quiet:
  "\<forall>l \<in> set ls. own_step l \<Longrightarrow> chunks ls = [] \<and> pipe_ops ls = [] \<and> received_text ls = []"
proof (induction ls)
  case (Cons l ls)
  then show ?case by (cases l) simp_all
qed simp

text \<open>Both threads are to go on.\<close>

definition live :: "system \<Rightarrow> bool" where
  "live s \<longleftrightarrow> worker_inv (parse_thread s) \<and> worker_inv (dispatch_thread s) \<and>
     run_flag (parse_thread s) \<and> run_flag (dispatch_thread s)"

lemma work_act_flag: "work_act f w = Some w' \<Longrightarrow> run_flag w' = run_flag w"
  by (auto simp: work_act_def split: worker_pc.splits list.splits if_splits)

lemma work_steps_flag: "work_steps f n w = Some w' \<Longrightarrow> run_flag w' = run_flag w"
  by (induction n arbitrary: w) (auto split: option.splits dest: work_act_flag)

lemma add_item_flag: "add_item w x = Some w' \<Longrightarrow> run_flag w' = run_flag w"
  by (auto simp: add_item_def notify_one_def split: if_splits)

text \<open>A thread that holds its mutex gives it back within two steps.\<close>

lemma gives_back:
  assumes "worker_inv w" and "run_flag w"
  shows "\<exists>n w'. work_steps f n w = Some w' \<and> \<not> lock_held w'"
proof (cases "lock_held w")
  case False
  then show ?thesis by (intro exI [of _ 0]) simp
next
  case True
  with assms consider "wpc w = TestPred" | "wpc w = GoingToSleep" | "wpc w = Swapping"
    by (auto simp: worker_inv_def)
  then show ?thesis
  proof cases
    case 1
    then have "\<exists>w'. work_steps f 2 w = Some w' \<and> \<not> lock_held w'"
      by (simp add: numeral_2_eq_2 work_act_def)
    then show ?thesis by blast
  next
    case 2
    then have "\<exists>w'. work_steps f 1 w = Some w' \<and> \<not> lock_held w'" by (simp add: work_act_def)
    then show ?thesis by blast
  next
    case 3
    then have "\<exists>w'. work_steps f 1 w = Some w' \<and> \<not> lock_held w'" by (simp add: work_act_def)
    then show ?thesis by blast
  qed
qed

section \<open>Each thread in the system\<close>

lemma dispatcher_runs:
  "work_steps dispatch_item n (dispatch_thread s) = Some w \<Longrightarrow>
   \<exists>s'. proceeds s (replicate n DispatcherRun) s' \<and> dispatch_thread s' = w \<and>
     parse_thread s' = parse_thread s \<and> outbox s' = outbox s"
proof (induction n arbitrary: s)
  case (Suc n)
  then obtain w1 where w1: "work_act dispatch_item (dispatch_thread s) = Some w1"
    "work_steps dispatch_item n w1 = Some w" by (auto split: option.splits)
  let ?es = "drop (length (log_of (obj (dispatch_thread s)))) (log_of (obj w1))"
  let ?s1 = "s\<lparr>dispatch_thread := w1, client := foldl dispatch_handler (client s) ?es\<rparr>"
  have "sys_exec s DispatcherRun = Some ?s1"
    by (simp add: dispatcher_work_thread_def w1(1) Let_def)
  moreover from Suc.IH [of ?s1] w1(2) obtain s' where "proceeds ?s1 (replicate n DispatcherRun) s'"
    "dispatch_thread s' = w" "parse_thread s' = parse_thread s" "outbox s' = outbox s" by auto
  ultimately show ?case by (intro exI [of _ s']) (simp add: proceeds_def del: sys_exec.simps)
qed (simp add: proceeds_def)

lemma dispatcher_live:
  assumes "live s" and "work_steps dispatch_item n (dispatch_thread s) = Some w"
    and "dispatch_thread s' = w" and "parse_thread s' = parse_thread s"
  shows "live s'"
  using assms work_steps_inv [OF assms(2)] work_steps_flag [OF assms(2)] by (simp add: live_def)

lemma hand_over_one:
  assumes "live s" and "outbox s = m # ms"
  shows "\<exists>ls s'. proceeds s ls s' \<and> live s' \<and> outbox s' = ms \<and> parse_thread s' = parse_thread s"
proof -
  from gives_back [of "dispatch_thread s" dispatch_item] assms(1) obtain n w where
    w: "work_steps dispatch_item n (dispatch_thread s) = Some w" "\<not> lock_held w"
    by (auto simp: live_def)
  from dispatcher_runs [OF w(1)] obtain s1 where s1: "proceeds s (replicate n DispatcherRun) s1"
    "dispatch_thread s1 = w" "parse_thread s1 = parse_thread s" "outbox s1 = outbox s" by blast
  from dispatcher_live [OF assms(1) w(1) s1(2,3)] have live1: "live s1" .
  from w(2) obtain w' where w': "add_item (dispatch_thread s1) m = Some w'"
    by (simp add: s1(2) add_item_def)
  let ?s' = "s1\<lparr>dispatch_thread := w', outbox := ms\<rparr>"
  have "proceeds s1 [HandOver] ?s'"
    by (simp add: proceeds_def s1(4) assms(2) enqueue_event_def w')
  moreover have "live ?s'"
    using live1 worker_inv_add [OF w'] add_item_flag [OF w'] by (simp add: live_def)
  ultimately show ?thesis using proceeds_append [OF s1(1)] s1(3)
    by (intro exI [of _ "replicate n DispatcherRun @ [HandOver]"] exI [of _ ?s']) simp
qed

lemma hand_over_all:
  "live s \<Longrightarrow> \<exists>ls s'. proceeds s ls s' \<and> live s' \<and> outbox s' = [] \<and> parse_thread s' = parse_thread s"
proof (induction "outbox s" arbitrary: s)
  case Nil
  with proceeds_Nil show ?case by metis
next
  case (Cons m ms)
  from hand_over_one [OF Cons.prems Cons.hyps(2) [symmetric]] obtain ls s1 where
    s1: "proceeds s ls s1" "live s1" "outbox s1 = ms" "parse_thread s1 = parse_thread s" by blast
  from Cons.hyps(1) [OF s1(3) [symmetric] s1(2)] obtain ls' s' where
    "proceeds s1 ls' s'" "live s'" "outbox s' = []" "parse_thread s' = parse_thread s1" by blast
  with proceeds_append [OF s1(1)] s1(4) show ?case by metis
qed

lemma parse_all:
  "live s \<Longrightarrow> \<exists>ls s'. proceeds s ls s' \<and> live s' \<and> pending (parse_thread s') = []"
proof (induction "work_ahead (parse_thread s)" arbitrary: s rule: less_induct)
  case less
  show ?case
  proof (cases "pending (parse_thread s) = []")
    case True
    with less.prems proceeds_Nil show ?thesis by blast
  next
    case False
    from hand_over_all [OF less.prems] obtain ls s1 where
      s1: "proceeds s ls s1" "live s1" "outbox s1 = []" "parse_thread s1 = parse_thread s" by blast
    from running_step [of "parse_thread s1" parse_item] s1(2) False obtain w where
      w: "work_act parse_item (parse_thread s1) = Some w" "work_ahead w < work_ahead (parse_thread s)"
      by (auto simp: live_def s1(4))
    let ?cs = "new_calls (obj (parse_thread s1)) (obj w)"
    let ?s2 = "s1\<lparr>parse_thread := w, outbox := messages_in ?cs,
      client := (client s1)\<lparr>ami_version := set_versions ?cs (ami_version (client s1))\<rparr>\<rparr>"
    have step: "proceeds s1 [ParserRun] ?s2"
      by (simp add: proceeds_def s1(3) parser_work_thread_def w(1) Let_def)
    have "live ?s2"
      using s1(2) worker_inv_work [OF w(1)] work_act_flag [OF w(1)] by (simp add: live_def)
    with less.hyps [of ?s2] w(2) obtain ls' s' where
      "proceeds ?s2 ls' s'" "live s'" "pending (parse_thread s') = []" by auto
    with proceeds_append [OF s1(1) proceeds_append [OF step]] show ?thesis by blast
  qed
qed

lemma all_processed:
  assumes "live s"
  shows "\<exists>ls s'. proceeds s ls s' \<and> live s' \<and> pending (parse_thread s') = [] \<and> outbox s' = [] \<and>
    pending (dispatch_thread s') = []"
proof -
  from parse_all [OF assms] obtain ls s1 where
    s1: "proceeds s ls s1" "live s1" "pending (parse_thread s1) = []" by blast
  from hand_over_all [OF s1(2)] obtain ls' s2 where
    s2: "proceeds s1 ls' s2" "live s2" "outbox s2 = []" "parse_thread s2 = parse_thread s1" by blast
  from running_run [of "dispatch_thread s2" dispatch_item] s2(2) obtain n w where
    w: "work_steps dispatch_item n (dispatch_thread s2) = Some w" "pending w = []"
    by (auto simp: live_def)
  from dispatcher_runs [OF w(1)] obtain s' where s': "proceeds s2 (replicate n DispatcherRun) s'"
    "dispatch_thread s' = w" "parse_thread s' = parse_thread s2" "outbox s' = outbox s2" by blast
  from dispatcher_live [OF s2(2) w(1) s'(2,3)] have "live s'" .
  with proceeds_append [OF proceeds_append [OF s1(1) s2(1)] s'(1)] s1(3) s2(3,4) s'(2-4) w(2)
  show ?thesis by metis
qed

lemma running_flag: "worker_inv w \<Longrightarrow> run_flag w \<longleftrightarrow> stopper w = Running"
  by (simp add: worker_inv_def)

lemma reached_live:
  assumes "sys_reach fd tr s" and "stopper (parse_thread s) = Running" and "stopper (dispatch_thread s) = Running"
  shows "live s"
proof -
  from sys_invariant [OF assms(1)] obtain tp td where "runs tp td tr s" by blast
  note inv = runs_inv [OF this]
  with assms(2,3) running_flag [OF inv(1)] running_flag [OF inv(2)] show ?thesis by (simp add: live_def)
qed

lemma proceeds_reach: "proceeds s ls s' \<Longrightarrow> sys_reach fd tr s \<Longrightarrow> sys_reach fd (tr @ ls) s'"
  by (auto simp: proceeds_def intro: sys_run_reach)

end
