(* ===== verification/Requests.thy ===== *)
theory Requests
  imports Progress
begin

text \<open>
  A caller in the system: what the dispatcher has seen before and after the opening of its pipe,
  what its future holds, and that this is what \<open>invoke\<close> of the theory \<open>Connection\<close> computes.
\<close>

section \<open>The history around a request\<close>

lemma request_history:
  assumes "sys_reach fd (early @ PipeOp (OpenPipe a) # tr) s"
    and "fits (received_text (early @ PipeOp (OpenPipe a) # tr))"
  shows "\<exists>before during d rest. obj (dispatch_thread s) = Inr d \<and>
    reachable (before @ Inr (OpenPipe a) # during) d \<and>
    operations before = pipe_ops early \<and> operations during = pipe_ops tr \<and>
    set (items before) \<subseteq> set (messages_in (snd (parsed (chunks early)))) \<and>
    messages_in (snd (parsed (chunks (early @ tr)))) =
      items before @ items during @ pending (dispatch_thread s) @ outbox s @ rest \<and>
    (pending (parse_thread s) = [] \<longrightarrow> rest = [])"
proof -
  let ?first = "early @ [PipeOp (OpenPipe a)]"
  from assms(1) have r: "sys_reach fd (?first @ tr) s" by simp
  from assms(2) have "fits (received_text (?first @ tr))" by simp
  then have "fits (concat (chunks (?first @ tr)))"
    unfolding received_chunks [OF r] by (rule fits_appendD1)
  from history_split [OF r this] obtain hist more d seen rest where
    h: "obj (dispatch_thread s) = Inr d" "reachable (hist @ more) d" "operations hist = pipe_ops ?first"
      "operations (hist @ more) = pipe_ops (?first @ tr)"
      "messages_in (snd (parsed (chunks ?first))) = items hist @ seen"
      "messages_in (snd (parsed (chunks (?first @ tr)))) =
        items (hist @ more) @ pending (dispatch_thread s) @ outbox s @ rest"
      "pending (parse_thread s) = [] \<longrightarrow> rest = []" by blast
  from h(3) have "operations hist = pipe_ops early @ [OpenPipe a]" by simp
  from operations_snoc [OF this] obtain before xs where
    hist: "hist = before @ Inr (OpenPipe a) # map Inl xs" "operations before = pipe_ops early" by blast
  have chunks: "chunks ?first = chunks early" "chunks (?first @ tr) = chunks (early @ tr)" by simp_all
  have "reachable (before @ Inr (OpenPipe a) # (map Inl xs @ more)) d" using h(2) hist(1) by simp
  moreover have "operations (map Inl xs @ more) = pipe_ops tr" using h(3,4) by simp
  moreover have "set (items before) \<subseteq> set (messages_in (snd (parsed (chunks early))))"
    using h(5) unfolding chunks(1) hist(1) by simp
  moreover have "messages_in (snd (parsed (chunks (early @ tr)))) =
      items before @ items (map Inl xs @ more) @ pending (dispatch_thread s) @ outbox s @ rest"
    using h(6) unfolding chunks(2) hist(1) by simp
  ultimately show ?thesis using h(1,7) hist(2) by blast
qed

lemma no_closing:
  assumes "operations during = ops" and "\<forall>op \<in> set ops. \<not> closes a (Inr op)"
  shows "\<forall>x \<in> set during. \<not> closes a x"
proof
  fix x
  assume x: "x \<in> set during"
  show "\<not> closes a x"
  proof (cases x)
    case (Inr op)
    with x have "op \<in> set (operations during)" by (auto simp: operations_mem)
    with assms Inr show ?thesis by simp
  qed simp
qed

text \<open>The future of a caller, by the messages the dispatcher has come to.\<close>

lemma request_outcome:
  assumes "sys_reach fd (early @ PipeOp (OpenPipe a) # tr) s"
    and "fits (received_text (early @ PipeOp (OpenPipe a) # tr))"
    and "OpenPipe a \<notin> set (pipe_ops early)"
    and "\<forall>op \<in> set (pipe_ops tr). \<not> closes a (Inr op)"
    and "\<forall>m \<in> set (messages_in (snd (parsed (chunks early)))).
      get_value (message_of m) ''ActionID'' \<noteq> Some a"
  shows "\<exists>d ms rest. obj (dispatch_thread s) = Inr d \<and>
    messages_in (snd (parsed (chunks (early @ tr)))) = ms @ pending (dispatch_thread s) @ outbox s @ rest \<and>
    (pending (parse_thread s) = [] \<longrightarrow> rest = []) \<and>
    future_get d (opens (pipe_ops early)) = map_option (\<lambda>r. Inr (Some r))
      (answer (filter (\<lambda>e. get_value e ''ActionID'' = Some a) (map message_of ms)))"
proof -
  from request_history [OF assms(1,2)] obtain before during d rest where
    h: "obj (dispatch_thread s) = Inr d" "reachable (before @ Inr (OpenPipe a) # during) d"
      "operations before = pipe_ops early" "operations during = pipe_ops tr"
      "set (items before) \<subseteq> set (messages_in (snd (parsed (chunks early))))"
      "messages_in (snd (parsed (chunks (early @ tr)))) =
        items before @ items during @ pending (dispatch_thread s) @ outbox s @ rest"
      "pending (parse_thread s) = [] \<longrightarrow> rest = []" by blast
  note fut = opened_answer [OF h(2), unfolded h(3), OF assms(3) no_closing [OF h(4) assms(4)]]
  from h(5) assms(5) have "\<forall>m \<in> set (items before). get_value (message_of m) ''ActionID'' \<noteq> Some a"
    by blast
  then have "messages_with a during =
      filter (\<lambda>e. get_value e ''ActionID'' = Some a) (map message_of (items before @ items during))"
    by (simp add: messages_with_def filter_empty_conv)
  with fut have "future_get d (opens (pipe_ops early)) = map_option (\<lambda>r. Inr (Some r))
      (answer (filter (\<lambda>e. get_value e ''ActionID'' = Some a) (map message_of (items before @ items during))))"
    by (simp only:)
  moreover have "messages_in (snd (parsed (chunks (early @ tr)))) =
      (items before @ items during) @ pending (dispatch_thread s) @ outbox s @ rest" using h(6) by simp
  ultimately show ?thesis using h(1,7) by blast
qed

section \<open>The one-step model of invoke\<close>

lemma opened_invoke:
  assumes "reachable (before @ Inr (OpenPipe (get_action_id a)) # during) d"
    and "OpenPipe (get_action_id a) \<notin> set (operations before)"
    and "send (action_to_string a) = Inr sent"
  shows "\<exists>d0. reachable before d0 \<and>
    invoke send d0 a during = Inr (d, future_get d (opens (operations before)))"
proof -
  from opened_at [OF assms(1,2)] obtain d0 d1 where d0: "reachable before d0"
      "get_event_pipe d0 (get_action_id a) = (d1, opens (operations before))"
      "rfold disp_event d1 during = Inr d" by blast
  from d0(3) have "invoke send d0 a during = Inr (d, future_get d (opens (operations before)))"
    by (simp add: invoke_def start_invoke_sent [OF d0(2)] assms(3))
  with d0(1) show ?thesis by blast
qed

text \<open>With a timeout, \<open>wait_for\<close> may have returned at any time before the pipe is closed.\<close>

lemma opened_timed:
  assumes "reachable (before @ Inr (OpenPipe (get_action_id a)) # race @
      Inr (FailPipe (get_action_id a) (timeout_error a)) # later) d"
    and "OpenPipe (get_action_id a) \<notin> set (operations before)"
    and "send (action_to_string a) = Inr sent"
    and "\<forall>x \<in> set race. \<not> closes (get_action_id a) x"
  shows "\<exists>d0 r. reachable before d0 \<and> invoke_timeout send d0 a [] race later = Inr (d, Some r) \<and>
    future_get d (opens (operations before)) = Some r \<and>
    r = (case answer (messages_with (get_action_id a) race) of
           Some x \<Rightarrow> Inr (Some x) | None \<Rightarrow> Inl (timeout_error a))"
proof -
  let ?a = "get_action_id a" let ?p = "opens (operations before)"
  from opened_at [OF assms(1,2)] obtain d0 d1 where d0: "reachable before d0"
      "find_entry (promise_map d0) ?a = None" "get_event_pipe d0 ?a = (d1, ?p)"
      "rfold disp_event d1 (race @ Inr (FailPipe ?a (timeout_error a)) # later) = Inr d"
      "readable_history (race @ Inr (FailPipe ?a (timeout_error a)) # later)" by blast
  from d0(4) obtain d3 d4 where d: "rfold disp_event d1 race = Inr d3"
      "set_exception_on_pipe d3 ?a (timeout_error a) = Inr d4" "rfold disp_event d4 later = Inr d"
    by (auto simp: rfold_append rbind_eq_Inr)
  have "future_get d1 ?p = None"
    using answer_ready [OF reachable_inv [OF d0(1)] d0(2,3), of "[]" d1] by (simp add: messages_with_def)
  with d have "invoke_timeout send d0 a [] race later = Inr (d, future_get d ?p)"
    by (simp add: invoke_timeout_def start_invoke_sent [OF d0(3)] assms(3))
  moreover from d0(5) have "readable_history ([] @ race @ later)" by (auto simp: readable_history_def)
  with timed_invoke_run [where during = "[]" and send = send and a = a, OF d0(1,2) assms(3), of race later] assms(4)
  obtain d' where "invoke_timeout send d0 a [] race later = Inr (d', Some
    (case answer (messages_with ?a race) of Some x \<Rightarrow> Inr (Some x) | None \<Rightarrow> Inl (timeout_error a)))"
    by auto
  ultimately show ?thesis using d0(1) by auto
qed

lemma operations_split:
  "operations hist = ops @ op # ops' \<Longrightarrow>
   \<exists>h h'. hist = h @ Inr op # h' \<and> operations h = ops \<and> operations h' = ops'"
proof (induction hist arbitrary: ops)
  case (Cons x hist)
  show ?case
  proof (cases x)
    case (Inl m)
    with Cons.prems have "operations hist = ops @ op # ops'" by simp
    from Cons.IH [OF this] obtain h h' where "hist = h @ Inr op # h'" "operations h = ops" "operations h' = ops'"
      by blast
    with Inl show ?thesis by (intro exI [of _ "x # h"] exI [of _ h']) simp
  next
    case (Inr op1)
    show ?thesis
    proof (cases ops)
      case Nil
      with Inr Cons.prems show ?thesis by (intro exI [of _ "[]"] exI [of _ hist]) simp
    next
      case (Cons op2 ops2)
      with Inr Cons.prems have "op1 = op2" "operations hist = ops2 @ op # ops'" by simp_all
      from Cons.IH [OF this(2)] obtain h h' where
        "hist = h @ Inr op # h'" "operations h = ops2" "operations h' = ops'" by blast
      with Inr Cons \<open>op1 = op2\<close> show ?thesis by (intro exI [of _ "x # h"] exI [of _ h']) simp
    qed
  qed
qed simp

end
