(* ===== verification/Shutdown.thy ===== *)
theory Shutdown
  imports Pipeline
begin

text \<open>
  The end of a connection (\<open>Connection::~Connection\<close> and the destructors it calls): whether it comes
  to its end, whatever the order of the steps of the reader, the two work threads and the
  destructor itself. \<open>Pipeline\<close> says what has been delivered when it does.
\<close>

section \<open>A work thread comes to rest\<close>

text \<open>
  The steps a work thread has left when nothing more is added and nobody stops it: while the flag is
  set it goes to sleep, after one more round if the queue is not empty; else it ends.
\<close>

fun pc_rest :: "worker_pc \<Rightarrow> nat" where
  "pc_rest Processing = 6"
| "pc_rest AtLoop = 5"
| "pc_rest WantLock = 4"
| "pc_rest TestPred = 3"
| "pc_rest GoingToSleep = 2"
| "pc_rest _ = 0"

definition thread_left :: "('s, 'i) worker \<Rightarrow> nat" where
  "thread_left w = length (pending w) +
     (if run_flag w then
        if wpc w = Swapping then 7 else pc_rest (wpc w) + (if queue w = [] then 0 else 5)
      else if wpc w = GoingToSleep then 1 else pc_left (wpc w))"

lemma work_act_left: "worker_inv w \<Longrightarrow> work_act f w = Some w' \<Longrightarrow> thread_left w' < thread_left w"
  by (cases "wpc w"; cases "batch w";
      clarsimp simp: work_act_def worker_inv_def thread_left_def pending_def split: if_splits)

text \<open>The steps \<open>stop_work_thread\<close> has left.\<close>

fun phase_left :: "stop_phase \<Rightarrow> nat" where
  "phase_left Running = 3"
| "phase_left FlagCleared = 2"
| "phase_left Notified = 1"
| "phase_left Joined = 0"

lemma stop_act_less: "stop_act w = Some w' \<Longrightarrow> phase_left (stopper w') < phase_left (stopper w)"
  by (cases "stopper w") (auto simp: stop_act_def notify_one_def split: if_splits)

text \<open>A thread is only stopped by another one, by its end, and by sleep.\<close>

lemma work_act_enabled:
  assumes "worker_inv w" and "wpc w \<noteq> Done" and "wpc w \<noteq> Sleeping"
  shows "\<exists>w'. work_act f w = Some w'"
  using assms by (cases "wpc w"; cases "batch w"; simp add: work_act_def worker_inv_def)

lemma lock_held_enabled: "worker_inv w \<Longrightarrow> lock_held w \<Longrightarrow> \<exists>w'. work_act f w = Some w'"
  by (rule work_act_enabled) (auto simp: worker_inv_def)

text \<open>The thread waits for a notification that has already been sent.\<close>

definition lost_wakeup :: "('s, 'i) worker \<Rightarrow> bool" where
  "lost_wakeup w \<longleftrightarrow> wpc w = Sleeping \<and> stopper w = Notified"

lemma stop_or_work:
  assumes "worker_inv w" and "stopper w \<noteq> Joined" and "\<not> lost_wakeup w"
  shows "(\<exists>w'. stop_act w = Some w') \<and> \<not> lock_held w \<or> (\<exists>w'. work_act f w = Some w')"
proof (cases "lock_held w")
  case True
  with lock_held_enabled [OF assms(1)] show ?thesis by simp
next
  case free: False
  show ?thesis
  proof (cases "stop_act w = None")
    case True
    then have n: "stopper w = Notified" using assms(2) by (cases "stopper w") (simp_all add: stop_act_def)
    with True have "wpc w \<noteq> Done" by (simp add: stop_act_def split: if_splits)
    moreover from n assms(3) have "wpc w \<noteq> Sleeping" by (simp add: lost_wakeup_def)
    ultimately show ?thesis using work_act_enabled [OF assms(1)] by simp
  next
    case False
    then have "\<exists>w'. stop_act w = Some w'" by simp
    with free show ?thesis by (intro disjI1 conjI)
  qed
qed

text \<open>
  A thread that cannot miss the notification: it never goes to sleep once the flag is cleared, and
  once it is notified it does not sleep.
\<close>

definition wakeful :: "('s, 'i) worker \<Rightarrow> bool" where
  "wakeful w \<longleftrightarrow> (\<not> run_flag w \<longrightarrow> wpc w \<noteq> GoingToSleep) \<and> (stopper w = Notified \<longrightarrow> wpc w \<noteq> Sleeping)"

lemma wakeful_work: "worker_inv w \<Longrightarrow> work_act f w = Some w' \<Longrightarrow> wakeful w \<Longrightarrow> wakeful w'"
  by (cases "wpc w"; cases "batch w";
      clarsimp simp: work_act_def worker_inv_def wakeful_def split: if_splits)

lemma wakeful_add: "add_item w x = Some w' \<Longrightarrow> wakeful w \<Longrightarrow> wakeful w'"
  by (auto simp: add_item_def notify_one_def wakeful_def split: if_splits)

lemma wakeful_stop:
  "worker_inv w \<Longrightarrow> \<not> lock_held w \<Longrightarrow> stop_act w = Some w' \<Longrightarrow> wakeful w \<Longrightarrow> wakeful w'"
  by (cases "stopper w"; cases "wpc w";
      clarsimp simp: stop_act_def notify_one_def worker_inv_def wakeful_def split: if_splits)

lemma wakeful_running: "worker_inv w \<Longrightarrow> stopper w = Running \<Longrightarrow> wakeful w"
  by (simp add: worker_inv_def wakeful_def)

section \<open>The destructor\<close>

text \<open>
  The steps once the destructor has cleared the reader's flag: its own and those of the three threads, and
  what the reads in progress return. The client does not use the connection any more, and
  nobody wakes a thread without a notification. \<open>locked\<close> asks what would happen if
  \<open>stop_work_thread\<close> did its steps only while the thread does not hold the mutex.
\<close>

fun destroys :: "bool \<Rightarrow> system \<Rightarrow> sys_label \<Rightarrow> bool" where
  "destroys locked s ReaderTest \<longleftrightarrow> True"
| "destroys locked s (Received res) \<longleftrightarrow> True"
| "destroys locked s (Chunk buf) \<longleftrightarrow> True"
| "destroys locked s ReaderJoined \<longleftrightarrow> \<not> reader_joined (reader s)"
| "destroys locked s WriterGone \<longleftrightarrow> True"
| "destroys locked s ParserRun \<longleftrightarrow> True"
| "destroys locked s HandOver \<longleftrightarrow> True"
| "destroys locked s DispatcherRun \<longleftrightarrow> True"
| "destroys locked s StopParser \<longleftrightarrow> \<not> (locked \<and> lock_held (parse_thread s))"
| "destroys locked s StopDispatcher \<longleftrightarrow> \<not> (locked \<and> lock_held (dispatch_thread s))"
| "destroys locked s _ \<longleftrightarrow> False"

definition destroy_step :: "bool \<Rightarrow> system \<Rightarrow> system \<Rightarrow> bool" where
  "destroy_step locked s s' \<longleftrightarrow> (\<exists>l. destroys locked s l \<and> sys_step s l s')"

definition in_destructor :: "int \<Rightarrow> system \<Rightarrow> bool" where
  "in_destructor fd s \<longleftrightarrow> (\<exists>tr. sys_reach fd tr s) \<and> \<not> thread_spin (reader s)"

lemma in_destructorD:
  assumes "in_destructor fd s"
  shows "worker_inv (parse_thread s)" "worker_inv (dispatch_thread s)" "orderly fd s" "\<not> thread_spin (reader s)"
proof -
  from assms obtain tr where "sys_reach fd tr s" and spin: "\<not> thread_spin (reader s)"
    by (auto simp: in_destructor_def)
  from sys_invariant [OF this(1)] obtain tp td where r: "runs tp td tr s" and o: "orderly fd s" by blast
  from runs_inv [OF r] o spin show "worker_inv (parse_thread s)" "worker_inv (dispatch_thread s)"
    "orderly fd s" "\<not> thread_spin (reader s)" by blast+
qed

lemma reader_spin:
  "reader_test r = Some r' \<Longrightarrow> thread_spin r' = thread_spin r"
  "reader_got r res = Some r' \<Longrightarrow> thread_spin r' = thread_spin r"
  "reader_called r = Some (buf, r') \<Longrightarrow> thread_spin r' = thread_spin r"
  "join_reader r = Some r' \<Longrightarrow> thread_spin r' = thread_spin r"
  by (auto simp: reader_steps split: if_splits reader_pc.splits)

lemma sys_step_spin: "sys_step s l s' \<Longrightarrow> \<not> thread_spin (reader s) \<Longrightarrow> \<not> thread_spin (reader s')"
  by (induction rule: sys_step.induct) (simp_all add: reader_spin stop_reader_def)

lemma in_destructor_step: "destroy_step locked s s' \<Longrightarrow> in_destructor fd s \<Longrightarrow> in_destructor fd s'"
  using sys_step_spin by (auto simp: destroy_step_def in_destructor_def intro: sys_reach.step)

section \<open>It comes to an end\<close>

text \<open>What is left: joins and closings first, then the reader, the parser, the hand-over, the dispatcher.\<close>

fun reader_left :: "reader_pc \<Rightarrow> nat" where
  "reader_left InRead = 3"
| "reader_left (InCallback buf) = 2"
| "reader_left LoopTest = 1"
| "reader_left _ = 0"

definition stops_left :: "system \<Rightarrow> nat" where
  "stops_left s = (if reader_joined (reader s) then 0 else 1) + (if socket s = -1 then 0 else 1) +
     phase_left (stopper (parse_thread s)) + phase_left (stopper (dispatch_thread s))"

definition destructor_order :: "(system \<times> system) set" where
  "destructor_order = measures [stops_left, \<lambda>s. reader_left (rpc (reader s)),
     \<lambda>s. thread_left (parse_thread s), \<lambda>s. length (outbox s), \<lambda>s. thread_left (dispatch_thread s)]"

lemma reader_step_left:
  "reader_test r = Some r' \<Longrightarrow> \<not> thread_spin r \<Longrightarrow> reader_left (rpc r') < reader_left (rpc r)"
  "reader_got r res = Some r' \<Longrightarrow> reader_left (rpc r') < reader_left (rpc r)"
  "reader_called r = Some (buf, r') \<Longrightarrow> reader_left (rpc r') < reader_left (rpc r)"
  by (auto simp: reader_steps split: if_splits reader_pc.splits sum.splits)

lemma join_reader_joined: "join_reader r = Some r' \<Longrightarrow> reader_joined r' \<and> rpc r' = rpc r"
  by (auto simp: join_reader_def split: if_splits)

lemma destroy_step_less:
  assumes "destroy_step locked s s'" and "in_destructor fd s"
  shows "(s', s) \<in> destructor_order"
proof -
  note inv = in_destructorD [OF assms(2)]
  from assms(1) obtain l where l: "destroys locked s l" "sys_step s l s'" by (auto simp: destroy_step_def)
  from l(2) show ?thesis
  proof (cases rule: sys_step.cases)
    case (reader_test r)
    with inv(4) reader_test_parts [OF reader_test(3)] reader_step_left(1) [OF reader_test(3)] show ?thesis
      by (simp add: destructor_order_def stops_left_def)
  next
    case (received res r)
    with reader_got_parts [OF received(3)] reader_step_left(2) [OF received(3)] show ?thesis
      by (simp add: destructor_order_def stops_left_def)
  next
    case (chunk buf r w)
    then have a: "add_item (parse_thread s) buf = Some w" by (simp add: add_buf_def)
    with chunk add_item_parts [OF a] reader_called_parts [OF chunk(3)] reader_step_left(3) [OF chunk(3)]
    show ?thesis by (simp add: destructor_order_def stops_left_def)
  next
    case (reader_joined r)
    with l(1) join_reader_joined [OF reader_joined(3)] show ?thesis
      by (simp add: destructor_order_def stops_left_def)
  next
    case writer_gone
    then show ?thesis by (simp add: destructor_order_def stops_left_def)
  next
    case (parser_run w cs)
    then have a: "work_act parse_item (parse_thread s) = Some w" by (simp add: parser_work_thread_def)
    with parser_run work_act_parts(1) [OF a] work_act_left [OF inv(1) a] show ?thesis
      by (simp add: destructor_order_def stops_left_def)
  next
    case (hand_over m ms w)
    then have a: "add_item (dispatch_thread s) m = Some w" by (simp add: enqueue_event_def)
    with hand_over add_item_parts [OF a] show ?thesis
      by (simp add: destructor_order_def stops_left_def)
  next
    case (dispatcher_run w es)
    then have a: "work_act dispatch_item (dispatch_thread s) = Some w"
      by (simp add: dispatcher_work_thread_def)
    with dispatcher_run work_act_parts(1) [OF a] work_act_left [OF inv(2) a] show ?thesis
      by (simp add: destructor_order_def stops_left_def)
  next
    case (stop_parser w)
    then have a: "stop_act (parse_thread s) = Some w" by (simp add: parser_stop_def)
    with stop_parser stop_act_less [OF a] show ?thesis
      by (simp add: destructor_order_def stops_left_def)
  next
    case (stop_dispatcher w)
    then have a: "stop_act (dispatch_thread s) = Some w" by (simp add: dispatcher_stop_def)
    with stop_dispatcher stop_act_less [OF a] show ?thesis
      by (simp add: destructor_order_def stops_left_def)
  qed (use l(1) in simp_all)
qed

lemma no_endless_destructor:
  assumes "in_destructor fd s"
  shows "\<not> (\<exists>run. run 0 = s \<and> (\<forall>i. destroy_step locked (run i) (run (Suc i))))"
proof
  assume "\<exists>run. run 0 = s \<and> (\<forall>i. destroy_step locked (run i) (run (Suc i)))"
  then obtain run where run: "run 0 = s" "\<And>i. destroy_step locked (run i) (run (Suc i))" by blast
  have inv: "in_destructor fd (run i)" for i
    by (induction i) (use assms run in \<open>auto intro: in_destructor_step\<close>)
  have "\<forall>i. (run (Suc i), run i) \<in> destructor_order" using destroy_step_less [OF run(2) inv] by blast
  moreover have "wf destructor_order" by (simp add: destructor_order_def)
  ultimately show False unfolding wf_iff_no_infinite_down_chain by blast
qed

section \<open>Where it ends\<close>

text \<open>No step of the destructor or of the threads is left.\<close>

definition at_rest :: "bool \<Rightarrow> system \<Rightarrow> bool" where
  "at_rest locked s \<longleftrightarrow> \<not> (\<exists>s'. destroy_step locked s s')"

lemma at_rest_step: "at_rest locked s \<Longrightarrow> destroys locked s l \<Longrightarrow> sys_exec s l = None"
  using sys_exec_step [of s l] by (cases "sys_exec s l") (auto simp: at_rest_def destroy_step_def)

lemma dispatcher_at_rest:
  assumes "in_destructor fd s" and "at_rest locked s"
  shows "work_act dispatch_item (dispatch_thread s) = None" "\<not> lock_held (dispatch_thread s)"
proof -
  from at_rest_step [OF assms(2), of DispatcherRun]
  show w: "work_act dispatch_item (dispatch_thread s) = None" by (simp add: dispatcher_work_thread_def)
  with lock_held_enabled [OF in_destructorD(2) [OF assms(1)], of dispatch_item]
  show "\<not> lock_held (dispatch_thread s)" by auto
qed

lemma parser_at_rest:
  assumes "in_destructor fd s" and "at_rest locked s"
  shows "outbox s = []" "work_act parse_item (parse_thread s) = None" "\<not> lock_held (parse_thread s)"
proof -
  from at_rest_step [OF assms(2), of HandOver] dispatcher_at_rest(2) [OF assms] show o: "outbox s = []"
    by (cases "outbox s") (simp_all add: enqueue_event_def add_item_def)
  from at_rest_step [OF assms(2), of ParserRun] o
  show w: "work_act parse_item (parse_thread s) = None" by (simp add: parser_work_thread_def)
  with lock_held_enabled [OF in_destructorD(1) [OF assms(1)], of parse_item]
  show "\<not> lock_held (parse_thread s)" by auto
qed

lemma reader_at_rest:
  assumes "in_destructor fd s" and "at_rest locked s"
  shows "(\<exists>err. rpc (reader s) = Threw err) \<or> socket s = -1"
proof (cases "rpc (reader s)")
  case LoopTest
  with at_rest_step [OF assms(2), of ReaderTest] show ?thesis by (simp add: reader_test_def)
next
  case InRead
  with at_rest_step [OF assms(2), of "Received (Inr [])"] show ?thesis by (simp add: reader_got_def)
next
  case (InCallback buf)
  with at_rest_step [OF assms(2), of "Chunk buf"] parser_at_rest(3) [OF assms] show ?thesis
    by (simp add: reader_called_def add_buf_def add_item_def)
next
  case Returned
  with at_rest_step [OF assms(2), of ReaderJoined] have "reader_joined (reader s)"
    by (auto simp: join_reader_def)
  with at_rest_step [OF assms(2), of WriterGone] show ?thesis by (auto split: if_splits)
qed simp

lemma destructor_at_rest:
  assumes "in_destructor fd s" and "at_rest locked s"
  shows "stopper (dispatch_thread s) = Joined \<or> (\<exists>err. rpc (reader s) = Threw err) \<or>
    lost_wakeup (parse_thread s) \<or> lost_wakeup (dispatch_thread s)"
proof -
  note inv = in_destructorD [OF assms(1)]
  note d = dispatcher_at_rest [OF assms] and p = parser_at_rest [OF assms]
  have parser: "stopper (parse_thread s) = Joined \<or> lost_wakeup (parse_thread s)" if "socket s = -1"
    using at_rest_step [OF assms(2), of StopParser] stop_or_work [OF inv(1), of parse_item] that p
    by (auto simp: parser_stop_def)
  have dispatcher: "stopper (dispatch_thread s) = Joined \<or> lost_wakeup (dispatch_thread s)"
    if "stopper (parse_thread s) = Joined"
    using at_rest_step [OF assms(2), of StopDispatcher] stop_or_work [OF inv(2), of dispatch_item] that d
    by (auto simp: dispatcher_stop_def)
  from reader_at_rest [OF assms] parser dispatcher show ?thesis by blast
qed

lemma in_destructor_run: "(destroy_step locked)\<^sup>*\<^sup>* s s' \<Longrightarrow> in_destructor fd s \<Longrightarrow> in_destructor fd s'"
  by (induction rule: rtranclp_induct) (auto intro: in_destructor_step)

lemma joined_closed:
  assumes "in_destructor fd s" and "stopper (dispatch_thread s) = Joined"
  shows "closed s = [fd]"
  using assms all_joined(5) by (auto simp: in_destructor_def)

section \<open>With the mutex no wake-up is lost\<close>

lemma wakeful_step:
  assumes "destroy_step True s s'" and "in_destructor fd s"
    and "wakeful (parse_thread s)" and "wakeful (dispatch_thread s)"
  shows "wakeful (parse_thread s') \<and> wakeful (dispatch_thread s')"
proof -
  note inv = in_destructorD [OF assms(2)]
  from assms(1) obtain l where l: "destroys True s l" "sys_step s l s'" by (auto simp: destroy_step_def)
  from l(2) show ?thesis
  proof (cases rule: sys_step.cases)
    case (chunk buf r w)
    with assms(3,4) wakeful_add [of "parse_thread s" buf w] show ?thesis by (simp add: add_buf_def)
  next
    case (parser_run w cs)
    with assms(3,4) wakeful_work [OF inv(1), of parse_item w] show ?thesis
      by (simp add: parser_work_thread_def)
  next
    case (hand_over m ms w)
    with assms(3,4) wakeful_add [of "dispatch_thread s" m w] show ?thesis by (simp add: enqueue_event_def)
  next
    case (dispatcher_run w es)
    with assms(3,4) wakeful_work [OF inv(2), of dispatch_item w] show ?thesis
      by (simp add: dispatcher_work_thread_def)
  next
    case (stop_parser w)
    with l(1) assms(3,4) wakeful_stop [OF inv(1), of w] show ?thesis by (simp add: parser_stop_def)
  next
    case (stop_dispatcher w)
    with l(1) assms(3,4) wakeful_stop [OF inv(2), of w] show ?thesis by (simp add: dispatcher_stop_def)
  qed (use l(1) assms(3,4) in simp_all)
qed

lemma wakeful_run:
  "(destroy_step True)\<^sup>*\<^sup>* s s' \<Longrightarrow> in_destructor fd s \<Longrightarrow>
   wakeful (parse_thread s) \<and> wakeful (dispatch_thread s) \<Longrightarrow>
   wakeful (parse_thread s') \<and> wakeful (dispatch_thread s')"
proof (induction rule: rtranclp_induct)
  case (step t u)
  from wakeful_step [OF step(2) in_destructor_run [OF step(1) step.prems(1)]] step.IH step.prems
  show ?case by blast
qed simp

section \<open>Properties of the shutdown\<close>

lemma destructor_reaches_end:
  assumes "in_destructor fd s"
  shows "\<exists>s'. (destroy_step locked)\<^sup>*\<^sup>* s s' \<and> at_rest locked s'"
proof -
  have "wf destructor_order" by (simp add: destructor_order_def)
  then show ?thesis using assms
  proof (induction s rule: wf_induct_rule)
    case (less s)
    show ?case
    proof (cases "at_rest locked s")
      case False
      then obtain t where t: "destroy_step locked s t" by (auto simp: at_rest_def)
      from less.IH [OF destroy_step_less [OF t less.prems] in_destructor_step [OF t less.prems]] obtain s' where
        "(destroy_step locked)\<^sup>*\<^sup>* t s'" "at_rest locked s'" by blast
      with converse_rtranclp_into_rtranclp [of "destroy_step locked", OF t] show ?thesis by blast
    qed blast
  qed
qed

text \<open>C7. The destructor always comes to an end, in every interleaving with the threads and
  whatever the reads in progress return: no run of its steps and theirs is endless, and where no
  step is left, either all threads have been joined and the socket has been closed, once; or an
  exception of the reader has ended the program; or one of the two work threads sleeps through
  a notification that was sent too early. No other deadlock exists.\<close>

theorem destructor_ends:
  assumes "sys_reach fd tr s" and "\<not> thread_spin (reader s)"
  shows "\<not> (\<exists>run. run 0 = s \<and> (\<forall>i. destroy_step locked (run i) (run (Suc i)))) \<and>
    (\<forall>s'. (destroy_step locked)\<^sup>*\<^sup>* s s' \<and> at_rest locked s' \<longrightarrow>
      stopper (dispatch_thread s') = Joined \<and> closed s' = [fd] \<or>
      (\<exists>err. rpc (reader s') = Threw err) \<or>
      lost_wakeup (parse_thread s') \<or> lost_wakeup (dispatch_thread s'))"
proof -
  have d: "in_destructor fd s" using assms by (auto simp: in_destructor_def)
  have "stopper (dispatch_thread s') = Joined \<and> closed s' = [fd] \<or> (\<exists>err. rpc (reader s') = Threw err) \<or>
      lost_wakeup (parse_thread s') \<or> lost_wakeup (dispatch_thread s')"
    if run: "(destroy_step locked)\<^sup>*\<^sup>* s s'" and rest: "at_rest locked s'" for s'
    using destructor_at_rest [OF in_destructor_run [OF run d] rest]
      joined_closed [OF in_destructor_run [OF run d]] by blast
  with no_endless_destructor [OF d] show ?thesis by blast
qed

text \<open>C9. But for that one race the destructor comes to its good end: in the runs in which the steps of
  \<open>stop_work_thread\<close> never fall while the work thread holds its mutex (all runs, if the function
  took the mutex) no wake-up is lost; such a run can always be continued to an end, and every end has all threads
  joined and the socket closed, or an exception of the reader.\<close>

theorem locked_destructor_joins:
  assumes "sys_reach fd tr s" and "\<not> thread_spin (reader s)" and "stopper (parse_thread s) = Running"
  shows "(\<exists>s'. (destroy_step True)\<^sup>*\<^sup>* s s' \<and> at_rest True s') \<and>
    (\<forall>s'. (destroy_step True)\<^sup>*\<^sup>* s s' \<and> at_rest True s' \<longrightarrow>
      stopper (dispatch_thread s') = Joined \<and> closed s' = [fd] \<or> (\<exists>err. rpc (reader s') = Threw err))"
proof -
  have d: "in_destructor fd s" using assms by (auto simp: in_destructor_def)
  note inv = in_destructorD [OF d]
  from inv(3) assms(3) have "stopper (dispatch_thread s) = Running" by (auto simp: orderly_def)
  then have wakeful: "wakeful (parse_thread s) \<and> wakeful (dispatch_thread s)"
    by (intro conjI wakeful_running inv(1,2) assms(3))
  have "stopper (dispatch_thread s') = Joined \<and> closed s' = [fd] \<or> (\<exists>err. rpc (reader s') = Threw err)"
    if run: "(destroy_step True)\<^sup>*\<^sup>* s s'" and rest: "at_rest True s'" for s'
  proof -
    note d' = in_destructor_run [OF run d]
    from wakeful_run [OF run d wakeful] have "\<not> lost_wakeup (parse_thread s')" "\<not> lost_wakeup (dispatch_thread s')"
      by (auto simp only: wakeful_def lost_wakeup_def)
    with destructor_at_rest [OF d' rest] have
      "stopper (dispatch_thread s') = Joined \<or> (\<exists>err. rpc (reader s') = Threw err)" by simp
    with joined_closed [OF d'] show ?thesis by (elim disjE) (rule disjI1, simp, rule disjI2)
  qed
  then show ?thesis by (intro conjI allI impI destructor_reaches_end [OF d]) (elim conjE)
qed

lemma sys_step_exec: "sys_step s l s' \<Longrightarrow> sys_exec s l = Some s'"
  by (induction rule: sys_step.induct) (auto simp: Let_def)

text \<open>
  The destructor's steps for the parser between the test of the predicate and the registration
  of the waiter.
\<close>

definition hang_run :: "sys_label list" where
  "hang_run = [ParserRun, ParserRun, ParserRun, DispatcherRun, DispatcherRun, DispatcherRun, DispatcherRun,
     StopReader, ReaderTest, ReaderJoined, WriterGone, StopParser, StopParser, ParserRun]"

definition hung_system :: "int \<Rightarrow> system" where
  "hung_system fd = (new_system fd)\<lparr>socket := -1, closed := [fd],
     reader := \<lparr>thread_spin = False, rpc = Returned, reader_joined = True\<rparr>,
     parse_thread := parser_start\<lparr>run_flag := False, wpc := Sleeping, stopper := Notified\<rparr>,
     dispatch_thread := dispatcher_start\<lparr>wpc := Sleeping\<rparr>\<rparr>"

lemma hang_run_hangs: "fd \<noteq> -1 \<Longrightarrow> sys_run (new_system fd) hang_run = Some (hung_system fd)"
  by (simp add: hang_run_def hung_system_def new_system_def start_reader_def reader_steps parser_start_def
      start_worker_def stop_act_def notify_one_def work_act_def parser_stop_def parser_work_thread_def
      dispatcher_work_thread_def dispatcher_start_def new_calls_def)

lemma hung_at_rest: "at_rest False (hung_system fd)"
proof -
  have "sys_exec (hung_system fd) l = None" if "destroys False (hung_system fd) l" for l
    using that
    by (cases l) (simp_all add: hung_system_def new_system_def reader_steps parser_start_def start_worker_def
        stop_act_def work_act_def parser_stop_def parser_work_thread_def dispatcher_work_thread_def
        dispatcher_start_def)
  then show ?thesis using sys_step_exec by (fastforce simp: at_rest_def destroy_step_def)
qed

text \<open>C8. The destructor of a connection can hang. \<open>stop_work_thread\<close> clears the flag and notifies without the
  mutex; both can fall between the thread's test of the predicate and its registration as a waiter.
  This happens to a connection that has received nothing and on which nothing was invoked, with no
  spurious wake-up: the reader is joined and the socket closed, the parser's thread sleeps, the
  destructor waits for it, and no step of any of them is left.\<close>

theorem destructor_can_hang:
  assumes "fd \<noteq> -1"
  shows "\<exists>s. sys_reach fd hang_run s \<and> \<not> thread_spin (reader s) \<and> closed s = [fd] \<and>
    lost_wakeup (parse_thread s) \<and> at_rest False s \<and> stopper (dispatch_thread s) = Running"
proof -
  from sys_run_reach [OF hang_run_hangs [OF assms] sys_reach.start [OF assms]]
  have "sys_reach fd hang_run (hung_system fd)" by simp
  moreover have "\<not> thread_spin (reader (hung_system fd))" "closed (hung_system fd) = [fd]"
    "lost_wakeup (parse_thread (hung_system fd))" "stopper (dispatch_thread (hung_system fd)) = Running"
    by (simp_all add: hung_system_def lost_wakeup_def dispatcher_start_def start_worker_def)
  ultimately show ?thesis using hung_at_rest by blast
qed

theorem destructor_can_hang_witness:
  "\<exists>s. sys_reach 3 hang_run s \<and> lost_wakeup (parse_thread s) \<and> at_rest False s"
  using destructor_can_hang [of 3] by auto

section \<open>Witnesses\<close>

lemma stopped_new: "sys_reach 3 [StopReader] ((new_system 3)\<lparr>reader := stop_reader (reader (new_system 3))\<rparr>)"
proof -
  have "sys_reach 3 [] (new_system 3)" by (rule sys_reach.start) simp
  from sys_reach.step [OF this sys_step.stop_reader] show ?thesis by simp
qed

theorem destructor_ends_witness:
  "\<exists>s. sys_reach 3 [StopReader] s \<and>
    \<not> (\<exists>run. run 0 = s \<and> (\<forall>i. destroy_step False (run i) (run (Suc i))))"
proof -
  have "\<not> thread_spin (reader ((new_system 3)\<lparr>reader := stop_reader (reader (new_system 3))\<rparr>))"
    by (simp add: stop_reader_def)
  from destructor_ends [where locked = False, OF stopped_new this] stopped_new show ?thesis by blast
qed

theorem locked_destructor_joins_witness:
  "\<exists>s s'. sys_reach 3 [StopReader] s \<and> (destroy_step True)\<^sup>*\<^sup>* s s' \<and>
    (stopper (dispatch_thread s') = Joined \<and> closed s' = [3] \<or> (\<exists>err. rpc (reader s') = Threw err))"
proof -
  have h: "\<not> thread_spin (reader ((new_system 3)\<lparr>reader := stop_reader (reader (new_system 3))\<rparr>))"
    "stopper (parse_thread ((new_system 3)\<lparr>reader := stop_reader (reader (new_system 3))\<rparr>)) = Running"
    by (simp_all add: stop_reader_def new_system_def parser_start_def start_worker_def)
  from locked_destructor_joins [OF stopped_new h] stopped_new show ?thesis by blast
qed

end
