(* ===== verification/Callbacks.thy ===== *)
theory Callbacks
  imports Connection
begin

text \<open>
  The callbacks of the client while they run. \<open>Connection::dispatch_handler\<close> holds
  \<open>callbacks_mutex_\<close> over its whole loop, on the dispatcher's thread; \<open>add_callback\<close> and
  \<open>remove_callback\<close> take the same mutex. \<open>Connection\<close> models each as one step; here the loop is
  taken apart, a callback may call back into the connection, and the two models are related.
\<close>

section \<open>State and steps\<close>



datatype handler_label = Begin ami_event | Call | CallEnds | Finish | Registry callback_op | Reenter




text \<open>The operations of a run, each at the moment it gets the mutex.\<close>

fun linear :: "handler_label list \<Rightarrow> callback_op list" where
  "linear [] = []"
| "linear (Begin e # tr) = Notify e # linear tr"
| "linear (Registry op # tr) = op # linear tr"
| "linear (_ # tr) = linear tr"

lemma linear_append [simp]: "linear (tr @ tr') = linear tr @ linear tr'"
  by (induction tr rule: linear.induct) simp_all

section \<open>The loop under the mutex is one step\<close>








section \<open>Callbacks that call back\<close>



text \<open>An \<open>invoke\<close> inside a callback never returns: the callback runs on the dispatcher's thread, so no
  message is processed while it waits, and what the other threads do to the pipes does not
  answer it. With a timeout it returns the timeout exception, whatever the server has sent.\<close>

theorem invoke_in_callback_blocks:
  assumes "reachable before d" and "find_entry (promise_map d) (get_action_id a) = None"
    and "send (action_to_string a) = Inr sent" and "items during = []" and "items race = []"
    and "\<forall>x \<in> set (during @ race). \<not> closes (get_action_id a) x"
  shows "\<exists>d'. invoke send d a during = Inr (d', None) \<and>
    (\<exists>d''. invoke_timeout send d a during race [] = Inr (d'', Some (Inl (timeout_error a))))"
proof -
  have r: "readable_history during" "readable_history (during @ race @ [])"
    using assms(4,5) by (simp_all add: readable_history_def)
  have m: "messages_with (get_action_id a) during = []"
      "messages_with (get_action_id a) (during @ race) = []"
    using assms(4,5) by (simp_all add: messages_with_def)
  from assms(6) have nc: "\<forall>x \<in> set during. \<not> closes (get_action_id a) x" by simp
  from invoke_run [where send = send and a = a, OF assms(1-3) r(1) nc]
    timed_invoke_run [where send = send and a = a, OF assms(1-3) r(2) assms(6)] m
  show ?thesis by auto
qed

theorem invoke_in_callback_blocks_witness:
  "\<exists>d'. invoke Inr new_dispatcher ping [Inr (OpenPipe ''8'')] = Inr (d', None)"
proof -
  have h2: "find_entry (promise_map new_dispatcher) (get_action_id ping) = None"
    by (simp add: new_dispatcher_def)
  have h3: "(Inr :: string \<Rightarrow> string result) (action_to_string ping) = Inr (action_to_string ping)" by simp
  have h4: "items [Inr (OpenPipe ''8'')] = []" and h5: "items ([] :: history) = []"
    and h6: "\<forall>x \<in> set ([Inr (OpenPipe ''8'')] @ []). \<not> closes (get_action_id ping) x" by simp_all
  from invoke_in_callback_blocks [where send = Inr and a = ping, OF reachable_new h2 h3 h4 h5 h6]
  show ?thesis by blast
qed

end
