(* ===== verification/Locks.thy ===== *)
theory Locks
  imports Prelude
begin

text \<open>
  The mutexes of the program and who takes them when. Every function is reduced to the locks it
  takes and gives back, in the order of the code; the calls in between are the functions'. The
  theories of the components have these critical sections as single steps; here it is shown that
  no interleaving of the threads can block for ever on the mutexes. A wait on a condition variable gives the
  mutex back and takes it again.
\<close>

section \<open>Threads and mutexes\<close>

text \<open>
  The mutexes: of the parser's queue (\<open>stream_chunks_mutex_\<close>), the dispatcher's queue
  (\<open>events_mutex_\<close>), the callbacks (\<open>callbacks_mutex_\<close>), the two maps of the dispatcher
  (\<open>promise_map_mutex_\<close>, \<open>event_map_mutex_\<close>) and the socket (\<open>write_mutex_\<close>, \<open>read_mutex_\<close>). None is
  recursive.
\<close>

datatype mutex =
  StreamChunksMutex | EventsMutex | CallbacksMutex | PromiseMapMutex | EventMapMutex
  | WriteMutex | ReadMutex

text \<open>
  \<open>Lock ms\<close>: the construction of a \<open>unique_lock\<close> (one mutex) or a \<open>scoped_lock\<close> (any number, taken
  together as \<open>std::lock\<close> does, which never keeps one while it waits for another); \<open>Unlock ms\<close>:
  its destruction, or a call of \<open>unlock\<close>.
\<close>

datatype lock_op = Lock "mutex list" | Unlock "mutex list"

text \<open>The threads are numbered; of each there is what it still has to do.\<close>

record lock_state =
  holder :: "mutex \<Rightarrow> nat option"
  todo :: "lock_op list list"

definition start_locks :: "lock_op list list \<Rightarrow> lock_state" where
  "start_locks progs = \<lparr>holder = (\<lambda>_. None), todo = progs\<rparr>"

definition set_holder :: "mutex list \<Rightarrow> nat option \<Rightarrow> (mutex \<Rightarrow> nat option) \<Rightarrow> mutex \<Rightarrow> nat option" where
  "set_holder ms owner h = (\<lambda>m. if m \<in> set ms then owner else h m)"

definition lock_act :: "lock_state \<Rightarrow> nat \<Rightarrow> lock_state option" where
  "lock_act s t =
     (if t < length (todo s) then
        case todo s ! t of
          [] \<Rightarrow> None
        | Lock ms # ops \<Rightarrow>
            if \<forall>m \<in> set ms. holder s m = None
            then Some (s\<lparr>holder := set_holder ms (Some t) (holder s), todo := (todo s)[t := ops]\<rparr>)
            else None
        | Unlock ms # ops \<Rightarrow>
            Some (s\<lparr>holder := set_holder ms None (holder s), todo := (todo s)[t := ops]\<rparr>)
      else None)"

inductive lock_reach :: "lock_op list list \<Rightarrow> lock_state \<Rightarrow> bool" for progs :: "lock_op list list" where
  start: "lock_reach progs (start_locks progs)"
| step: "lock_reach progs s \<Longrightarrow> lock_act s t = Some s' \<Longrightarrow> lock_reach progs s'"

section \<open>The critical sections of the code\<close>

definition add_buf_locks :: "lock_op list" where
  "add_buf_locks = [Lock [StreamChunksMutex], Unlock [StreamChunksMutex]]"

definition add_event_locks :: "lock_op list" where
  "add_event_locks = [Lock [EventsMutex], Unlock [EventsMutex]]"

definition get_event_pipe_locks :: "lock_op list" where
  "get_event_pipe_locks = [Lock [PromiseMapMutex], Unlock [PromiseMapMutex]]"

definition maps_locks :: "lock_op list" where
  "maps_locks = [Lock [PromiseMapMutex, EventMapMutex], Unlock [PromiseMapMutex, EventMapMutex]]"

definition read_locks :: "lock_op list" where
  "read_locks = [Lock [ReadMutex], Unlock [ReadMutex]]"

text \<open>\<open>write\<close> returns before it takes the mutex when there is nothing to write.\<close>

definition write_locks :: "string \<Rightarrow> lock_op list" where
  "write_locks data = (if data = [] then [] else [Lock [WriteMutex], Unlock [WriteMutex]])"

definition socket_destructor_locks :: "lock_op list" where
  "socket_destructor_locks = [Lock [ReadMutex, WriteMutex], Unlock [ReadMutex, WriteMutex]]"

definition registry_locks :: "lock_op list" where
  "registry_locks = [Lock [CallbacksMutex], Unlock [CallbacksMutex]]"

text \<open>The loop over the callbacks; \<open>bodies\<close> is what each of them does.\<close>

definition dispatch_handler_locks :: "lock_op list list \<Rightarrow> lock_op list" where
  "dispatch_handler_locks bodies = Lock [CallbacksMutex] # concat bodies @ [Unlock [CallbacksMutex]]"

text \<open>
  A message in the dispatcher: without an action ID, with the ID of a caller that waits, with
  another one.
\<close>

datatype route = NoActionId | Answers | Unclaimed

fun dispatch_event_locks :: "lock_op list list \<Rightarrow> route \<Rightarrow> lock_op list" where
  "dispatch_event_locks bodies NoActionId = dispatch_handler_locks bodies"
| "dispatch_event_locks bodies Answers = maps_locks"
| "dispatch_event_locks bodies Unclaimed = maps_locks @ dispatch_handler_locks bodies"

text \<open>
  A work thread: in each round the wait, with \<open>waits\<close> wake-ups that find nothing, and the batch,
  outside the lock; then the final pass, under it. \<open>item\<close> is what an item takes.
\<close>

definition round_locks :: "mutex \<Rightarrow> ('i \<Rightarrow> lock_op list) \<Rightarrow> nat \<times> 'i list \<Rightarrow> lock_op list" where
  "round_locks m item r =
     Lock [m] # concat (replicate (fst r) [Unlock [m], Lock [m]]) @ [Unlock [m]] @
     concat (map item (snd r))"

definition work_thread_locks ::
    "mutex \<Rightarrow> ('i \<Rightarrow> lock_op list) \<Rightarrow> (nat \<times> 'i list) list \<Rightarrow> 'i list \<Rightarrow> lock_op list" where
  "work_thread_locks m item rounds final =
     concat (map (round_locks m item) rounds) @ Lock [m] # concat (map item final) @ [Unlock [m]]"

text \<open>The parser calls \<open>add_event\<close> for each message of a chunk; a chunk is the number of them.\<close>

definition parser_thread_locks :: "(nat \<times> nat list) list \<Rightarrow> nat list \<Rightarrow> lock_op list" where
  "parser_thread_locks rounds final =
     work_thread_locks StreamChunksMutex (\<lambda>n. concat (replicate n add_event_locks)) rounds final"

definition dispatcher_thread_locks ::
    "(nat \<times> (lock_op list list \<times> route) list) list \<Rightarrow> (lock_op list list \<times> route) list \<Rightarrow> lock_op list" where
  "dispatcher_thread_locks rounds final =
     work_thread_locks EventsMutex (\<lambda>(bodies, r). dispatch_event_locks bodies r) rounds final"

definition reader_thread_locks :: "string list \<Rightarrow> lock_op list" where
  "reader_thread_locks reads =
     concat (map (\<lambda>buf. read_locks @ (if buf \<noteq> [] then add_buf_locks else [])) reads)"

text \<open>The calls of the client, from its own threads or inside a callback.\<close>

datatype client_call =
  InvokeCall string | TimedInvokeCall string bool | AsyncInvokeCall string
  | AddCallbackCall | RemoveCallbackCall

fun call_locks :: "client_call \<Rightarrow> lock_op list" where
  "call_locks (InvokeCall request) = get_event_pipe_locks @ write_locks request"
| "call_locks (TimedInvokeCall request timeout) =
     get_event_pipe_locks @ write_locks request @ (if timeout then maps_locks else [])"
| "call_locks (AsyncInvokeCall request) = write_locks request"
| "call_locks AddCallbackCall = registry_locks"
| "call_locks RemoveCallbackCall = registry_locks"

text \<open>
  The destructor of the connection, apart from the threads it joins: the socket's and the
  dispatcher's, whose \<open>cleanup_object\<close> takes the two maps.
\<close>

definition destructor_locks :: "lock_op list" where
  "destructor_locks = socket_destructor_locks @ maps_locks"

text \<open>The threads of a program with a connection; a callback is the list of the calls it makes.\<close>

datatype conn_thread =
    ReaderThread "string list"
  | ParserThread "(nat \<times> nat list) list" "nat list"
  | DispatcherThread "(nat \<times> (client_call list list \<times> route) list) list"
      "(client_call list list \<times> route) list"
  | ClientThread "client_call list"
  | DestructorThread

definition calls_locks :: "client_call list \<Rightarrow> lock_op list" where
  "calls_locks cs = concat (map call_locks cs)"

definition event_locks :: "client_call list list \<times> route \<Rightarrow> lock_op list list \<times> route" where
  "event_locks e = (map calls_locks (fst e), snd e)"

fun thread_locks :: "conn_thread \<Rightarrow> lock_op list" where
  "thread_locks (ReaderThread reads) = reader_thread_locks reads"
| "thread_locks (ParserThread rounds final) = parser_thread_locks rounds final"
| "thread_locks (DispatcherThread rounds final) =
     dispatcher_thread_locks (map (\<lambda>(waits, es). (waits, map event_locks es)) rounds) (map event_locks final)"
| "thread_locks (ClientThread cs) = calls_locks cs"
| "thread_locks DestructorThread = destructor_locks"

section \<open>Locks taken in order\<close>

fun mutex_rank :: "mutex \<Rightarrow> nat" where
  "mutex_rank StreamChunksMutex = 0"
| "mutex_rank EventsMutex = 1"
| "mutex_rank CallbacksMutex = 2"
| "mutex_rank PromiseMapMutex = 3"
| "mutex_rank EventMapMutex = 4"
| "mutex_rank WriteMutex = 5"
| "mutex_rank ReadMutex = 6"

text \<open>
  What a thread that holds \<open>held\<close> has to do takes only mutexes above all it holds, gives back what
  it holds, and all of it in the end; \<open>after\<close> is what is left at the end.
\<close>

fun ordered_to :: "mutex list \<Rightarrow> lock_op list \<Rightarrow> mutex list \<Rightarrow> bool" where
  "ordered_to held [] after \<longleftrightarrow> set held = set after"
| "ordered_to held (Lock ms # ops) after \<longleftrightarrow>
     (\<forall>m \<in> set ms. \<forall>h \<in> set held. mutex_rank h < mutex_rank m) \<and> ordered_to (ms @ held) ops after"
| "ordered_to held (Unlock ms # ops) after \<longleftrightarrow>
     set ms \<subseteq> set held \<and> ordered_to (filter (\<lambda>m. m \<notin> set ms) held) ops after"

abbreviation ordered :: "lock_op list \<Rightarrow> bool" where
  "ordered ops \<equiv> ordered_to [] ops []"

lemma ordered_to_cong: "set held = set held' \<Longrightarrow> ordered_to held ops after = ordered_to held' ops after"
proof (induction ops arbitrary: held held')
  case (Cons op ops)
  show ?case
  proof (cases op)
    case (Lock ms)
    with Cons.prems Cons.IH [of "ms @ held" "ms @ held'"] show ?thesis by simp
  next
    case (Unlock ms)
    with Cons.prems Cons.IH [of "filter (\<lambda>m. m \<notin> set ms) held" "filter (\<lambda>m. m \<notin> set ms) held'"]
    show ?thesis by auto
  qed
qed simp

lemma ordered_to_append:
  "ordered_to held ops mid \<Longrightarrow> ordered_to mid ops' after \<Longrightarrow> ordered_to held (ops @ ops') after"
proof (induction held ops mid rule: ordered_to.induct)
  case (1 held mid)
  with ordered_to_cong [of held mid ops' after] show ?case by simp
qed simp_all

lemma ordered_to_concat:
  "\<forall>ops \<in> set opss. ordered_to held ops held \<Longrightarrow> ordered_to held (concat opss) held"
  by (induction opss) (auto intro: ordered_to_append)

section \<open>The threads of the program take their locks in order\<close>

lemma ordered_to_pair:
  "\<forall>m \<in> set ms. \<forall>h \<in> set held. mutex_rank h < mutex_rank m \<Longrightarrow> ordered_to held [Lock ms, Unlock ms] held"
  by force

lemma ordered_to_around:
  assumes "\<forall>h \<in> set held. mutex_rank h < mutex_rank m" and "ordered_to (m # held) ops (m # held)"
  shows "ordered_to held (Lock [m] # ops @ [Unlock [m]]) held"
proof -
  have "ordered_to (m # held) [Unlock [m]] held" using assms(1) by force
  from ordered_to_append [OF assms(2) this] assms(1) show ?thesis by simp
qed

text \<open>Inside a callback a call must not register or remove callbacks.\<close>

fun quiet_call :: "client_call \<Rightarrow> bool" where
  "quiet_call AddCallbackCall \<longleftrightarrow> False"
| "quiet_call RemoveCallbackCall \<longleftrightarrow> False"
| "quiet_call _ \<longleftrightarrow> True"

definition quiet_event :: "client_call list list \<times> route \<Rightarrow> bool" where
  "quiet_event e \<longleftrightarrow> (\<forall>cs \<in> set (fst e). \<forall>c \<in> set cs. quiet_call c)"

fun quiet_thread :: "conn_thread \<Rightarrow> bool" where
  "quiet_thread (DispatcherThread rounds final) \<longleftrightarrow>
     (\<forall>r \<in> set rounds. \<forall>e \<in> set (snd r). quiet_event e) \<and> (\<forall>e \<in> set final. quiet_event e)"
| "quiet_thread _ \<longleftrightarrow> True"

lemmas call_pieces = get_event_pipe_locks_def write_locks_def maps_locks_def registry_locks_def
  read_locks_def add_buf_locks_def add_event_locks_def socket_destructor_locks_def

lemma ordered_pieces:
  assumes "\<forall>h \<in> set held. mutex_rank h < 3"
  shows "ordered_to held get_event_pipe_locks held" "ordered_to held (write_locks data) held"
    "ordered_to held maps_locks held"
proof -
  have m: "\<forall>m \<in> set ms. \<forall>h \<in> set held. mutex_rank h < mutex_rank m"
    if "\<forall>m \<in> set ms. 3 \<le> mutex_rank m" for ms
    using assms that order_less_le_trans by blast
  show "ordered_to held get_event_pipe_locks held" "ordered_to held (write_locks data) held"
    "ordered_to held maps_locks held"
    unfolding call_pieces by (simp_all only: split: if_split) (auto intro!: ordered_to_pair m simp del: ordered_to.simps(2,3))
qed

lemma ordered_call:
  assumes "\<forall>h \<in> set held. mutex_rank h < (if quiet_call c then 3 else 2)"
  shows "ordered_to held (call_locks c) held"
proof (cases "quiet_call c")
  case True
  with assms have "\<forall>h \<in> set held. mutex_rank h < 3" by simp
  note pieces = ordered_pieces [OF this]
  have empty: "ordered_to held [] held" by simp
  show ?thesis
    using True by (cases c) (auto simp del: ordered_to.simps intro!: ordered_to_append pieces empty)
next
  case False
  with assms have "ordered_to held registry_locks held"
    unfolding registry_locks_def by (intro ordered_to_pair) simp
  with False show ?thesis by (cases c) simp_all
qed

lemma ordered_calls:
  assumes "\<forall>h \<in> set held. mutex_rank h < 3" and "\<forall>c \<in> set cs. quiet_call c"
  shows "ordered_to held (calls_locks cs) held"
  unfolding calls_locks_def using assms by (auto intro!: ordered_to_concat ordered_call)

lemma ordered_event:
  assumes "quiet_event e" and "\<forall>h \<in> set held. mutex_rank h < 2"
  shows "ordered_to held (case event_locks e of (bodies, r) \<Rightarrow> dispatch_event_locks bodies r) held"
proof -
  have inner: "ordered_to (CallbacksMutex # held) (concat (map calls_locks (fst e))) (CallbacksMutex # held)"
    using assms by (force simp: quiet_event_def intro!: ordered_to_concat ordered_calls)
  have handler: "ordered_to held (dispatch_handler_locks (map calls_locks (fst e))) held"
    unfolding dispatch_handler_locks_def using assms(2) by (intro ordered_to_around inner) simp
  have maps: "ordered_to held maps_locks held"
    unfolding maps_locks_def using assms(2) by (auto intro!: ordered_to_pair)
  show ?thesis
    by (cases "snd e") (simp_all add: event_locks_def handler maps ordered_to_append [OF maps handler])
qed

lemma ordered_work_thread:
  assumes "\<And>x. x \<in> (\<Union>r \<in> set rounds. set (snd r)) \<Longrightarrow> ordered (item x)"
    and "\<And>x. x \<in> set final \<Longrightarrow> ordered_to [m] (item x) [m]"
  shows "ordered (work_thread_locks m item rounds final)"
proof -
  have "ordered (round_locks m item r)" if "r \<in> set rounds" for r
  proof -
    have "ordered_to [m] (concat (replicate (fst r) [Unlock [m], Lock [m]])) [m]"
      by (rule ordered_to_concat) simp
    then have "ordered (Lock [m] # concat (replicate (fst r) [Unlock [m], Lock [m]]) @ [Unlock [m]])"
      by (intro ordered_to_around) simp_all
    moreover have "ordered (concat (map item (snd r)))"
      using assms(1) that by (intro ordered_to_concat) auto
    ultimately have "ordered ((Lock [m] # concat (replicate (fst r) [Unlock [m], Lock [m]]) @ [Unlock [m]]) @
        concat (map item (snd r)))" by (rule ordered_to_append)
    then show ?thesis by (simp add: round_locks_def)
  qed
  then have "ordered (concat (map (round_locks m item) rounds))" by (auto intro!: ordered_to_concat)
  moreover have "ordered (Lock [m] # concat (map item final) @ [Unlock [m]])"
    using assms(2) by (intro ordered_to_around ordered_to_concat) auto
  ultimately show ?thesis unfolding work_thread_locks_def by (rule ordered_to_append)
qed

lemma ordered_thread: "quiet_thread t \<Longrightarrow> ordered (thread_locks t)"
proof (cases t)
  case (ReaderThread reads)
  show ?thesis
    by (auto simp: ReaderThread reader_thread_locks_def call_pieces
        intro!: ordered_to_concat ordered_to_append ordered_to_pair)
next
  case (ParserThread rounds final)
  have "ordered_to held (concat (replicate n add_event_locks)) held"
    if "set held \<subseteq> {StreamChunksMutex}" for held n
    using that by (intro ordered_to_concat) (auto simp: add_event_locks_def intro!: ordered_to_pair)
  then show ?thesis
    unfolding ParserThread thread_locks.simps parser_thread_locks_def
    by (intro ordered_work_thread) simp_all
next
  case (DispatcherThread rounds final)
  assume "quiet_thread t"
  then have quiet: "e \<in> (\<Union>r \<in> set rounds. set (snd r)) \<union> set final \<Longrightarrow> quiet_event e" for e
    by (auto simp: DispatcherThread)
  show ?thesis
    unfolding DispatcherThread thread_locks.simps dispatcher_thread_locks_def
  proof (rule ordered_work_thread)
    fix x
    assume "x \<in> (\<Union>r \<in> set (map (\<lambda>(waits, es). (waits, map event_locks es)) rounds). set (snd r))"
    then obtain e where "x = event_locks e" "e \<in> (\<Union>r \<in> set rounds. set (snd r))" by fastforce
    with quiet [of e] ordered_event [of e "[]"]
    show "ordered (case x of (bodies, r) \<Rightarrow> dispatch_event_locks bodies r)" by simp
  next
    fix x
    assume "x \<in> set (map event_locks final)"
    then obtain e where "x = event_locks e" "e \<in> set final" by auto
    with quiet [of e] ordered_event [of e "[EventsMutex]"]
    show "ordered_to [EventsMutex] (case x of (bodies, r) \<Rightarrow> dispatch_event_locks bodies r) [EventsMutex]"
      by simp
  qed
next
  case (ClientThread cs)
  show ?thesis by (simp add: ClientThread calls_locks_def) (auto intro!: ordered_to_concat ordered_call)
next
  case DestructorThread
  show ?thesis
    by (simp add: DestructorThread destructor_locks_def call_pieces)
qed

section \<open>No deadlock\<close>

text \<open>
  The invariant: only threads that are there hold mutexes, and each thread takes its locks in
  order from those it holds.
\<close>

definition locks_ok :: "lock_state \<Rightarrow> bool" where
  "locks_ok s \<longleftrightarrow> (\<forall>m t. holder s m = Some t \<longrightarrow> t < length (todo s)) \<and>
     (\<forall>t < length (todo s). \<exists>held. set held = {m. holder s m = Some t} \<and> ordered_to held (todo s ! t) [])"

lemma locks_okD:
  assumes "locks_ok s" and "t < length (todo s)"
  obtains held where "set held = {m. holder s m = Some t}" "ordered_to held (todo s ! t) []"
  using assms by (auto simp: locks_ok_def)

lemma locks_ok_start: "\<forall>ops \<in> set progs. ordered ops \<Longrightarrow> locks_ok (start_locks progs)"
  by (auto simp: locks_ok_def start_locks_def intro!: exI [of _ "[]"])

lemma locks_ok_act:
  assumes ok: "locks_ok s" and act: "lock_act s t = Some s'"
  shows "locks_ok s'"
proof -
  from act have t: "t < length (todo s)" by (auto simp: lock_act_def split: if_splits)
  from locks_okD [OF ok t] obtain held where
    held: "set held = {m. holder s m = Some t}" "ordered_to held (todo s ! t) []" by blast
  from act t obtain op ops where todo: "todo s ! t = op # ops"
    by (auto simp: lock_act_def split: list.splits)
  have others: "\<exists>held. set held = {m. holder s' m = Some u} \<and> ordered_to held (todo s' ! u) []"
    if u: "u < length (todo s)" "u \<noteq> t" "\<And>m. holder s' m = Some u \<longleftrightarrow> holder s m = Some u"
      "todo s' ! u = todo s ! u" for u
  proof -
    from locks_okD [OF ok u(1)] obtain hu where
      "set hu = {m. holder s m = Some u}" "ordered_to hu (todo s ! u) []" by blast
    then show ?thesis unfolding u(3,4) by blast
  qed
  show ?thesis
  proof (cases op)
    case (Lock ms)
    with act t todo have free: "\<forall>m \<in> set ms. holder s m = None"
      and s': "s' = s\<lparr>holder := set_holder ms (Some t) (holder s), todo := (todo s)[t := ops]\<rparr>"
      by (auto simp: lock_act_def split: if_splits)
    have "set (ms @ held) = {m. holder s' m = Some t}" using held(1) s' by (auto simp: set_holder_def)
    moreover have "ordered_to (ms @ held) (todo s' ! t) []" using held(2) todo Lock s' t by simp
    ultimately have self: "\<exists>held. set held = {m. holder s' m = Some t} \<and> ordered_to held (todo s' ! t) []"
      by blast
    have "\<exists>held. set held = {m. holder s' m = Some u} \<and> ordered_to held (todo s' ! u) []"
      if "u < length (todo s')" for u
    proof (cases "u = t")
      case False
      with that s' free show ?thesis by (intro others) (auto simp: set_holder_def)
    qed (use self in simp)
    with ok s' t show ?thesis by (auto simp: locks_ok_def set_holder_def)
  next
    case (Unlock ms)
    with act t todo
    have s': "s' = s\<lparr>holder := set_holder ms None (holder s), todo := (todo s)[t := ops]\<rparr>"
      by (auto simp: lock_act_def split: if_splits)
    from held todo Unlock have sub: "set ms \<subseteq> {m. holder s m = Some t}" by simp
    have "set (filter (\<lambda>m. m \<notin> set ms) held) = {m. holder s' m = Some t}"
      using held(1) s' by (auto simp: set_holder_def)
    moreover have "ordered_to (filter (\<lambda>m. m \<notin> set ms) held) (todo s' ! t) []"
      using held(2) todo Unlock s' t by simp
    ultimately have self: "\<exists>held. set held = {m. holder s' m = Some t} \<and> ordered_to held (todo s' ! t) []"
      by blast
    have "\<exists>held. set held = {m. holder s' m = Some u} \<and> ordered_to held (todo s' ! u) []"
      if "u < length (todo s')" for u
    proof (cases "u = t")
      case False
      with that s' sub show ?thesis by (intro others) (auto simp: set_holder_def)
    qed (use self in simp)
    with ok s' t show ?thesis by (auto simp: locks_ok_def set_holder_def)
  qed
qed

lemma locks_ok_reach: "lock_reach progs s \<Longrightarrow> \<forall>ops \<in> set progs. ordered ops \<Longrightarrow> locks_ok s"
  by (induction rule: lock_reach.induct) (auto intro: locks_ok_start locks_ok_act)

text \<open>
  A thread that cannot go on waits for a mutex that another one holds. Among the mutexes that are
  waited for take one of the highest rank: its holder is not done and waits for a higher one.
\<close>

lemma blocked_waits:
  assumes "locks_ok s" and "t < length (todo s)" and "todo s ! t \<noteq> []" and "lock_act s t = None"
  shows "\<exists>m u. holder s m = Some u \<and> (\<forall>h. holder s h = Some t \<longrightarrow> mutex_rank h < mutex_rank m)"
proof -
  from locks_okD [OF assms(1,2)] obtain held where
    held: "set held = {m. holder s m = Some t}" "ordered_to held (todo s ! t) []" by blast
  from assms(2-4) obtain ms ops where ops: "todo s ! t = Lock ms # ops"
    and "\<exists>m \<in> set ms. holder s m \<noteq> None"
    by (cases "todo s ! t") (auto simp: lock_act_def split: lock_op.splits if_splits)
  then obtain m where m: "m \<in> set ms" "holder s m \<noteq> None" by blast
  from held ops m(1) have "\<forall>h. holder s h = Some t \<longrightarrow> mutex_rank h < mutex_rank m" by auto
  with m(2) show ?thesis by blast
qed

lemma rank_bound: "mutex_rank m < 7"
  by (cases m) simp_all

lemma some_thread_goes_on:
  assumes ok: "locks_ok s" and "t < length (todo s)" and "todo s ! t \<noteq> []"
  shows "\<exists>u. lock_act s u \<noteq> None"
proof (rule ccontr)
  assume "\<not> (\<exists>u. lock_act s u \<noteq> None)"
  then have blocked: "lock_act s u = None" for u by simp
  let ?waited = "\<lambda>m. holder s m \<noteq> None"
  from blocked_waits [OF ok assms(2,3) blocked] obtain m where "?waited m" by auto
  with ex_has_greatest_nat [of ?waited m mutex_rank 7] rank_bound obtain top where
    top: "?waited top" "\<And>m. ?waited m \<Longrightarrow> mutex_rank m \<le> mutex_rank top" by blast
  then obtain u where u: "holder s top = Some u" by auto
  with ok have "u < length (todo s)" by (auto simp: locks_ok_def)
  moreover from locks_okD [OF ok this] u have "todo s ! u \<noteq> []"
    by (metis (mono_tags) empty_iff list.set(1) mem_Collect_eq ordered_to.simps(1))
  ultimately obtain m u' where "holder s m = Some u'" "mutex_rank top < mutex_rank m"
    using blocked_waits [OF ok _ _ blocked] u by blast
  with top(2) [of m] show False by simp
qed

definition steps_left :: "lock_state \<Rightarrow> nat" where
  "steps_left s = sum_list (map length (todo s))"

lemma lock_act_steps: "lock_act s t = Some s' \<Longrightarrow> steps_left s = Suc (steps_left s')"
proof -
  assume act: "lock_act s t = Some s'"
  then have t: "t < length (todo s)" by (auto simp: lock_act_def split: if_splits)
  with act obtain op ops where ops: "todo s ! t = op # ops" "todo s' = (todo s)[t := ops]"
    by (cases "todo s ! t") (auto simp: lock_act_def split: lock_op.splits if_splits)
  have "map length (todo s') = (map length (todo s))[t := length ops]"
    by (simp add: ops(2) map_update)
  moreover have "length (todo s ! t) \<le> sum_list (map length (todo s))"
    using t member_le_sum_list [of "length (todo s ! t)" "map length (todo s)"] by simp
  ultimately show ?thesis
    using t ops(1) by (simp add: steps_left_def sum_list_update)
qed

text \<open>C17. The mutexes cannot block the program: whatever threads run (the reader, the work threads of
  the parser and the dispatcher with any messages, any threads of the client, the destructor), in
  whatever order, either all of them are done and every mutex is free, or one of them can go on;
  and no run is longer than the number of lock operations. The one condition is that the client's
  callbacks do not register or remove callbacks.\<close>

theorem mutexes_never_deadlock:
  assumes "lock_reach (map thread_locks ts) s" and "\<forall>t \<in> set ts. quiet_thread t"
  shows "((\<forall>ops \<in> set (todo s). ops = []) \<and> (\<forall>m. holder s m = None)) \<or>
    (\<exists>t s'. lock_act s t = Some s' \<and> steps_left s' < steps_left s)"
proof -
  from assms(2) have "\<forall>ops \<in> set (map thread_locks ts). ordered ops" by (auto intro: ordered_thread)
  with assms(1) have ok: "locks_ok s" by (rule locks_ok_reach)
  show ?thesis
  proof (cases "\<forall>ops \<in> set (todo s). ops = []")
    case True
    have "holder s m = None" for m
    proof (rule ccontr)
      assume "holder s m \<noteq> None"
      then obtain u where u: "holder s m = Some u" by auto
      with ok have "u < length (todo s)" by (auto simp: locks_ok_def)
      from locks_okD [OF ok this] obtain held where
        held: "set held = {m. holder s m = Some u}" "ordered_to held (todo s ! u) []" by blast
      from True \<open>u < length (todo s)\<close> have "todo s ! u = []" by simp
      with held have "{m. holder s m = Some u} = {}" by simp
      with u show False by blast
    qed
    with True show ?thesis by blast
  next
    case False
    then obtain t where "t < length (todo s)" "todo s ! t \<noteq> []" by (auto simp: in_set_conv_nth)
    with some_thread_goes_on [OF ok] obtain u s' where "lock_act s u = Some s'" by blast
    moreover from lock_act_steps [OF this] have "steps_left s' < steps_left s" by simp
    ultimately show ?thesis by blast
  qed
qed

definition sample_threads :: "conn_thread list" where
  "sample_threads =
     [DispatcherThread [(1, [([[InvokeCall ''Action: Ping'']], Unclaimed)])] [],
      ClientThread [AddCallbackCall], DestructorThread]"

theorem mutexes_never_deadlock_witness:
  "\<exists>s t s'. lock_reach (map thread_locks sample_threads) s \<and> holder s CallbacksMutex = Some 1 \<and>
    lock_act s t = Some s' \<and> steps_left s' < steps_left s"
proof -
  have quiet: "\<forall>t \<in> set sample_threads. quiet_thread t"
    by (simp add: sample_threads_def quiet_event_def)
  let ?s0 = "start_locks (map thread_locks sample_threads)"
  have at: "1 < length (todo ?s0)" "todo ?s0 ! 1 = [Lock [CallbacksMutex], Unlock [CallbacksMutex]]"
    by (simp_all add: start_locks_def sample_threads_def calls_locks_def registry_locks_def)
  let ?s1 = "?s0\<lparr>holder := set_holder [CallbacksMutex] (Some 1) (holder ?s0),
    todo := (todo ?s0)[1 := [Unlock [CallbacksMutex]]]\<rparr>"
  have "lock_act ?s0 1 = Some ?s1"
    unfolding lock_act_def at(2) using at(1) by (simp add: start_locks_def)
  from lock_reach.step [OF lock_reach.start this]
  have r: "lock_reach (map thread_locks sample_threads) ?s1" .
  moreover have h: "holder ?s1 CallbacksMutex = Some 1" by (simp add: set_holder_def)
  moreover from mutexes_never_deadlock [OF r quiet] h obtain t s' where
    "lock_act ?s1 t = Some s'" "steps_left s' < steps_left ?s1" by fastforce
  ultimately show ?thesis by blast
qed

text \<open>The condition is needed: a callback that registers another stops its thread for good.\<close>

lemma quiet_is_needed:
  "\<exists>s. lock_reach (map thread_locks [DispatcherThread [(0, [([[AddCallbackCall]], NoActionId)])] []]) s \<and>
    steps_left s \<noteq> 0 \<and> (\<forall>t. lock_act s t = None)"
proof -
  let ?ops = "\<lambda>n. drop n (thread_locks (DispatcherThread [(0, [([[AddCallbackCall]], NoActionId)])] []))"
  let ?s = "\<lambda>h n. \<lparr>holder = h, todo = [?ops n]\<rparr>"
  let ?free = "\<lambda>_ :: mutex. None :: nat option"
  note defs = lock_act_def set_holder_def dispatcher_thread_locks_def work_thread_locks_def round_locks_def
    event_locks_def dispatch_handler_locks_def calls_locks_def registry_locks_def
  let ?progs = "map thread_locks [DispatcherThread [(0, [([[AddCallbackCall]], NoActionId)])] []]"
  have "start_locks ?progs = ?s ?free 0" by (simp add: start_locks_def)
  with lock_reach.start [of ?progs] have "lock_reach ?progs (?s ?free 0)" by simp
  from lock_reach.step [OF this, of 0] have "lock_reach ?progs (?s (?free(EventsMutex := Some 0)) 1)"
    by (simp add: defs fun_upd_def)
  from lock_reach.step [OF this, of 0] have "lock_reach ?progs (?s ?free 2)"
    by (simp add: defs fun_upd_def if_distrib cong: if_cong)
  from lock_reach.step [OF this, of 0] have "lock_reach ?progs (?s (?free(CallbacksMutex := Some 0)) 3)"
    by (simp add: defs fun_upd_def)
  moreover have "lock_act (?s (?free(CallbacksMutex := Some 0)) 3) t = None" for t
    by (simp add: defs)
  moreover have "steps_left (?s (?free(CallbacksMutex := Some 0)) 3) \<noteq> 0"
    by (simp add: steps_left_def defs)
  ultimately show ?thesis by blast
qed

end
