(* ===== verification/SharedSocket.thy ===== *)
theory SharedSocket
  imports Net
begin

text \<open>
  \<open>net::TcpSocket\<close> as the threads share it (\<open>src/net/TcpSocket.cpp\<close>): the reader's thread reads, any
  threads write, and the destructor closes the descriptor. \<open>Net\<close> has a call as one step; here it is
  taken apart at its mutex, its test of the descriptor and its system calls, and the two are shown to
  agree.
\<close>

section \<open>State and steps\<close>

text \<open>A call with its arguments; what the system calls in it will return is part of it.\<close>

datatype socket_call =
  ReadCall io_calls "16 word" "64 word" | WriteCall io_calls string | DestroyCall

text \<open>
  \<open>Enter\<close>: before the mutex; \<open>Test\<close>: before the test of \<open>sock_fd_\<close>; \<open>SysCall\<close>: before \<open>poll\<close>, \<open>send\<close>
  or \<open>::close\<close>; \<open>Recv\<close>: before \<open>recv\<close>; \<open>Leave r\<close>: about to give the mutex back and to return or
  throw \<open>r\<close>.
\<close>

datatype phase = Enter | Test | SysCall | Recv | Leave "string result"

record shared_socket =
  sock_fd :: int
  closed_fds :: "int list"
  read_owner :: "nat option"
  write_owner :: "nat option"
  active :: "nat \<Rightarrow> (socket_call \<times> phase) option"
  wire :: string
  returned :: "(socket_call \<times> string result) list"

definition new_shared :: "int \<Rightarrow> shared_socket" where
  "new_shared fd = \<lparr>sock_fd = fd, closed_fds = [], read_owner = None, write_owner = None,
     active = (\<lambda>_. None), wire = [], returned = []\<rparr>"

abbreviation goto :: "nat \<Rightarrow> socket_call \<Rightarrow> phase \<Rightarrow> shared_socket \<Rightarrow> shared_socket" where
  "goto t c ph s \<equiv> s\<lparr>active := (active s)(t \<mapsto> (c, ph))\<rparr>"

definition finish :: "nat \<Rightarrow> socket_call \<Rightarrow> string result \<Rightarrow> shared_socket \<Rightarrow> shared_socket" where
  "finish t c r s = s\<lparr>active := (active s)(t := None), returned := returned s @ [(c, r)]\<rparr>"

fun read_act :: "nat \<Rightarrow> io_calls \<Rightarrow> 16 word \<Rightarrow> 64 word \<Rightarrow> phase \<Rightarrow> shared_socket \<Rightarrow> shared_socket option" where
  "read_act t io buf_size timeout Enter s =
     (if read_owner s = None
      then Some (goto t (ReadCall io buf_size timeout) Test (s\<lparr>read_owner := Some t\<rparr>)) else None)"
| "read_act t io buf_size timeout Test s =
     Some (goto t (ReadCall io buf_size timeout) (if sock_fd s = -1 then Leave (Inr []) else SysCall) s)"
| "read_act t io buf_size timeout SysCall s =
     (let (ret, revents) = poll_call io (poll_timeout timeout)
      in Some (goto t (ReadCall io buf_size timeout)
           (if ret = -1 then Leave (Inl (error_reading (io_errno io)))
            else if ret = 0 then Leave (Inr [])
            else if revents \<noteq> POLLIN then Leave (Inr [])
            else Recv) s))"
| "read_act t io buf_size timeout Recv s =
     (let size = unat (clamp_size buf_size)
      in Some (goto t (ReadCall io buf_size timeout)
           (Leave (case recv_call io size of
              Inl msg \<Rightarrow> Inl (error_reading msg)
            | Inr received \<Rightarrow>
                Inr (take (length received)
                  (received @ replicate (size - length received) (CHR 0x00))))) s))"
| "read_act t io buf_size timeout (Leave r) s =
     Some (finish t (ReadCall io buf_size timeout) r (s\<lparr>read_owner := None\<rparr>))"

fun write_act :: "nat \<Rightarrow> io_calls \<Rightarrow> string \<Rightarrow> phase \<Rightarrow> shared_socket \<Rightarrow> shared_socket option" where
  "write_act t io data Enter s =
     (if data = [] then Some (finish t (WriteCall io data) (Inr []) s)
      else if write_owner s = None
      then Some (goto t (WriteCall io data) Test (s\<lparr>write_owner := Some t\<rparr>)) else None)"
| "write_act t io data Test s =
     Some (goto t (WriteCall io data) (if sock_fd s = -1 then Leave (Inr []) else SysCall) s)"
| "write_act t io data SysCall s =
     (case send_call io data of
        Inl msg \<Rightarrow> Some (goto t (WriteCall io data) (Leave (Inl (RuntimeError (''Error writing socket: '' @ msg)))) s)
      | Inr sent \<Rightarrow> Some (goto t (WriteCall io data) (Leave (Inr (take sent data)))
           (s\<lparr>wire := wire s @ take sent data\<rparr>)))"
| "write_act t io data Recv s = None"
| "write_act t io data (Leave r) s =
     Some (finish t (WriteCall io data) r (s\<lparr>write_owner := None\<rparr>))"

text \<open>The destructor: both mutexes at once, then \<open>std::exchange\<close> and \<open>close\<close>.\<close>

fun destroy_act :: "nat \<Rightarrow> phase \<Rightarrow> shared_socket \<Rightarrow> shared_socket option" where
  "destroy_act t Enter s =
     (if read_owner s = None \<and> write_owner s = None
      then Some (goto t DestroyCall SysCall (s\<lparr>read_owner := Some t, write_owner := Some t\<rparr>)) else None)"
| "destroy_act t SysCall s =
     Some (goto t DestroyCall (Leave (Inr []))
       (s\<lparr>sock_fd := -1, closed_fds := closed_fds s @ (if sock_fd s \<noteq> -1 then [sock_fd s] else [])\<rparr>))"
| "destroy_act t (Leave r) s = Some (finish t DestroyCall r (s\<lparr>read_owner := None, write_owner := None\<rparr>))"
| "destroy_act t _ s = None"

definition socket_act :: "shared_socket \<Rightarrow> nat \<Rightarrow> shared_socket option" where
  "socket_act s t =
     (case active s t of
        None \<Rightarrow> None
      | Some (ReadCall io buf_size timeout, ph) \<Rightarrow> read_act t io buf_size timeout ph s
      | Some (WriteCall io data, ph) \<Rightarrow> write_act t io data ph s
      | Some (DestroyCall, ph) \<Rightarrow> destroy_act t ph s)"

text \<open>Any thread may call at any time; the calls then go on in any interleaving.\<close>

inductive socket_reach :: "int \<Rightarrow> shared_socket \<Rightarrow> bool" for fd :: int where
  start: "socket_reach fd (new_shared fd)"
| call: "socket_reach fd s \<Longrightarrow> active s t = None \<Longrightarrow> socket_reach fd (goto t c Enter s)"
| act: "socket_reach fd s \<Longrightarrow> socket_act s t = Some s' \<Longrightarrow> socket_reach fd s'"

section \<open>Invariant\<close>

text \<open>The call as one step, on the descriptor it finds.\<close>

fun call_result :: "socket_call \<Rightarrow> int \<Rightarrow> string result" where
  "call_result (ReadCall io buf_size timeout) fd = tcp_read io fd buf_size timeout"
| "call_result (WriteCall io data) fd = tcp_write io fd data"
| "call_result DestroyCall fd = Inr []"

fun reads :: "socket_call \<Rightarrow> bool" where
  "reads (WriteCall io data) \<longleftrightarrow> False"
| "reads _ \<longleftrightarrow> True"

fun writes :: "socket_call \<Rightarrow> bool" where
  "writes (ReadCall io buf_size timeout) \<longleftrightarrow> False"
| "writes _ \<longleftrightarrow> True"

text \<open>The result a call may return: that of the step on the open descriptor, or on none once it is closed.\<close>

definition result_ok :: "int \<Rightarrow> int list \<Rightarrow> socket_call \<Rightarrow> string result \<Rightarrow> bool" where
  "result_ok fd closed c r \<longleftrightarrow> r = call_result c fd \<or> closed = [fd] \<and> r = call_result c (-1)"

fun phase_ok :: "int \<Rightarrow> int \<Rightarrow> int list \<Rightarrow> socket_call \<Rightarrow> phase \<Rightarrow> bool" where
  "phase_ok fd sock closed c Enter \<longleftrightarrow> True"
| "phase_ok fd sock closed c Test \<longleftrightarrow> c \<noteq> DestroyCall \<and> (\<forall>io. c \<noteq> WriteCall io [])"
| "phase_ok fd sock closed c SysCall \<longleftrightarrow> c = DestroyCall \<or> sock = fd \<and> (\<forall>io. c \<noteq> WriteCall io [])"
| "phase_ok fd sock closed c Recv \<longleftrightarrow> sock = fd \<and>
     (\<exists>io buf_size timeout ret. c = ReadCall io buf_size timeout \<and>
        poll_call io (poll_timeout timeout) = (ret, POLLIN) \<and> ret \<noteq> -1 \<and> ret \<noteq> 0)"
| "phase_ok fd sock closed c (Leave r) \<longleftrightarrow> result_ok fd closed c r"

definition thread_ok :: "int \<Rightarrow> shared_socket \<Rightarrow> nat \<Rightarrow> bool" where
  "thread_ok fd s t \<longleftrightarrow> (\<forall>c ph. active s t = Some (c, ph) \<longrightarrow>
     phase_ok fd (sock_fd s) (closed_fds s) c ph \<and>
     (ph \<noteq> Enter \<longrightarrow> (reads c \<longrightarrow> read_owner s = Some t) \<and> (writes c \<longrightarrow> write_owner s = Some t)))"

text \<open>What a finished write has put on the wire, and what one that is about to return has.\<close>

fun written :: "socket_call \<times> string result \<Rightarrow> string" where
  "written (WriteCall io data, Inr part) = part"
| "written _ = []"

definition in_flight :: "shared_socket \<Rightarrow> string" where
  "in_flight s =
     (case write_owner s of
        None \<Rightarrow> []
      | Some t \<Rightarrow> (case active s t of Some (c, Leave r) \<Rightarrow> written (c, r) | _ \<Rightarrow> []))"

definition socket_inv :: "int \<Rightarrow> shared_socket \<Rightarrow> bool" where
  "socket_inv fd s \<longleftrightarrow>
     (if sock_fd s = -1 then closed_fds s = [fd] else sock_fd s = fd \<and> closed_fds s = []) \<and>
     (\<forall>t. thread_ok fd s t) \<and>
     (\<forall>x \<in> set (returned s). result_ok fd (closed_fds s) (fst x) (snd x)) \<and>
     wire s = concat (map written (returned s)) @ in_flight s \<and>
     (\<forall>t. read_owner s = Some t \<longrightarrow> (\<exists>c ph. active s t = Some (c, ph) \<and> ph \<noteq> Enter \<and> reads c)) \<and>
     (\<forall>t. write_owner s = Some t \<longrightarrow> (\<exists>c ph. active s t = Some (c, ph) \<and> ph \<noteq> Enter \<and> writes c))"

lemma socket_inv_start: "fd \<noteq> -1 \<Longrightarrow> socket_inv fd (new_shared fd)"
  by (simp add: socket_inv_def new_shared_def thread_ok_def in_flight_def)

lemma socket_inv_call:
  assumes "socket_inv fd s" and "active s t = None"
  shows "socket_inv fd (goto t c Enter s)"
proof -
  from assms have "read_owner s \<noteq> Some t" "write_owner s \<noteq> Some t"
    by (auto simp: socket_inv_def)
  with assms(1) show ?thesis
    by (auto simp: socket_inv_def thread_ok_def in_flight_def split: option.split)
qed

lemma socket_invD:
  assumes "socket_inv fd s"
  shows "if sock_fd s = -1 then closed_fds s = [fd] else sock_fd s = fd \<and> closed_fds s = []"
    "thread_ok fd s t" "x \<in> set (returned s) \<Longrightarrow> result_ok fd (closed_fds s) (fst x) (snd x)"
    "wire s = concat (map written (returned s)) @ in_flight s"
    "read_owner s = Some t \<Longrightarrow> \<exists>c ph. active s t = Some (c, ph) \<and> ph \<noteq> Enter \<and> reads c"
    "write_owner s = Some t \<Longrightarrow> \<exists>c ph. active s t = Some (c, ph) \<and> ph \<noteq> Enter \<and> writes c"
  using assms by (simp_all add: socket_inv_def)

lemma written_read [simp]: "\<not> writes c \<Longrightarrow> written (c, r) = []"
  by (cases c) simp_all

text \<open>A call that goes on under its mutex, without touching the descriptor.\<close>

lemma socket_inv_goto:
  assumes inv: "socket_inv fd s" and t: "active s t = Some (c, ph0)" "ph0 \<noteq> Enter" "\<forall>r. ph0 \<noteq> Leave r"
    and ph: "ph \<noteq> Enter" "phase_ok fd (sock_fd s) (closed_fds s) c ph"
    and out: "out = (case ph of Leave r \<Rightarrow> written (c, r) | _ \<Rightarrow> [])"
  shows "socket_inv fd (goto t c ph (s\<lparr>wire := wire s @ out\<rparr>))"
proof -
  let ?s = "goto t c ph (s\<lparr>wire := wire s @ out\<rparr>)"
  note inv' = socket_invD [OF inv]
  have own: "reads c \<longrightarrow> read_owner s = Some t" "writes c \<longrightarrow> write_owner s = Some t"
    using inv'(2) [of t] t by (auto simp: thread_ok_def)
  have "thread_ok fd ?s u" for u
    using inv'(2) [of u] own ph by (auto simp: thread_ok_def)
  moreover have "wire ?s = concat (map written (returned ?s)) @ in_flight ?s"
  proof (cases "writes c")
    case True
    with own t(1,3) have "in_flight s = []" by (simp add: in_flight_def split: phase.split)
    moreover have "in_flight ?s = out" using True own by (simp add: in_flight_def out)
    ultimately show ?thesis using inv'(4) by simp
  next
    case False
    then have "out = []" by (simp add: out split: phase.split)
    moreover have "write_owner s \<noteq> Some t" using inv'(6) [of t] t(1) False by auto
    then have "in_flight ?s = in_flight s" by (simp add: in_flight_def split: option.split)
    ultimately show ?thesis using inv'(4) by simp
  qed
  moreover have "\<exists>d q. active ?s u = Some (d, q) \<and> q \<noteq> Enter \<and> reads d" if "read_owner ?s = Some u" for u
    using inv'(5) [of u] that t(1) ph(1) by auto
  moreover have "\<exists>d q. active ?s u = Some (d, q) \<and> q \<noteq> Enter \<and> writes d" if "write_owner ?s = Some u" for u
    using inv'(6) [of u] that t(1) ph(1) by auto
  moreover have "if sock_fd ?s = -1 then closed_fds ?s = [fd] else sock_fd ?s = fd \<and> closed_fds ?s = []"
    using inv'(1) by simp
  moreover have "\<forall>x \<in> set (returned ?s). result_ok fd (closed_fds ?s) (fst x) (snd x)"
    using inv'(3) by simp
  ultimately show ?thesis unfolding socket_inv_def by blast
qed

lemma socket_inv_goto_quiet:
  assumes "socket_inv fd s" and "active s t = Some (c, ph0)" and "ph0 \<noteq> Enter" and "\<forall>r. ph0 \<noteq> Leave r"
    and "ph \<noteq> Enter" and "phase_ok fd (sock_fd s) (closed_fds s) c ph"
    and "\<forall>r. ph = Leave r \<longrightarrow> written (c, r) = []"
  shows "socket_inv fd (goto t c ph s)"
  using socket_inv_goto [OF assms(1-6) refl] assms(7) by (cases ph) simp_all

text \<open>A call that takes its mutexes.\<close>

lemma socket_inv_enter:
  assumes inv: "socket_inv fd s" and t: "active s t = Some (c, Enter)"
    and free: "reads c \<Longrightarrow> read_owner s = None" "writes c \<Longrightarrow> write_owner s = None"
    and ph: "ph \<noteq> Enter" "\<forall>r. ph \<noteq> Leave r" "phase_ok fd (sock_fd s) (closed_fds s) c ph"
  shows "socket_inv fd (goto t c ph (s\<lparr>read_owner := if reads c then Some t else read_owner s,
    write_owner := if writes c then Some t else write_owner s\<rparr>))"
proof -
  let ?s = "goto t c ph (s\<lparr>read_owner := if reads c then Some t else read_owner s,
    write_owner := if writes c then Some t else write_owner s\<rparr>)"
  note inv' = socket_invD [OF inv]
  have not_t: "read_owner s \<noteq> Some t" "write_owner s \<noteq> Some t"
    using inv'(5,6) [of t] t by auto
  have "thread_ok fd ?s u" for u
    using inv'(2) [of u] free ph by (auto simp: thread_ok_def)
  moreover have "in_flight ?s = in_flight s"
    using free(2) not_t(2) ph(2) by (auto simp: in_flight_def split: option.split phase.split)
  then have "wire ?s = concat (map written (returned ?s)) @ in_flight ?s" using inv'(4) by simp
  moreover have "\<exists>d q. active ?s u = Some (d, q) \<and> q \<noteq> Enter \<and> reads d" if "read_owner ?s = Some u" for u
    using inv'(5) [of u] that t not_t(1) ph(1) by (auto split: if_splits)
  moreover have "\<exists>d q. active ?s u = Some (d, q) \<and> q \<noteq> Enter \<and> writes d" if "write_owner ?s = Some u" for u
    using inv'(6) [of u] that t not_t(2) ph(1) by (auto split: if_splits)
  moreover have "if sock_fd ?s = -1 then closed_fds ?s = [fd] else sock_fd ?s = fd \<and> closed_fds ?s = []"
    using inv'(1) by simp
  moreover have "\<forall>x \<in> set (returned ?s). result_ok fd (closed_fds ?s) (fst x) (snd x)"
    using inv'(3) by simp
  ultimately show ?thesis unfolding socket_inv_def by blast
qed

text \<open>A call that gives them back and returns.\<close>

lemma socket_inv_finish:
  assumes inv: "socket_inv fd s" and t: "active s t = Some (c, Leave r)"
  shows "socket_inv fd (finish t c r (s\<lparr>read_owner := if reads c then None else read_owner s,
    write_owner := if writes c then None else write_owner s\<rparr>))"
proof -
  let ?s = "finish t c r (s\<lparr>read_owner := if reads c then None else read_owner s,
    write_owner := if writes c then None else write_owner s\<rparr>)"
  note inv' = socket_invD [OF inv]
  have own: "reads c \<longrightarrow> read_owner s = Some t" "writes c \<longrightarrow> write_owner s = Some t"
    and r: "result_ok fd (closed_fds s) c r"
    using inv'(2) [of t] t by (auto simp: thread_ok_def)
  have "thread_ok fd ?s u" for u
    using inv'(2) [of u] own by (auto simp: thread_ok_def finish_def)
  moreover have "wire ?s = concat (map written (returned ?s)) @ in_flight ?s"
  proof (cases "writes c")
    case True
    with own t have "in_flight s = written (c, r)" by (simp add: in_flight_def)
    with inv'(4) True show ?thesis by (simp add: finish_def in_flight_def)
  next
    case False
    have "write_owner s \<noteq> Some t" using inv'(6) [of t] t(1) False by auto
    with False inv'(4) show ?thesis by (simp add: finish_def in_flight_def split: option.split)
  qed
  moreover have "\<exists>d q. active ?s u = Some (d, q) \<and> q \<noteq> Enter \<and> reads d" if "read_owner ?s = Some u" for u
    using inv'(5) [of u] that t by (auto simp: finish_def split: if_splits)
  moreover have "\<exists>d q. active ?s u = Some (d, q) \<and> q \<noteq> Enter \<and> writes d" if "write_owner ?s = Some u" for u
    using inv'(6) [of u] that t by (auto simp: finish_def split: if_splits)
  moreover have "if sock_fd ?s = -1 then closed_fds ?s = [fd] else sock_fd ?s = fd \<and> closed_fds ?s = []"
    using inv'(1) by (simp add: finish_def)
  moreover have "\<forall>x \<in> set (returned ?s). result_ok fd (closed_fds ?s) (fst x) (snd x)"
    using inv'(3) r by (auto simp: finish_def)
  ultimately show ?thesis unfolding socket_inv_def by blast
qed

lemma reads_or_writes: "reads c \<or> writes c"
  by (cases c) simp_all

lemma socket_inv_empty_write:
  assumes inv: "socket_inv fd s" and t: "active s t = Some (WriteCall io [], Enter)"
  shows "socket_inv fd (finish t (WriteCall io []) (Inr []) s)"
proof -
  let ?s = "finish t (WriteCall io []) (Inr []) s"
  note inv' = socket_invD [OF inv]
  have not_t: "read_owner s \<noteq> Some t" "write_owner s \<noteq> Some t"
    using inv'(5,6) [of t] t by auto
  have "thread_ok fd ?s u" for u
    using inv'(2) [of u] by (auto simp: thread_ok_def finish_def)
  moreover have "in_flight ?s = in_flight s"
    using not_t(2) by (auto simp: in_flight_def finish_def split: option.split)
  then have "wire ?s = concat (map written (returned ?s)) @ in_flight ?s"
    using inv'(4) by (simp add: finish_def)
  moreover have "\<exists>d q. active ?s u = Some (d, q) \<and> q \<noteq> Enter \<and> reads d" if "read_owner ?s = Some u" for u
    using inv'(5) [of u] that not_t(1) by (auto simp: finish_def)
  moreover have "\<exists>d q. active ?s u = Some (d, q) \<and> q \<noteq> Enter \<and> writes d" if "write_owner ?s = Some u" for u
    using inv'(6) [of u] that not_t(2) by (auto simp: finish_def)
  moreover have "if sock_fd ?s = -1 then closed_fds ?s = [fd] else sock_fd ?s = fd \<and> closed_fds ?s = []"
    using inv'(1) by (simp add: finish_def)
  moreover have "\<forall>x \<in> set (returned ?s). result_ok fd (closed_fds ?s) (fst x) (snd x)"
    using inv'(3) by (auto simp: finish_def result_ok_def tcp_write_def)
  ultimately show ?thesis unfolding socket_inv_def by blast
qed

text \<open>The destructor holds both mutexes: no other call is inside.\<close>

lemma socket_inv_close:
  assumes inv: "socket_inv fd s" and t: "active s t = Some (DestroyCall, SysCall)" and "fd \<noteq> -1"
  shows "socket_inv fd (goto t DestroyCall (Leave (Inr []))
    (s\<lparr>sock_fd := -1, closed_fds := closed_fds s @ (if sock_fd s \<noteq> -1 then [sock_fd s] else [])\<rparr>))"
    (is "socket_inv fd ?s")
proof -
  note inv' = socket_invD [OF inv]
  have own: "read_owner s = Some t" "write_owner s = Some t"
    using inv'(2) [of t] t by (auto simp: thread_ok_def)
  have closed: "closed_fds ?s = [fd]" using inv'(1) assms(3) by (auto split: if_splits)
  have alone: "q = Enter" if "active s u = Some (d, q)" "u \<noteq> t" for u d q
    using inv'(2) [of u] that own reads_or_writes [of d] by (auto simp: thread_ok_def)
  have "thread_ok fd ?s u" for u
    using alone [of u] own closed by (cases "u = t") (auto simp: thread_ok_def result_ok_def)
  moreover have "in_flight s = []" "in_flight ?s = []" using own t by (simp_all add: in_flight_def)
  then have "wire ?s = concat (map written (returned ?s)) @ in_flight ?s" using inv'(4) by simp
  moreover have "\<exists>d q. active ?s u = Some (d, q) \<and> q \<noteq> Enter \<and> reads d" if "read_owner ?s = Some u" for u
    using that own by simp
  moreover have "\<exists>d q. active ?s u = Some (d, q) \<and> q \<noteq> Enter \<and> writes d" if "write_owner ?s = Some u" for u
    using that own by simp
  moreover have "if sock_fd ?s = -1 then closed_fds ?s = [fd] else sock_fd ?s = fd \<and> closed_fds ?s = []"
    using closed by simp
  moreover have "result_ok fd [fd] (fst x) (snd x)" if "x \<in> set (returned s)" for x
    using inv'(3) [OF that] by (auto simp: result_ok_def)
  then have "\<forall>x \<in> set (returned ?s). result_ok fd (closed_fds ?s) (fst x) (snd x)"
    unfolding closed by simp
  ultimately show ?thesis unfolding socket_inv_def by blast
qed

lemma socket_inv_read:
  assumes inv: "socket_inv fd s" and t: "active s t = Some (ReadCall io n tm, ph)"
    and act: "read_act t io n tm ph s = Some s'" and "fd \<noteq> -1"
  shows "socket_inv fd s'"
proof (cases ph)
  case Enter
  with act have free: "read_owner s = None" by (simp split: if_splits)
  from socket_inv_enter [OF inv, of t "ReadCall io n tm" Test] t act Enter free show ?thesis by simp
next
  case Test
  have "socket_inv fd (goto t (ReadCall io n tm) (if sock_fd s = -1 then Leave (Inr []) else SysCall) s)"
    using socket_invD(1) [OF inv] Test
    by (intro socket_inv_goto_quiet [OF inv t]) (auto simp: result_ok_def tcp_read_def)
  with act Test show ?thesis by simp
next
  case SysCall
  obtain ret revents where poll: "poll_call io (poll_timeout tm) = (ret, revents)" by fastforce
  have fd: "sock_fd s = fd" using socket_invD(2) [OF inv, of t] t SysCall by (simp add: thread_ok_def)
  have "socket_inv fd (goto t (ReadCall io n tm)
      (if ret = -1 then Leave (Inl (error_reading (io_errno io)))
       else if ret = 0 then Leave (Inr [])
       else if revents \<noteq> POLLIN then Leave (Inr []) else Recv) s)"
    using socket_invD(1) [OF inv] assms(4) SysCall fd poll
    by (intro socket_inv_goto_quiet [OF inv t]) (auto simp: result_ok_def tcp_read_def split: if_splits)
  with act SysCall poll show ?thesis by simp
next
  case Recv
  then obtain ret where poll: "poll_call io (poll_timeout tm) = (ret, POLLIN)" "ret \<noteq> -1" "ret \<noteq> 0"
    and fd: "sock_fd s = fd"
    using socket_invD(2) [OF inv, of t] t by (auto simp: thread_ok_def)
  have "socket_inv fd (goto t (ReadCall io n tm)
      (Leave (case recv_call io (unat (clamp_size n)) of
              Inl msg \<Rightarrow> Inl (error_reading msg)
            | Inr received \<Rightarrow> Inr (take (length received)
                (received @ replicate (unat (clamp_size n) - length received) (CHR 0x00))))) s)"
    using socket_invD(1) [OF inv] assms(4) Recv fd poll
    by (intro socket_inv_goto_quiet [OF inv t])
      (auto simp: result_ok_def tcp_read_def split: sum.split if_splits)
  with act Recv show ?thesis by (simp add: Let_def)
next
  case (Leave r)
  from socket_inv_finish [OF inv, of t "ReadCall io n tm" r] t act Leave show ?thesis by simp
qed

lemma socket_inv_write:
  assumes inv: "socket_inv fd s" and t: "active s t = Some (WriteCall io data, ph)"
    and act: "write_act t io data ph s = Some s'" and "fd \<noteq> -1"
  shows "socket_inv fd s'"
proof (cases ph)
  case Enter
  show ?thesis
  proof (cases "data = []")
    case True
    with socket_inv_empty_write [OF inv, of t io] t act Enter show ?thesis by simp
  next
    case False
    with act Enter have free: "write_owner s = None" by (simp split: if_splits)
    from socket_inv_enter [OF inv, of t "WriteCall io data" Test] t act Enter False free
    show ?thesis by simp
  qed
next
  case Test
  have data: "data \<noteq> []" using socket_invD(2) [OF inv, of t] t Test by (simp add: thread_ok_def)
  have "socket_inv fd (goto t (WriteCall io data) (if sock_fd s = -1 then Leave (Inr []) else SysCall) s)"
    using socket_invD(1) [OF inv] Test data
    by (intro socket_inv_goto_quiet [OF inv t]) (auto simp: result_ok_def tcp_write_def)
  with act Test show ?thesis by simp
next
  case SysCall
  then have fd: "sock_fd s = fd" and data: "data \<noteq> []"
    using socket_invD(2) [OF inv, of t] t by (simp_all add: thread_ok_def)
  show ?thesis
  proof (cases "send_call io data")
    case (Inl msg)
    have "socket_inv fd (goto t (WriteCall io data) (Leave (Inl (RuntimeError (''Error writing socket: '' @ msg)))) s)"
      using socket_invD(1) [OF inv] assms(4) SysCall fd data Inl
      by (intro socket_inv_goto_quiet [OF inv t]) (auto simp: result_ok_def tcp_write_def split: if_splits)
    with act SysCall Inl show ?thesis by simp
  next
    case (Inr sent)
    have "socket_inv fd (goto t (WriteCall io data) (Leave (Inr (take sent data))) (s\<lparr>wire := wire s @ take sent data\<rparr>))"
      using socket_invD(1) [OF inv] assms(4) SysCall fd data Inr
      by (intro socket_inv_goto [OF inv t]) (auto simp: result_ok_def tcp_write_def split: if_splits)
    with act SysCall Inr show ?thesis by simp
  qed
next
  case (Leave r)
  from socket_inv_finish [OF inv, of t "WriteCall io data" r] t act Leave show ?thesis by simp
qed (use act in simp)

lemma socket_inv_destroy:
  assumes inv: "socket_inv fd s" and t: "active s t = Some (DestroyCall, ph)"
    and act: "destroy_act t ph s = Some s'" and "fd \<noteq> -1"
  shows "socket_inv fd s'"
proof (cases ph)
  case Enter
  with act have "read_owner s = None" "write_owner s = None" by (simp_all split: if_splits)
  with socket_inv_enter [OF inv, of t DestroyCall SysCall] t act Enter show ?thesis by simp
next
  case SysCall
  with t have "active s t = Some (DestroyCall, SysCall)" by simp
  from socket_inv_close [OF inv this assms(4)] act SysCall show ?thesis
    by (simp only: destroy_act.simps option.inject)
next
  case (Leave r)
  from socket_inv_finish [OF inv, of t DestroyCall r] t act Leave show ?thesis by simp
qed (use act in simp_all)

lemma socket_inv_reach: "socket_reach fd s \<Longrightarrow> fd \<noteq> -1 \<Longrightarrow> socket_inv fd s"
proof (induction rule: socket_reach.induct)
  case start
  then show ?case by (rule socket_inv_start)
next
  case (call s t c)
  then show ?case by (simp add: socket_inv_call)
next
  case (act s t s')
  then have inv: "socket_inv fd s" by simp
  from act(2) obtain c ph where t: "active s t = Some (c, ph)"
    by (auto simp: socket_act_def split: option.splits)
  show ?case
  proof (cases c)
    case (ReadCall io n tm)
    with t act(2) socket_inv_read [OF inv _ _ act(4)] show ?thesis by (simp add: socket_act_def)
  next
    case (WriteCall io data)
    with t act(2) socket_inv_write [OF inv _ _ act(4)] show ?thesis by (simp add: socket_act_def)
  next
    case DestroyCall
    with t act(2) socket_inv_destroy [OF inv _ _ act(4)] show ?thesis by (simp add: socket_act_def)
  qed
qed

section \<open>Properties of the shared socket\<close>

text \<open>C18. The mutexes make the calls atomic, whatever threads read, write and destroy at the same time:
  every call returns or throws what the one-step call of the network layer does on the open descriptor, or, after
  the descriptor was closed, on none; the bytes on the wire are those of the finished writes, one
  after the other and never mixed, and those of the write that is about to return; a system call is only
  made on the descriptor before it is closed, by one reader and one writer at most; and it is
  closed at most once.\<close>

theorem socket_calls_atomic:
  assumes "socket_reach fd s" and "fd \<noteq> -1"
  shows "(\<forall>(c, r) \<in> set (returned s).
      r = call_result c fd \<or> closed_fds s = [fd] \<and> r = call_result c (-1)) \<and>
    wire s = concat (map written (returned s)) @ in_flight s \<and>
    (\<forall>t c ph. active s t = Some (c, ph) \<and> ph \<in> {SysCall, Recv} \<and> c \<noteq> DestroyCall \<longrightarrow>
      sock_fd s = fd \<and> closed_fds s = [] \<and>
      (reads c \<longrightarrow> read_owner s = Some t) \<and> (writes c \<longrightarrow> write_owner s = Some t)) \<and>
    closed_fds s \<in> {[], [fd]}"
proof -
  note inv = socket_invD [OF socket_inv_reach [OF assms]]
  have "sock_fd s = fd \<and> closed_fds s = [] \<and>
      (reads c \<longrightarrow> read_owner s = Some t) \<and> (writes c \<longrightarrow> write_owner s = Some t)"
    if "active s t = Some (c, ph)" "ph \<in> {SysCall, Recv}" "c \<noteq> DestroyCall" for t c ph
    using inv(1) inv(2) [of t] that assms(2) by (auto simp: thread_ok_def split: if_splits)
  moreover have "\<forall>(c, r) \<in> set (returned s).
      r = call_result c fd \<or> closed_fds s = [fd] \<and> r = call_result c (-1)"
    using inv(3) by (fastforce simp: result_ok_def)
  moreover have "closed_fds s \<in> {[], [fd]}" using inv(1) by (auto split: if_splits)
  ultimately show ?thesis using inv(4) by blast
qed

fun socket_run :: "shared_socket \<Rightarrow> nat list \<Rightarrow> shared_socket option" where
  "socket_run s [] = Some s"
| "socket_run s (t # ts) = (case socket_act s t of None \<Rightarrow> None | Some s' \<Rightarrow> socket_run s' ts)"

lemma socket_run_reach: "socket_run s ts = Some s' \<Longrightarrow> socket_reach fd s \<Longrightarrow> socket_reach fd s'"
  by (induction ts arbitrary: s) (auto split: option.splits intro: socket_reach.act)

definition sample_io :: io_calls where
  "sample_io = \<lparr>poll_call = (\<lambda>_. (1, POLLIN)), recv_call = (\<lambda>_. Inr ''x''), send_call = (\<lambda>_. Inr 2), io_errno = []\<rparr>"

text \<open>A writer whose text is cut short by \<open>send\<close> and a destructor that comes between its steps.\<close>

theorem socket_calls_atomic_witness:
  "\<exists>s. socket_reach 3 s \<and> wire s = ''ab'' \<and> closed_fds s = [3] \<and>
    returned s = [(WriteCall sample_io ''abc'', Inr ''ab''), (DestroyCall, Inr [])]"
proof -
  let ?s0 = "goto 1 DestroyCall Enter (goto 0 (WriteCall sample_io ''abc'') Enter (new_shared 3))"
  have r0: "socket_reach 3 ?s0"
    by (intro socket_reach.call socket_reach.start) (simp_all add: new_shared_def)
  obtain s where run: "socket_run ?s0 [0, 0, 0, 0, 1, 1, 1] = Some s" and s:
      "closed_fds s = [3]" "write_owner s = None"
      "returned s = [(WriteCall sample_io ''abc'', Inr ''ab''), (DestroyCall, Inr [])]"
    by (simp add: socket_act_def new_shared_def finish_def sample_io_def numeral_2_eq_2)
  from socket_run_reach [OF run r0] have r: "socket_reach 3 s" .
  from socket_calls_atomic [OF r] s have "wire s = ''ab''" by (simp add: in_flight_def)
  with r s show ?thesis by blast
qed

end
