(* ===== verification/ExampleProgram.thy ===== *)
theory ExampleProgram
  imports Connection
begin

text \<open>
  The example program (\<open>example/main.cpp\<close>): a client that logs in, makes one request after the other
  on the main thread while a second thread sends pings, and prints requests and answers. A
  program here is a function on the client's state that returns, throws, or still waits in a call;
  what the other threads and the server do to the dispatcher before and during a call are
  histories, parameters of the program.
\<close>

section \<open>Programs\<close>

datatype 'a run = Returns 'a | Waits | Throws cpp_error

text \<open>
  \<open>asked\<close>: the actions handed to the connection, \<open>shown\<close>: what this thread has written to
  \<^verbatim>\<open>std::cout\<close>.
\<close>

record client_state =
  disp :: dispatcher
  registry :: connection
  asked :: "action list"
  shown :: string

type_synonym 'a prog = "client_state \<Rightarrow> 'a run \<times> client_state"

definition give :: "'a \<Rightarrow> 'a prog" where
  "give x c = (Returns x, c)"

definition andthen :: "'a prog \<Rightarrow> ('a \<Rightarrow> 'b prog) \<Rightarrow> 'b prog" where
  "andthen m k c =
     (case m c of
        (Returns x, c') \<Rightarrow> k x c'
      | (Waits, c') \<Rightarrow> (Waits, c')
      | (Throws err, c') \<Rightarrow> (Throws err, c'))"

definition lift :: "'a result \<Rightarrow> 'a prog" where
  "lift r c = (case r of Inl err \<Rightarrow> (Throws err, c) | Inr x \<Rightarrow> (Returns x, c))"

definition print :: "string \<Rightarrow> unit prog" where
  "print s c = (Returns (), c\<lparr>shown := shown c @ s\<rparr>)"

definition conn_add_callback :: "string \<Rightarrow> nat \<Rightarrow> string prog" where
  "conn_add_callback uuid cb c =
     (let (key, reg) = add_callback (registry c) uuid cb in (Returns key, c\<lparr>registry := reg\<rparr>))"

text \<open>A call of \<open>invoke\<close>: first what happened since the last call, then the call with its history.\<close>

definition conn_invoke ::
    "(string \<Rightarrow> string result) \<Rightarrow> action \<Rightarrow> history \<times> history \<Rightarrow> reaction option prog" where
  "conn_invoke send a others c =
     (let c1 = c\<lparr>asked := asked c @ [a]\<rparr> in
      case rbind (rfold disp_event (disp c) (fst others)) (\<lambda>d. invoke send d a (snd others)) of
        Inl err \<Rightarrow> (Throws err, c1)
      | Inr (d', r) \<Rightarrow>
          ((case r of None \<Rightarrow> Waits | Some (Inl err) \<Rightarrow> Throws err | Some (Inr x) \<Rightarrow> Returns x),
           c1\<lparr>disp := d'\<rparr>))"

definition conn_async_invoke :: "(string \<Rightarrow> string result) \<Rightarrow> action \<Rightarrow> unit prog" where
  "conn_async_invoke send a c =
     (case async_invoke send a of
        Inl err \<Rightarrow> (Throws err, c\<lparr>asked := asked c @ [a]\<rparr>)
      | Inr _ \<Rightarrow> (Returns (), c\<lparr>asked := asked c @ [a]\<rparr>))"

text \<open>Using the pointer \<open>invoke\<close> returned, and the check that it points to an event list.\<close>

definition deref :: "reaction option \<Rightarrow> reaction prog" where
  "deref r = lift (case r of None \<Rightarrow> Inl NullDereference | Some x \<Rightarrow> Inr x)"

definition assert_list :: "reaction option \<Rightarrow> unit prog" where
  "assert_list r = lift (case r of Some (ListReaction l) \<Rightarrow> Inr () | _ \<Rightarrow> Inl AssertFailure)"

definition print_reply :: "action \<Rightarrow> reaction option \<Rightarrow> unit prog" where
  "print_reply a r =
     andthen (print (action_to_string a)) (\<lambda>_.
     andthen (deref r) (\<lambda>x. print (reaction_to_string x)))"

definition ask ::
    "(string \<Rightarrow> string result) \<Rightarrow> action \<Rightarrow> history \<times> history \<Rightarrow> reaction option prog" where
  "ask send a others =
     andthen (conn_invoke send a others) (\<lambda>r. andthen (print_reply a r) (\<lambda>_. give r))"

section \<open>The program\<close>

text \<open>
  \<open>uuid k\<close> is the \<open>k\<close>-th UUID made by the main thread, \<open>others k\<close> what the other threads do
  before and during the call with that action. Callback \<open>0\<close> prints the event it gets, on the
  dispatcher's thread.
\<close>

definition example_login :: "string \<Rightarrow> action result" where
  "example_login uuid =
     rbind (Login ''admin'' ''test'' uuid) (\<lambda>login.
     rbind (index_assign login ''AuthType'' ''plain'') (\<lambda>login.
     index_assign login ''Events'' ''off''))"

definition example_ext_state :: "string \<Rightarrow> action result" where
  "example_ext_state uuid =
     rbind (ExtensionState uuid) (\<lambda>ext_state. index_assign ext_state ''Exten'' ''701@parkedcalls'')"

text \<open>The thread of the pings: for each round the flag it reads, the UUID and the histories.\<close>

fun ping_thread ::
    "(string \<Rightarrow> string result) \<Rightarrow> (bool \<times> string \<times> history \<times> history) list \<Rightarrow> unit prog" where
  "ping_thread send [] = (\<lambda>c. (Waits, c))"
| "ping_thread send ((run, uuid, others) # rounds) =
     (if run then
        andthen (lift (Ping uuid)) (\<lambda>ping.
        andthen (ask send ping others) (\<lambda>_. ping_thread send rounds))
      else give ())"

definition logged_in ::
    "(string \<Rightarrow> string result) \<Rightarrow> (nat \<Rightarrow> string) \<Rightarrow> (nat \<Rightarrow> history \<times> history) \<Rightarrow> unit prog" where
  "logged_in send uuid others =
     andthen (lift (Events (uuid 2))) (\<lambda>events.
     andthen (conn_invoke send events (others 2)) (\<lambda>reaction.
     andthen (lift (index_assign events ''EventMask'' ''off'')) (\<lambda>events.
     andthen (print_reply events reaction) (\<lambda>_.
     andthen (lift (ListCommands (uuid 3))) (\<lambda>list_commands.
     andthen (ask send list_commands (others 3)) (\<lambda>_.
     andthen (conn_async_invoke send list_commands) (\<lambda>_.
     andthen (lift (Parkinglots (uuid 4))) (\<lambda>parking_lots.
     andthen (ask send parking_lots (others 4)) (\<lambda>reaction.
     andthen (lift (example_ext_state (uuid 5))) (\<lambda>ext_state.
     andthen (print_reply ext_state reaction) (\<lambda>_.
     andthen (lift (ParkedCalls (uuid 6))) (\<lambda>parked_calls.
     andthen (ask send parked_calls (others 6)) (\<lambda>_.
     andthen (lift (MailboxStatus ''5558675309'' (uuid 7))) (\<lambda>mailbox_status.
     andthen (ask send mailbox_status (others 7)) (\<lambda>_.
     andthen (lift (MailboxCount ''5558675309'' (uuid 8))) (\<lambda>mailbox_count.
     andthen (ask send mailbox_count (others 8)) (\<lambda>_.
     andthen (lift (VoicemailBoxSummary ''default'' ''5558675309'' (uuid 9))) (\<lambda>vm_summary.
     andthen (conn_invoke send vm_summary (others 9)) (\<lambda>reaction.
     andthen (assert_list reaction) (\<lambda>_.
     andthen (print_reply vm_summary reaction) (\<lambda>_.
     andthen (lift (VoicemailRefresh (uuid 10))) (\<lambda>vm_refresh.
     andthen (ask send vm_refresh (others 10)) (\<lambda>_.
     andthen (lift (DeviceStateList (uuid 11))) (\<lambda>device_state_list.
     andthen (ask send device_state_list (others 11)) (\<lambda>_.
     andthen (lift (Logoff (uuid 12))) (\<lambda>logoff.
     andthen (ask send logoff (others 12)) (\<lambda>_.
     give ())))))))))))))))))))))))))))"

definition example_main ::
    "(string \<Rightarrow> string result) \<Rightarrow> (nat \<Rightarrow> string) \<Rightarrow> (nat \<Rightarrow> history \<times> history) \<Rightarrow> int prog" where
  "example_main send uuid others =
     andthen (conn_add_callback (uuid 0) 0) (\<lambda>_.
     andthen (lift (example_login (uuid 1))) (\<lambda>login.
     andthen (conn_invoke send login (others 1)) (\<lambda>reaction.
     andthen (deref reaction) (\<lambda>r.
     andthen
       (if reaction_is_success r then
          andthen (print_reply login reaction) (\<lambda>_. logged_in send uuid others)
        else print (''Unable to login'' @ [CHR 0x0A])) (\<lambda>_.
     give 0)))))"


section \<open>What the program asks\<close>

lemma andthen_give [simp]: "andthen (give x) k = k x"
  by (simp add: fun_eq_iff andthen_def give_def)

text \<open>The constructors return, so each action is a value.\<close>

lemma lift_action [simp]:
  "lift (construct call uuid) = give (projr (construct call uuid))"
  using construct_shape [of call uuid] by (auto simp: fun_eq_iff lift_def give_def)

lemmas lift_constructors [simp] =
  lift_action [of CEvents, simplified construct.simps] lift_action [of CListCommands, simplified construct.simps]
  lift_action [of CParkinglots, simplified construct.simps] lift_action [of CParkedCalls, simplified construct.simps]
  lift_action [of "CMailboxStatus m" for m, simplified construct.simps]
  lift_action [of "CMailboxCount m" for m, simplified construct.simps]
  lift_action [of "CVoicemailBoxSummary c m" for c m, simplified construct.simps]
  lift_action [of CVoicemailRefresh, simplified construct.simps]
  lift_action [of CDeviceStateList, simplified construct.simps] lift_action [of CLogoff, simplified construct.simps]
  lift_action [of CPing, simplified construct.simps]

lemma constructed_id: "get_action_id (projr (construct call uuid)) = create_uuid uuid"
  using construct_shape [of call uuid] by (auto simp: get_action_id_def)

lemmas constructed_ids [simp] =
  constructed_id [of CEvents, simplified construct.simps] constructed_id [of CListCommands, simplified construct.simps]
  constructed_id [of CParkinglots, simplified construct.simps] constructed_id [of CParkedCalls, simplified construct.simps]
  constructed_id [of "CMailboxStatus m" for m, simplified construct.simps]
  constructed_id [of "CMailboxCount m" for m, simplified construct.simps]
  constructed_id [of "CVoicemailBoxSummary c m" for c m, simplified construct.simps]
  constructed_id [of CVoicemailRefresh, simplified construct.simps]
  constructed_id [of CDeviceStateList, simplified construct.simps] constructed_id [of CLogoff, simplified construct.simps]
  constructed_id [of CPing, simplified construct.simps]

lemma lift_Inr: "lift (Inr x) = give x"
  by (simp add: fun_eq_iff lift_def give_def)

lemmas writing_defs = index_assign_eq set_value_def has_key_def new_action_def get_action_id_def

lemma lift_login [simp]: "lift (example_login uuid) = give (projr (example_login uuid))"
  and login_id [simp]: "get_action_id (projr (example_login uuid)) = create_uuid uuid"
  by (simp_all add: example_login_def Login_def Login0_def writing_defs lift_Inr)

lemma lift_ext_state [simp]: "lift (example_ext_state uuid) = give (projr (example_ext_state uuid))"
  by (simp add: example_ext_state_def ExtensionState_def writing_defs lift_Inr)

lemma lift_event_mask [simp]:
  "lift (index_assign (projr (Events uuid)) ''EventMask'' v) =
   give (projr (index_assign (projr (Events uuid)) ''EventMask'' v))"
  by (simp add: Events_def writing_defs lift_Inr)

text \<open>
  What a program asks: a first part of \<open>as\<close>, and, if \<open>complete\<close>, all of \<open>as\<close> when it returns.
\<close>

definition asks :: "bool \<Rightarrow> 'a prog \<Rightarrow> action list \<Rightarrow> bool" where
  "asks complete m as \<longleftrightarrow> (\<forall>c. \<exists>bs. prefix bs as \<and> asked (snd (m c)) = asked c @ bs \<and>
     (complete \<longrightarrow> (\<forall>x. fst (m c) = Returns x \<longrightarrow> bs = as)))"

lemma asks_andthen:
  assumes "asks True m as" and "\<And>x. asks complete (k x) bs"
  shows "asks complete (andthen m k) (as @ bs)"
  unfolding asks_def
proof
  fix c
  obtain r c' where m: "m c = (r, c')" by fastforce
  with assms(1) obtain as' where as': "prefix as' as" "asked c' = asked c @ as'"
      "\<forall>x. r = Returns x \<longrightarrow> as' = as" by (auto simp: asks_def) (metis fst_conv snd_conv)
  show "\<exists>cs. prefix cs (as @ bs) \<and> asked (snd (andthen m k c)) = asked c @ cs \<and>
      (complete \<longrightarrow> (\<forall>x. fst (andthen m k c) = Returns x \<longrightarrow> cs = as @ bs))"
  proof (cases r)
    case (Returns x)
    from assms(2) [of x] obtain bs' where bs': "prefix bs' bs" "asked (snd (k x c')) = asked c' @ bs'"
      "complete \<longrightarrow> (\<forall>y. fst (k x c') = Returns y \<longrightarrow> bs' = bs)" by (auto simp: asks_def)
    with as' Returns m show ?thesis by (intro exI [of _ "as @ bs'"]) (simp add: andthen_def)
  qed (use as' m in \<open>auto simp: andthen_def intro!: exI [of _ as']\<close>)
qed

lemma asks_less: "asks True m as \<Longrightarrow> asks False m (as @ bs)"
  unfolding asks_def by (blast intro: prefix_prefix)

lemma asks_nothing: "(\<And>c. asked (snd (m c)) = asked c) \<Longrightarrow> asks True m []"
  by (auto simp: asks_def)

lemma asks_one: "(\<And>c. asked (snd (m c)) = asked c @ [a]) \<Longrightarrow> asks True m [a]"
  by (auto simp: asks_def)

lemma asks_prim:
  "asks True (give x) []" "asks True (print s) []" "asks True (deref y) []"
  "asks True (assert_list y) []" "asks True (conn_add_callback uuid cb) []"
  by (rule asks_nothing, auto simp: give_def lift_def print_def deref_def assert_list_def
      conn_add_callback_def split_beta Let_def split: sum.split option.split reaction.split)+

lemma asks_conn:
  "asks True (conn_invoke send a others) [a]" "asks True (conn_async_invoke send a) [a]"
  by (rule asks_one, auto simp: conn_invoke_def conn_async_invoke_def Let_def split: sum.split option.split)+

lemma asks_print_reply: "asks True (print_reply a r) []"
  using asks_andthen [OF asks_prim(2) asks_andthen [OF asks_prim(3) asks_prim(2)]]
  by (simp add: print_reply_def)

lemma asks_ask: "asks True (ask send a others) [a]"
  using asks_andthen [OF asks_conn(1) asks_andthen [OF asks_print_reply asks_prim(1)]]
  by (simp add: ask_def)

lemmas asks_then =
  asks_andthen [OF asks_print_reply, simplified append_Nil] asks_andthen [OF asks_prim(3), simplified append_Nil]
  asks_andthen [OF asks_prim(4), simplified append_Nil] asks_andthen [OF asks_prim(5), simplified append_Nil]
  asks_andthen [OF asks_conn(1), simplified append_Cons append_Nil]
  asks_andthen [OF asks_conn(2), simplified append_Cons append_Nil]
  asks_andthen [OF asks_ask, simplified append_Cons append_Nil]

text \<open>The requests of the program, in order; the extension state is not among them.\<close>

definition session_actions :: "(nat \<Rightarrow> string) \<Rightarrow> action list" where
  "session_actions uuid = map projr
     [Events (uuid 2), ListCommands (uuid 3), ListCommands (uuid 3), Parkinglots (uuid 4),
      ParkedCalls (uuid 6), MailboxStatus ''5558675309'' (uuid 7), MailboxCount ''5558675309'' (uuid 8),
      VoicemailBoxSummary ''default'' ''5558675309'' (uuid 9), VoicemailRefresh (uuid 10),
      DeviceStateList (uuid 11), Logoff (uuid 12)]"

lemma logged_in_asks: "asks True (logged_in send uuid others) (session_actions uuid)"
  unfolding logged_in_def session_actions_def list.map
  by (simp only: lift_constructors lift_event_mask lift_ext_state andthen_give) (intro asks_then asks_prim(1))

lemma main_asks:
  "asks False (example_main send uuid others) (projr (example_login (uuid 1)) # session_actions uuid)"
proof -
  have branch: "asks False (andthen (if reaction_is_success r
      then andthen (print_reply login reaction) (\<lambda>_. logged_in send uuid others)
      else print msg) (\<lambda>_. give (0 :: int))) (session_actions uuid)" for r login reaction msg
  proof (cases "reaction_is_success r")
    case True
    have "asks True (andthen (andthen (print_reply login reaction) (\<lambda>_. logged_in send uuid others))
        (\<lambda>_. give (0 :: int))) (session_actions uuid @ [])"
      by (intro asks_andthen asks_then(1) logged_in_asks asks_prim(1))
    from asks_less [OF this, of "[]"] True show ?thesis by simp
  next
    case False
    have "asks True (andthen (print msg) (\<lambda>_. give (0 :: int))) ([] @ [])"
      by (rule asks_andthen [OF asks_prim(2) asks_prim(1)])
    from asks_less [OF this, of "session_actions uuid"] False show ?thesis by simp
  qed
  show ?thesis
    unfolding example_main_def lift_login andthen_give by (intro asks_then(2,4,5) branch)
qed

lemma ping_thread_asks:
  "asks True (ping_thread send rounds) (map (\<lambda>(_, u, _). projr (Ping u)) (takeWhile fst rounds))"
proof (induction send rounds rule: ping_thread.induct)
  case (1 send)
  show ?case by (simp add: asks_def)
next
  case (2 send run uuid others rounds)
  then show ?case by (auto intro!: asks_then asks_prim(1))
qed

text \<open>Whatever the server and the other threads do, the example program asks a first part of the same
  twelve requests in the same order: the login, with its two assigned values, and then the
  session; a failed login, an exception or a call that still waits ends the list, and nothing else is
  ever asked. The extension state is constructed and printed, but it is never asked for. The second
  thread asks one new ping in each round until it finds the flag cleared.\<close>

theorem example_requests:
  "(\<exists>as. prefix as (projr (example_login (uuid 1)) # session_actions uuid) \<and>
      asked (snd (example_main send uuid others c)) = asked c @ as) \<and>
   (\<exists>as. prefix as (map (\<lambda>(_, u, _). projr (Ping u)) (takeWhile fst rounds)) \<and>
      asked (snd (ping_thread send rounds c)) = asked c @ as)"
  using main_asks [of send uuid others] ping_thread_asks [of send rounds]
  by (auto simp: asks_def)

section \<open>What the program gets\<close>



















definition transcript :: "(action result \<times> reaction) list \<Rightarrow> string" where
  "transcript ps = concat (map (\<lambda>(a, r). action_to_string (projr a) @ reaction_to_string r) ps)"

lemma transcript_simps [simp]:
  "transcript [] = []"
  "transcript ((a, r) # ps) = action_to_string (projr a) @ reaction_to_string r @ transcript ps"
  by (simp_all add: transcript_def)




section \<open>A session that succeeds\<close>












end
