(* ===== verification/UnitTests.thy ===== *)
theory UnitTests
  imports ScopeGuard KeyValDict
begin

text \<open>
  The unit tests of the repository (\<open>tests/src/*.cpp\<close>) on the model. The state around a guard is the
  flag \<open>test_cond\<close>; each test is the conjunction of its checks.
\<close>

definition exit_scope_test :: bool where
  "exit_scope_test \<longleftrightarrow>
     (let guard = new_guard (\<lambda>test_cond. False); test_cond = leave_scope [guard] True
      in test_cond = False)"

definition in_scope_test :: bool where
  "in_scope_test \<longleftrightarrow>
     (let test_cond = True; guard = new_guard (\<lambda>test_cond :: bool. False) in test_cond = True)"

definition move_test :: bool where
  "move_test \<longleftrightarrow>
     (let guard = new_guard (\<lambda>test_cond. False);
          (g, guard) = move_construct guard;
          test_cond = leave_scope [guard] True;
          test_cond' = destroy g test_cond
      in test_cond = True \<and> test_cond' = False)"

definition message_parse_test :: bool where
  "message_parse_test \<longleftrightarrow>
     (let msg = ''a: b'' @ EOR @ ''c: d'' @ EOR @ ''e: f'' @ EOR @ EOR
      in case kvd_of_string msg of Inl err \<Rightarrow> False | Inr ami_msg \<Rightarrow> msg = to_string ami_msg)"

lemma guard_tests_pass: "exit_scope_test" "in_scope_test" "move_test"
  by (simp_all add: exit_scope_test_def in_scope_test_def move_test_def leave_scope_def new_guard_def
      destroy_def move_construct_def move_assign_def)

lemma message_parse_test_passes: "message_parse_test"
proof -
  let ?rs = "[(''a'', ''b''), (''c'', ''d''), (''e'', ''f'')]"
  have msg: "''a: b'' @ EOR @ ''c: d'' @ EOR @ ''e: f'' @ EOR @ EOR = print_records ?rs"
    by (simp add: print_records_def SEP_def)
  have "records_of (print_records ?rs) = Some ?rs"
    by (rule records_of_print) (simp add: clean_record_def SEP_def EOR_def sublist_Cons_right)
  moreover have "fits (print_records ?rs)"
    by (simp add: fits_def max_size_def print_records_def SEP_def EOR_def)
  ultimately have "kvd_of_string (print_records ?rs) = Inr (dict_of (kvd_of_keys []) ?rs)"
    by (simp add: kvd_of_string_def set_message_eq)
  moreover have "to_string (dict_of (kvd_of_keys []) ?rs) = print_records ?rs"
    by (simp add: to_string_rendered rendered_def dict_of_def)
  ultimately show ?thesis unfolding message_parse_test_def msg by simp
qed

end
