(* ===== verification/Spec2Isabelle.thy ===== *)
theory Spec2Isabelle
  imports Requests Shutdown Callbacks Locks SharedSocket ExampleProgram UnitTests
begin

text \<open>
  A verification development for \<^verbatim>\<open>cppami\<close>, a C++ client library for the Asterisk Manager
  Interface (AMI).

  \<^bold>\<open>The program.\<close> AMI is a line protocol over TCP. A message is a sequence of records
  \<^verbatim>\<open>Key: value CR LF\<close> that ends with an empty line; the server begins with a greeting line.
  A \<^verbatim>\<open>Connection\<close> owns a socket and three threads: the reader passes chunks of bytes to the
  \<^verbatim>\<open>StreamParser\<close>, whose thread cuts them into messages and passes these to the
  \<^verbatim>\<open>EventDispatcher\<close>, whose thread reads each into a dictionary. A message that carries the
  action ID of a request in flight is (part of) the answer to it and goes to the caller of
  \<^verbatim>\<open>invoke\<close> over a promise and a future; every other message goes to the client's callbacks.
  A request is an \<^verbatim>\<open>Action\<close>, a dictionary with a name and a fresh UUID as its ID.

  \<^bold>\<open>The theories\<close>, in the order of their imports; paths are below \<^verbatim>\<open>src/\<close>, and headers are in
  \<^verbatim>\<open>include/c++ami/\<close> under the same names.

  \<^item> \<open>Prelude\<close>: errors as values (\<open>cpp_error\<close>, \<open>'a result\<close>), sizes of 64 bits, collections of facts.
  \<^item> \<open>CppString\<close>: \<^verbatim>\<open>std::string\<close>'s \<open>find\<close>, \<open>substr\<close>, \<open>erase\<close>; the locale \<open>delimiter\<close>, what a
    separator must satisfy for a search to stop where the text in front of it ends.
  \<^item> \<open>AmiDefs\<close> (\<^verbatim>\<open>CppAmiDefs.h\<close>): \<open>EOM\<close>, \<open>EOR\<close>, \<open>SEP\<close>, and that \<open>EOR\<close> and \<open>SEP\<close> are delimiters.
  \<^item> \<open>KeyValDict\<close> (\<^verbatim>\<open>src/util/KeyValDict.cpp\<close>): the record \<open>kvd\<close> and every operation; the
    specification \<open>records_of\<close> of reading, \<open>print_records\<close> of writing; the locale \<open>keyed_store\<close> of
    the two ways to write a value.
  \<^item> \<open>Actions\<close> (\<^verbatim>\<open>src/action/*.cpp\<close>): the base class and the constructors of the fifteen subclasses.
  \<^item> \<open>Reactions\<close> (\<^verbatim>\<open>src/event/Event.cpp\<close>, \<^verbatim>\<open>src/reaction/*.cpp\<close>): events, event lists, reactions.
  \<^item> \<open>Worker\<close>: the work thread that \<^verbatim>\<open>StreamParser\<close> and \<^verbatim>\<open>EventDispatcher\<close> have in the same form
    (\<^verbatim>\<open>start_work_thread\<close>, \<^verbatim>\<open>stop_work_thread\<close>, \<^verbatim>\<open>work_thread\<close> and the function that adds to the
    queue), as a step relation \<open>wstep\<close> with one step per observable action; the locale
    \<open>queue_processor\<close> of what an object must show about one item to have it in every interleaving.
  \<^item> \<open>StreamParser\<close> (\<^verbatim>\<open>src/StreamParser.cpp\<close>): \<open>process_chunk\<close> in the three parts of the code; the
    specification \<open>split_messages\<close>, which cuts a whole text.
  \<^item> \<open>HashMap\<close>: \<^verbatim>\<open>std::unordered_map\<close> as the code uses it, with the locale \<open>lookup_table\<close>.
  \<^item> \<open>PipeService\<close>: the locale of what \<^verbatim>\<open>Connection::invoke\<close> relies on in the dispatcher.
  \<^item> \<open>EventDispatcher\<close> (\<^verbatim>\<open>src/EventDispatcher.cpp\<close>): all operations; the specification is one
    \<open>session\<close> per action ID (\<open>hub\<close>), with the invariant \<open>disp_inv\<close> and the abstraction \<open>hub_of\<close>;
    \<open>answer\<close> and \<open>verdict\<close> say what one waiter gets. \<open>DispatcherProperties\<close> states the properties.
  \<^item> \<open>ScopeGuard\<close> and \<open>Net\<close> (\<^verbatim>\<open>src/util/ScopeGuard.cpp\<close>, \<^verbatim>\<open>src/net/*.cpp\<close>): guards as effects on
    the state around them; opening, reading and writing the socket with its resources.
  \<^item> \<open>SocketReader\<close> (\<^verbatim>\<open>src/net/SocketReader.cpp\<close>): the reader's thread step by step, its start and
    its stop, and that the steps make the loop of \<open>Net\<close>.
  \<^item> \<open>Connection\<close> (\<^verbatim>\<open>src/Connection.cpp\<close>): callbacks, \<open>invoke\<close> with and without a timeout.
  \<^item> \<open>Callbacks\<close>: the loop over the callbacks under its mutex (\<^verbatim>\<open>dispatch_handler\<close>), taken apart so that
    a callback can call back; the one-step model of \<open>Connection\<close> is its abstraction (\<open>finished\<close>).
  \<^item> \<open>Pipeline\<close>: the wiring of the constructor (\<open>connect\<close>, with the socket) and the order of the
    destructor, as a step relation \<open>sys_step\<close> over the two work threads, the reader's thread, the
    descriptor and the client.
  \<^item> \<open>Progress\<close> and \<open>Requests\<close>: that the work threads by themselves process all that was received, and
    a caller in the system: its history, its future, and that \<open>invoke\<close> of \<open>Connection\<close> is what happens.
  \<^item> \<open>Shutdown\<close>: the runs of the destructor with the threads (\<open>destroy_step\<close>), the order by which
    they are finite (\<open>destructor_order\<close>), and the states in which no step is left (\<open>at_rest\<close>).
  \<^item> \<open>SharedSocket\<close> (\<^verbatim>\<open>src/net/TcpSocket.cpp\<close>): the calls on the socket taken apart at the two mutexes,
    the test of the descriptor and the system calls, for any number of threads; the one-step calls of
    \<open>Net\<close> are their abstraction. \<open>Locks\<close>: every function reduced to the mutexes it takes, and all
    threads of a program with a connection made of them.
  \<^item> \<open>ExampleProgram\<close> (\<^verbatim>\<open>example/main.cpp\<close>): the client of the repository, as a program over \<open>invoke\<close>
    that returns, throws or waits. \<open>UnitTests\<close> (\<^verbatim>\<open>tests/src/*.cpp\<close>): the tests, on the model.

  \<^bold>\<open>What is shown.\<close> The parser implements \<open>split_messages\<close> whatever the chunks; reading and
  writing messages is cutting and joining records; a request is one message and reads back as what
  was set; the dispatcher implements the sessions, never throws on what the parser hands it, settles
  each promise at most once and gives each caller exactly the answer made by the messages with its
  ID; \<open>invoke\<close> with a timeout always returns; the threads process their queues in order in every
  interleaving, and the whole system does what the specification does on the byte stream, up to its
  last message when it is shut down in order; from end to end a caller's future holds the answer in
  the stream of the socket to its own request, and gets there by the steps of the work threads alone;
  the model of \<open>invoke\<close>, with and without a timeout, is what the system does; the mutexes of the socket
  make its calls atomic, and no interleaving of the threads blocks for ever on the seven mutexes,
  unless a callback registers or removes callbacks; the reader always ends when it is told to; no run of
  the destructor is endless, and it can only be stuck by an exception of the reader or a lost wake-up, which
  happens, and happens only in one race; dictionaries,
  reactions and the dispatcher's promises stay well-formed; the example program gets the answers to
  all its requests from a server that answers. Other properties state where the code falls short: a
  greeting split over two reads, keys that are repeated, values with line ends, a lost wake-up at
  the end of a thread, a pipe left behind by a failed write, a hang-up that is not noticed, a
  callback that registers another and stops the program's callbacks for good.

  \<^bold>\<open>Bounds.\<close> \<open>fits\<close> says that a text is not longer than \<^verbatim>\<open>std::string::max_size\<close>, \<open>2^63 - 1\<close>, as
  every string of the program is; then no position is \<open>npos\<close>, and additions of positions do not
  wrap except the one of the code that adds 2 to \<open>npos\<close>, which is written with the wrap-around. All
  loops are total functions, with measures on the text that is left; nothing has fuel. The numbers of
  threads, of lock operations and of calls on the socket are not bounded.

  \<^bold>\<open>Assumptions.\<close> Assertions are compiled in, as in the build files, except where a definition takes
  a flag. A moved-from string is empty, as it is in the standard libraries in use. Allocation does
  not fail. Code outside the repository is a parameter: the text \<^verbatim>\<open>libuuid\<close> writes, the results of
  the resolver and of the system calls. A step of a thread is atomic where the code holds a mutex
  for it or touches only its own data.

  \<^bold>\<open>Not modelled.\<close> Names of threads; the locale-independent formatting of \<^verbatim>\<open>fmt\<close> beyond joining
  strings; \<^verbatim>\<open>setsockopt\<close>, whose result the code ignores; the order in which the dispatcher's thread and the main
  thread of the example write to the console; the build files.
\<close>

section \<open>The system as a whole\<close>


definition sample_chunk :: string where
  "sample_chunk = ''Asterisk'' @ EOR @ reply ''7''"

definition sample_run :: "sys_label list" where
  "sample_run =
     [ReaderTest, Received (Inr sample_chunk), StopReader, Chunk sample_chunk, ReaderTest,
      ReaderJoined, WriterGone, StopParser, ParserRun, ParserRun, ParserRun, HandOver,
      ParserRun, StopParser, StopParser, StopDispatcher, DispatcherRun, DispatcherRun,
      DispatcherRun, DispatcherRun, StopDispatcher, StopDispatcher]"

lemma sample_chunk_parsed: "parse_item (new_parser, []) sample_chunk =
    (\<lparr>first_event = False, event_buf = []\<rparr>, [SetVersion ''Asterisk'', Dispatch (reply ''7'')])"
proof -
  have "concat [sample_chunk] = ''Asterisk'' @ EOR @ concat [reply ''7''] @ []"
    by (simp add: sample_chunk_def)
  moreover have "\<not> sublist EOR ''Asterisk''" "sublist EOR sample_chunk" by code_simp+
  moreover have "\<forall>m \<in> set [reply ''7'']. is_message m" by code_simp
  moreover have "find_sub EOM [] = None" by (simp add: EOM_def)
  ultimately have "parsed [sample_chunk] =
      (\<lparr>first_event = False, event_buf = []\<rparr>, SetVersion ''Asterisk'' # map Dispatch [reply ''7''])"
    by (rule parsed_messages)
  moreover have "fits (concat [sample_chunk])"
    by (simp add: fits_def max_size_def sample_chunk_def reply_def print_records_def EOR_def SEP_def)
  ultimately show ?thesis using parsed_run [of "[sample_chunk]"] by simp
qed


lemma parser_start_new: "parser_start = start_worker (new_parser, [])"
  by (simp add: parser_start_def new_parser_def)

lemma sample_chunk_nonempty: "sample_chunk \<noteq> []"
  by (simp add: sample_chunk_def)

lemmas thread_steps = start_worker_def add_buf_def add_item_def notify_one_def parser_stop_def
  stop_act_def parser_work_thread_def work_act_def enqueue_event_def dispatcher_stop_def
  dispatcher_work_thread_def dispatcher_start_def new_calls_def log_of_def



lemma sample_chunks_run: "chunks sample_run = [sample_chunk]" "pipe_ops sample_run = []"
  "received_text sample_run = sample_chunk"
  by (simp_all add: sample_run_def)

lemma sample_run_fits: "fits (received_text sample_run)"
  by (simp add: sample_chunks_run fits_def max_size_def sample_chunk_def reply_def print_records_def
      EOR_def SEP_def)




section \<open>A request from its sending to its answer\<close>

text \<open>C2. From end to end: a caller that opens a pipe under a fresh action ID, before the server has sent
  anything with that ID, gets the answer made by the messages with its ID in what the socket
  gives, in every interleaving of all threads, whatever the chunks, whatever other callers do,
  and whatever else the server sends: its future, numbered by the pipes opened before it, holds
  the answer as soon as the dispatcher has come to the end of it, and nothing else at any time. Once the connection is
  shut down it is the answer that all the messages received make, if they make one.\<close>

theorem request_answered:
  assumes "sys_reach fd (early @ PipeOp (OpenPipe a) # tr) s"
    and "fits (received_text (early @ PipeOp (OpenPipe a) # tr))"
    and "OpenPipe a \<notin> set (pipe_ops early)"
    and "\<forall>op \<in> set (pipe_ops tr). \<not> closes a (Inr op)"
    and "\<forall>m \<in> set (messages_in (snd (parsed (chunks early)))).
      get_value (message_of m) ''ActionID'' \<noteq> Some a"
  shows "\<exists>d ms rest. obj (dispatch_thread s) = Inr d \<and>
    messages_in (snd (parsed (chunks (early @ tr)))) = ms @ rest \<and>
    (stopper (dispatch_thread s) = Joined \<longrightarrow> rest = []) \<and>
    future_get d (opens (pipe_ops early)) = map_option (\<lambda>r. Inr (Some r))
      (answer (filter (\<lambda>e. get_value e ''ActionID'' = Some a) (map message_of ms)))"
proof -
  from assms(1) have r: "sys_reach fd ((early @ [PipeOp (OpenPipe a)]) @ tr) s" by simp
  from request_outcome [OF assms] obtain d ms rest where
    d: "obj (dispatch_thread s) = Inr d"
      "messages_in (snd (parsed (chunks (early @ tr)))) = ms @ pending (dispatch_thread s) @ outbox s @ rest"
      "pending (parse_thread s) = [] \<longrightarrow> rest = []"
      "future_get d (opens (pipe_ops early)) = map_option (\<lambda>r. Inr (Some r))
        (answer (filter (\<lambda>e. get_value e ''ActionID'' = Some a) (map message_of ms)))" by blast
  have "stopper (dispatch_thread s) = Joined \<longrightarrow> pending (dispatch_thread s) @ outbox s @ rest = []"
    using all_joined [OF r] d(3) by blast
  with d show ?thesis by blast
qed

lemma sample_chunk_messages:
  "messages_in (snd (parsed [sample_chunk])) = [reply ''7'']"
proof -
  have "parsed [sample_chunk] = parse_item (new_parser, []) sample_chunk"
    using parsed_run [of "[sample_chunk]"] sample_run_fits by (simp add: sample_chunks_run)
  then show ?thesis unfolding sample_chunk_parsed by simp
qed

definition sample_request :: "sys_label list" where
  "sample_request = PipeOp (OpenPipe ''7'') # sample_run"

lemma sample_request_joined:
  "\<exists>s. sys_run (new_system 3) sample_request = Some s \<and> stopper (dispatch_thread s) = Joined"
proof -
  obtain r where "dispatch_item (pipe_op_item (Inr new_dispatcher) (OpenPipe ''7'')) (reply ''7'') = r"
    by blast
  then show ?thesis
    by (simp add: sample_request_def sample_run_def new_system_def start_reader_def reader_steps
        parser_start_new sample_chunk_nonempty sample_chunk_parsed thread_steps)
qed

theorem request_answered_witness:
  "\<exists>s d. sys_reach 3 sample_request s \<and> obj (dispatch_thread s) = Inr d \<and>
    future_get d 0 = Some (Inr (Some (EventReaction (message_of (reply ''7'')))))"
proof -
  from sample_request_joined obtain s where
    s: "sys_run (new_system 3) sample_request = Some s" "stopper (dispatch_thread s) = Joined" by blast
  from sys_run_reach [OF s(1) sys_reach.start] have reach: "sys_reach 3 sample_request s" by simp
  then have h1: "sys_reach 3 ([] @ PipeOp (OpenPipe ''7'') # sample_run) s"
    by (simp add: sample_request_def)
  have h2: "fits (received_text ([] @ PipeOp (OpenPipe ''7'') # sample_run))"
    using sample_run_fits by simp
  have h4: "\<forall>op \<in> set (pipe_ops sample_run). \<not> closes ''7'' (Inr op)"
    by (simp add: sample_chunks_run)
  have h3: "OpenPipe ''7'' \<notin> set (pipe_ops [])"
    and h5: "\<forall>m \<in> set (messages_in (snd (parsed (chunks [])))).
      get_value (message_of m) ''ActionID'' \<noteq> Some ''7''" by simp_all
  have "messages_in (snd (parsed (chunks ([] @ sample_run)))) = [reply ''7'']"
    unfolding append_Nil sample_chunks_run(1) by (rule sample_chunk_messages)
  with request_answered [OF h1 h2 h3 h4 h5] s(2) reach show ?thesis
    by (auto simp: reply_facts)
qed

text \<open>C3. The answer does arrive. If what has been received holds a whole answer, then from every
  state in which the two work threads have not been told to stop, their own steps alone, without
  further input and without a wake-up that nobody sent, lead to a state in which the caller's
  future holds it.\<close>

theorem answer_arrives:
  assumes "sys_reach fd (early @ PipeOp (OpenPipe a) # tr) s"
    and "fits (received_text (early @ PipeOp (OpenPipe a) # tr))"
    and "OpenPipe a \<notin> set (pipe_ops early)"
    and "\<forall>op \<in> set (pipe_ops tr). \<not> closes a (Inr op)"
    and "\<forall>m \<in> set (messages_in (snd (parsed (chunks early)))).
      get_value (message_of m) ''ActionID'' \<noteq> Some a"
    and "stopper (parse_thread s) = Running" and "stopper (dispatch_thread s) = Running"
    and "answer (filter (\<lambda>e. get_value e ''ActionID'' = Some a)
      (map message_of (messages_in (snd (parsed (chunks (early @ tr))))))) = Some r"
  shows "\<exists>ls s' d. proceeds s ls s' \<and> obj (dispatch_thread s') = Inr d \<and>
    future_get d (opens (pipe_ops early)) = Some (Inr (Some r))"
proof -
  from all_processed [OF reached_live [OF assms(1,6,7)]] obtain ls s' where
    s': "proceeds s ls s'" "pending (parse_thread s') = []" "outbox s' = []"
      "pending (dispatch_thread s') = []" by blast
  from s'(1) have quiet: "chunks ls = []" "pipe_ops ls = []" "received_text ls = []"
    using own_steps_quiet [of ls] by (simp_all add: proceeds_def)
  from proceeds_reach [OF s'(1) assms(1)]
  have "sys_reach fd (early @ PipeOp (OpenPipe a) # tr @ ls) s'" by simp
  moreover have "fits (received_text (early @ PipeOp (OpenPipe a) # tr @ ls))"
    using assms(2) quiet by simp
  moreover have "\<forall>op \<in> set (pipe_ops (tr @ ls)). \<not> closes a (Inr op)"
    using assms(4) quiet by simp
  ultimately obtain d where d: "obj (dispatch_thread s') = Inr d"
      "future_get d (opens (pipe_ops early)) = map_option (\<lambda>r. Inr (Some r))
        (answer (filter (\<lambda>e. get_value e ''ActionID'' = Some a)
          (map message_of (messages_in (snd (parsed (chunks (early @ tr @ ls))))))))"
    using request_outcome [OF _ _ assms(3) _ assms(5)] s'(2-4) by (metis append_Nil2)
  have "chunks (early @ tr @ ls) = chunks (early @ tr)" using quiet by simp
  with d assms(8) s'(1) show ?thesis by (metis option.simps(9))
qed

definition sample_wait :: "sys_label list" where
  "sample_wait = [ReaderTest, Received (Inr sample_chunk), Chunk sample_chunk]"

lemma sample_wait_running:
  "\<exists>s. sys_run (new_system 3) (PipeOp (OpenPipe ''7'') # sample_wait) = Some s \<and>
    stopper (parse_thread s) = Running \<and> stopper (dispatch_thread s) = Running"
  by (simp add: sample_wait_def new_system_def start_reader_def reader_steps parser_start_new
      sample_chunk_nonempty thread_steps)

theorem answer_arrives_witness:
  "\<exists>s ls s' d. sys_reach 3 (PipeOp (OpenPipe ''7'') # sample_wait) s \<and> proceeds s ls s' \<and>
    obj (dispatch_thread s') = Inr d \<and>
    future_get d 0 = Some (Inr (Some (EventReaction (message_of (reply ''7'')))))"
proof -
  from sample_wait_running obtain s where
    s: "sys_run (new_system 3) (PipeOp (OpenPipe ''7'') # sample_wait) = Some s"
      "stopper (parse_thread s) = Running" "stopper (dispatch_thread s) = Running" by blast
  from sys_run_reach [OF s(1) sys_reach.start]
  have reach: "sys_reach 3 (PipeOp (OpenPipe ''7'') # sample_wait) s" by simp
  then have h1: "sys_reach 3 ([] @ PipeOp (OpenPipe ''7'') # sample_wait) s" by simp
  have h2: "fits (received_text ([] @ PipeOp (OpenPipe ''7'') # sample_wait))"
    using sample_run_fits by (simp add: sample_wait_def sample_chunks_run)
  have h3: "OpenPipe ''7'' \<notin> set (pipe_ops [])"
    and h4: "\<forall>op \<in> set (pipe_ops sample_wait). \<not> closes ''7'' (Inr op)"
    and h5: "\<forall>m \<in> set (messages_in (snd (parsed (chunks [])))).
      get_value (message_of m) ''ActionID'' \<noteq> Some ''7''" by (simp_all add: sample_wait_def)
  have "chunks ([] @ sample_wait) = [sample_chunk]" by (simp add: sample_wait_def)
  then have h8: "answer (filter (\<lambda>e. get_value e ''ActionID'' = Some ''7'')
      (map message_of (messages_in (snd (parsed (chunks ([] @ sample_wait))))))) =
      Some (EventReaction (message_of (reply ''7'')))"
    by (simp only: sample_chunk_messages) (simp add: reply_facts)
  from answer_arrives [OF h1 h2 h3 h4 h5 s(2,3) h8] reach show ?thesis by auto
qed

text \<open>C5. The one-step model of \<open>invoke\<close> is what the system does. In every interleaving, a call that opens its
  pipe under a fresh ID and sends its request finds the dispatcher in a reachable state, and what the model says
  of the history from then on is the state of the dispatcher and the result of the future, where the history is made
  of the operations of the others and the next messages of the stream.\<close>

theorem system_runs_invoke:
  assumes "sys_reach fd (early @ PipeOp (OpenPipe (get_action_id a)) # tr) s"
    and "fits (received_text (early @ PipeOp (OpenPipe (get_action_id a)) # tr))"
    and "OpenPipe (get_action_id a) \<notin> set (pipe_ops early)"
    and "send (action_to_string a) = Inr sent"
  shows "\<exists>before d0 during d rest. reachable before d0 \<and> obj (dispatch_thread s) = Inr d \<and>
    operations before = pipe_ops early \<and> operations during = pipe_ops tr \<and>
    messages_in (snd (parsed (chunks (early @ tr)))) = items before @ items during @ rest \<and>
    invoke send d0 a during = Inr (d, future_get d (opens (pipe_ops early)))"
proof -
  from request_history [OF assms(1,2)] obtain before during d rest where
    h: "obj (dispatch_thread s) = Inr d" "reachable (before @ Inr (OpenPipe (get_action_id a)) # during) d"
      "operations before = pipe_ops early" "operations during = pipe_ops tr"
      "messages_in (snd (parsed (chunks (early @ tr)))) =
        items before @ items during @ pending (dispatch_thread s) @ outbox s @ rest" by blast
  from assms(3) h(3) have "OpenPipe (get_action_id a) \<notin> set (operations before)" by simp
  from opened_invoke [where send = send and a = a, OF h(2) this assms(4)] h(1,3-5) show ?thesis by auto
qed

theorem system_runs_invoke_witness:
  "\<exists>s d0 during d. sys_reach 3 sample_request s \<and> obj (dispatch_thread s) = Inr d \<and>
    operations during = [] \<and> invoke Inr d0 ping during = Inr (d, future_get d 0)"
proof -
  from sample_request_joined obtain s where
    s: "sys_run (new_system 3) sample_request = Some s" by blast
  from sys_run_reach [OF s sys_reach.start] have reach: "sys_reach 3 sample_request s" by simp
  then have h1: "sys_reach 3 ([] @ PipeOp (OpenPipe (get_action_id ping)) # sample_run) s"
    by (simp add: sample_request_def)
  have h2: "fits (received_text ([] @ PipeOp (OpenPipe (get_action_id ping)) # sample_run))"
    using sample_run_fits by simp
  have h3: "OpenPipe (get_action_id ping) \<notin> set (pipe_ops [])"
    and h4: "(Inr :: string \<Rightarrow> string result) (action_to_string ping) = Inr (action_to_string ping)" by simp_all
  from system_runs_invoke [where send = Inr and a = ping, OF h1 h2 h3 h4] obtain before d0 during d where
    "obj (dispatch_thread s) = Inr d" "operations during = pipe_ops sample_run"
      "invoke Inr d0 ping during = Inr (d, future_get d (opens (pipe_ops [])))" by blast
  with reach show ?thesis by (auto simp: sample_chunks_run)
qed

text \<open>C4. In the system a call with a timeout returns, too: once its pipe has been closed by the timeout, its
  future holds for good what the model of \<open>invoke\<close> with a timeout returns, the answer of the messages processed
  before the closing if they made one, and the timeout exception otherwise.\<close>

theorem timed_request_returns:
  assumes "sys_reach fd (early @ PipeOp (OpenPipe (get_action_id a)) # tr @
      PipeOp (FailPipe (get_action_id a) (timeout_error a)) # late) s"
    and "fits (received_text (early @ PipeOp (OpenPipe (get_action_id a)) # tr @
      PipeOp (FailPipe (get_action_id a) (timeout_error a)) # late))"
    and "OpenPipe (get_action_id a) \<notin> set (pipe_ops early)"
    and "\<forall>op \<in> set (pipe_ops tr). \<not> closes (get_action_id a) (Inr op)"
    and "send (action_to_string a) = Inr sent"
  shows "\<exists>before d0 race later d r rest. reachable before d0 \<and> obj (dispatch_thread s) = Inr d \<and>
    operations before = pipe_ops early \<and> operations race = pipe_ops tr \<and> operations later = pipe_ops late \<and>
    messages_in (snd (parsed (chunks (early @ tr @ late)))) =
      items before @ items race @ items later @ rest \<and>
    invoke_timeout send d0 a [] race later = Inr (d, Some r) \<and>
    future_get d (opens (pipe_ops early)) = Some r \<and>
    r = (case answer (messages_with (get_action_id a) race) of
           Some x \<Rightarrow> Inr (Some x) | None \<Rightarrow> Inl (timeout_error a))"
proof -
  let ?a = "get_action_id a" let ?fail = "FailPipe (get_action_id a) (timeout_error a)"
  from request_history [OF assms(1,2)] obtain before during d rest where
    h: "obj (dispatch_thread s) = Inr d" "reachable (before @ Inr (OpenPipe ?a) # during) d"
      "operations before = pipe_ops early" "operations during = pipe_ops (tr @ PipeOp ?fail # late)"
      "messages_in (snd (parsed (chunks (early @ tr @ PipeOp ?fail # late)))) =
        items before @ items during @ pending (dispatch_thread s) @ outbox s @ rest" by blast
  from h(4) have "operations during = pipe_ops tr @ ?fail # pipe_ops late" by simp
  from operations_split [OF this] obtain race later where
    split: "during = race @ Inr ?fail # later" "operations race = pipe_ops tr" "operations later = pipe_ops late"
    by blast
  from assms(3) h(3) have fresh: "OpenPipe ?a \<notin> set (operations before)" by simp
  from opened_timed [where send = send and a = a, OF h(2) [unfolded split(1)] fresh assms(5)
      no_closing [OF split(2) assms(4)]]
  obtain d0 r where "reachable before d0" "invoke_timeout send d0 a [] race later = Inr (d, Some r)"
      "future_get d (opens (pipe_ops early)) = Some r"
      "r = (case answer (messages_with ?a race) of Some x \<Rightarrow> Inr (Some x) | None \<Rightarrow> Inl (timeout_error a))"
    unfolding h(3) by blast
  moreover have "chunks (early @ tr @ PipeOp ?fail # late) = chunks (early @ tr @ late)" by simp
  with h(5) have "messages_in (snd (parsed (chunks (early @ tr @ late)))) =
      items before @ items race @ items later @ pending (dispatch_thread s) @ outbox s @ rest"
    by (simp add: split(1))
  ultimately show ?thesis using h(1,3) split(2,3) by blast
qed

definition sample_timeout :: "sys_label list" where
  "sample_timeout =
     PipeOp (OpenPipe ''7'') # sample_wait @ [PipeOp (FailPipe ''7'' (timeout_error ping))]"

lemma sample_timeout_run:
  "\<exists>s d. sys_run (new_system 3) sample_timeout = Some s \<and> obj (dispatch_thread s) = Inr d \<and>
    future_get d 0 = Some (Inl (timeout_error ping))"
  by (simp add: sample_timeout_def sample_wait_def new_system_def start_reader_def reader_steps
      parser_start_new sample_chunk_nonempty thread_steps pipe_op_item_def get_event_pipe_def
      set_exception_on_pipe_def close_pipe_def settle_def future_get_def new_dispatcher_def Let_def
      find_emplace)

theorem timed_request_returns_witness:
  "\<exists>s d d0 race later. sys_reach 3 sample_timeout s \<and> obj (dispatch_thread s) = Inr d \<and>
    invoke_timeout Inr d0 ping [] race later = Inr (d, Some (Inl (timeout_error ping)))"
proof -
  from sample_timeout_run obtain s d where
    s: "sys_run (new_system 3) sample_timeout = Some s" "obj (dispatch_thread s) = Inr d"
      "future_get d 0 = Some (Inl (timeout_error ping))" by blast
  from sys_run_reach [OF s(1) sys_reach.start] have reach: "sys_reach 3 sample_timeout s" by simp
  then have h1: "sys_reach 3 ([] @ PipeOp (OpenPipe (get_action_id ping)) # sample_wait @
      PipeOp (FailPipe (get_action_id ping) (timeout_error ping)) # []) s"
    by (simp add: sample_timeout_def)
  have h2: "fits (received_text ([] @ PipeOp (OpenPipe (get_action_id ping)) # sample_wait @
      PipeOp (FailPipe (get_action_id ping) (timeout_error ping)) # []))"
    using sample_run_fits by (simp add: sample_wait_def sample_chunks_run)
  have h3: "OpenPipe (get_action_id ping) \<notin> set (pipe_ops [])"
    and h4: "\<forall>op \<in> set (pipe_ops sample_wait). \<not> closes (get_action_id ping) (Inr op)"
    and h5: "(Inr :: string \<Rightarrow> string result) (action_to_string ping) = Inr (action_to_string ping)"
    by (simp_all add: sample_wait_def)
  from timed_request_returns [where send = Inr and a = ping, OF h1 h2 h3 h4 h5] s(2)
  obtain d0 race later r where r: "operations later = pipe_ops []"
      "invoke_timeout Inr d0 ping [] race later = Inr (d, Some r)" "future_get d 0 = Some r" by auto
  with s(3) have "r = Inl (timeout_error ping)" by simp
  with r(2) reach s(2) show ?thesis by blast
qed

end
